(* ===== verification/HM_Prelude.thy ===== *)
theory HM_Prelude
  imports Main "HOL-Library.Word" "HOL-Library.Sublist"
begin

unbundle bit_operations_syntax

text \<open>
  Shared vocabulary of the development: C strings and byte buffers as \<open>char list\<close>, the
  compile-time limits of \<^verbatim>\<open>src/hacman.h\<close>, decimal digits, splitting at a separator, and the
  collections of rewrite rules that the component theories share. A C \<open>char\<close> is one byte and
  HOL's \<open>char\<close> has exactly 256 values, so a buffer is a \<open>string\<close>; \<open>cstr\<close> is what
  \<open>strlen\<close> and the other \<open>str*\<close> functions see of it (everything before the first NUL).
\<close>

named_theorems hm_limits "values of the compile-time limits"
named_theorems hm_simps "unfoldings that carry the component proofs"
named_theorems hm_vcg "introduction rules for what a fallible operation ensures"

section \<open>Compile-time limits (src/hacman.h)\<close>

definition HM_CONFIG_MAX :: nat where [hm_limits]: "HM_CONFIG_MAX = 1048576"
definition HM_BODY_MAX :: nat where [hm_limits]: "HM_BODY_MAX = 4194304"
definition HM_RECORD_MAX :: nat where [hm_limits]: "HM_RECORD_MAX = 4096"
definition HM_MARK_MAX :: nat where [hm_limits]: "HM_MARK_MAX = 255"
definition HM_NAME_MAX :: nat where [hm_limits]: "HM_NAME_MAX = 127"
definition HM_URL_MAX :: nat where [hm_limits]: "HM_URL_MAX = 1023"
definition HM_COMMAND_MAX :: nat where [hm_limits]: "HM_COMMAND_MAX = 2047"
definition HM_PATH_MAX :: nat where [hm_limits]: "HM_PATH_MAX = 1023"
definition HM_KEY_MAX :: nat where [hm_limits]: "HM_KEY_MAX = 31"
definition HM_IDENTITY_MAX :: nat where [hm_limits]: "HM_IDENTITY_MAX = 127"
definition HM_FILES_MAX :: nat where [hm_limits]: "HM_FILES_MAX = 64"
definition HM_FILE_PATH_MAX :: nat where [hm_limits]: "HM_FILE_PATH_MAX = 128"
definition HM_SANDBOX_WRITE_DIRS_MAX :: nat where [hm_limits]: "HM_SANDBOX_WRITE_DIRS_MAX = 16"
definition HM_BIN_NAME_MAX :: nat where [hm_limits]: "HM_BIN_NAME_MAX = 128"
definition HM_BIN_NAMES_MAX :: nat where [hm_limits]: "HM_BIN_NAMES_MAX = 32"

section \<open>Bytes and C strings\<close>

abbreviation NUL :: char where "NUL \<equiv> CHR 0x00"
abbreviation TAB :: char where "TAB \<equiv> CHR 0x09"
abbreviation LF :: char where "LF \<equiv> CHR 0x0A"
abbreviation VT :: char where "VT \<equiv> CHR 0x0B"
abbreviation FF :: char where "FF \<equiv> CHR 0x0C"
abbreviation CR :: char where "CR \<equiv> CHR 0x0D"
abbreviation DQ :: char where "DQ \<equiv> CHR 0x22"
abbreviation SQ :: char where "SQ \<equiv> CHR 0x27"
abbreviation BSL :: char where "BSL \<equiv> CHR 0x5C"

definition cstr :: "string \<Rightarrow> string" where
  "cstr s = takeWhile (\<lambda>c. c \<noteq> NUL) s"

lemma cstr_id [simp]: "NUL \<notin> set s \<Longrightarrow> cstr s = s"
  unfolding cstr_def by (induction s) auto

lemma NUL_notin_cstr [simp]: "NUL \<notin> set (cstr s)"
  unfolding cstr_def by (auto dest: set_takeWhileD)

lemma length_cstr_le: "length (cstr s) \<le> length s"
  unfolding cstr_def by (rule length_takeWhile_le)

lemma set_cstr_subset: "set (cstr s) \<subseteq> set s"
  unfolding cstr_def by (auto dest: set_takeWhileD)

lemma cstr_Nil [simp]: "cstr [] = []"
  by (simp add: cstr_def)

lemma cstr_Cons: "cstr (c # s) = (if c = NUL then [] else c # cstr s)"
  by (simp add: cstr_def)

section \<open>Longs\<close>

text \<open>
  C's \<open>unsigned long\<close> on the targets hacman supports is 64 bits wide; \<open>long\<close> values are
  kept as \<open>int\<close>, read from a word by \<open>sint\<close>, with \<open>to_long\<close> the reduction of an
  arithmetic result into the signed 64-bit range.
\<close>

type_synonym ulong = "64 word"

definition to_long :: "int \<Rightarrow> int" where
  "to_long i = sint (word_of_int i :: 64 word)"

lemma to_long_id: "- (2 ^ 63) \<le> i \<Longrightarrow> i < 2 ^ 63 \<Longrightarrow> to_long i = i"
  by (simp add: to_long_def signed_of_int signed_take_bit_int_eq_self)

lemma to_long_range: "- (2 ^ 63) \<le> to_long i \<and> to_long i < 2 ^ 63"
  using sint_range_size [of "word_of_int i :: 64 word"]
  by (simp add: to_long_def word_size)

section \<open>Decimal digits\<close>

definition digit_char :: "nat \<Rightarrow> char" where
  "digit_char d = char_of (48 + d)"

definition digit_val :: "char \<Rightarrow> nat" where
  "digit_val c = of_char c - 48"

definition is_digit :: "char \<Rightarrow> bool" where
  "is_digit c \<longleftrightarrow> 48 \<le> (of_char c :: nat) \<and> (of_char c :: nat) \<le> 57"

lemma of_digit_char: "d < 10 \<Longrightarrow> (of_char (digit_char d) :: nat) = 48 + d"
  by (simp add: digit_char_def of_char_of)

lemma is_digit_digit_char [simp]: "d < 10 \<Longrightarrow> is_digit (digit_char d)"
  by (simp add: is_digit_def of_digit_char)

lemma digit_val_digit_char [simp]: "d < 10 \<Longrightarrow> digit_val (digit_char d) = d"
  by (simp add: digit_val_def of_digit_char)

text \<open>
  The \<open>do ... while (x > 0 && n < cap)\<close> loop that every decimal printer of the program runs:
  least significant digit first, at most \<open>cap\<close> digits.
\<close>

fun digits_rev :: "nat \<Rightarrow> nat \<Rightarrow> string" where
  "digits_rev 0 v = []"
| "digits_rev (Suc k) v =
     digit_char (v mod 10) # (if v div 10 > 0 then digits_rev k (v div 10) else [])"

text \<open>The value of a digit string, most significant digit first.\<close>

definition dec_value :: "string \<Rightarrow> nat" where
  "dec_value s = foldl (\<lambda>v c. v * 10 + digit_val c) 0 s"

text \<open>The reference decimal rendering.\<close>

definition dec :: "nat \<Rightarrow> string" where
  "dec v = rev (digits_rev (Suc v) v)"

lemma digits_rev_enough: "v < 10 ^ k \<Longrightarrow> 0 < k \<Longrightarrow> k \<le> m \<Longrightarrow> digits_rev m v = digits_rev k v"
proof (induction k arbitrary: v m)
  case 0
  then show ?case by simp
next
  case (Suc k)
  then obtain m' where m: "m = Suc m'" "k \<le> m'" by (cases m) auto
  show ?case
  proof (cases "v div 10 > 0")
    case True
    with Suc.prems(1) have k0: "0 < k" by (cases k) auto
    have "v div 10 < 10 ^ k" using Suc.prems(1) by (simp add: less_mult_imp_div_less mult.commute)
    from Suc.IH [OF this k0 m(2)] show ?thesis by (simp add: m(1))
  next
    case False
    then show ?thesis by (simp add: m(1))
  qed
qed

lemma less_ten_power: "(v::nat) < 10 ^ Suc v"
proof -
  have "v < 2 ^ v" by (rule less_exp)
  also have "\<dots> \<le> 10 ^ v" by (rule power_mono) auto
  also have "\<dots> \<le> 10 ^ Suc v" by simp
  finally show ?thesis .
qed

lemma digits_rev_dec: "v < 10 ^ k \<Longrightarrow> 0 < k \<Longrightarrow> rev (digits_rev k v) = dec v"
proof -
  assume a: "v < 10 ^ k" "0 < k"
  have "digits_rev (max k (Suc v)) v = digits_rev k v"
    by (rule digits_rev_enough) (use a in auto)
  moreover have "digits_rev (max k (Suc v)) v = digits_rev (Suc v) v"
    by (rule digits_rev_enough) (use less_ten_power in auto)
  ultimately show ?thesis by (simp add: dec_def)
qed

lemma length_digits_rev: "length (digits_rev k v) \<le> k"
  by (induction k v rule: digits_rev.induct) auto

lemma digits_rev_digits: "c \<in> set (digits_rev k v) \<Longrightarrow> is_digit c"
  by (induction k v rule: digits_rev.induct) (auto split: if_splits)

lemma digits_rev_value:
  "v < 10 ^ k \<Longrightarrow> foldr (\<lambda>c w. w * 10 + digit_val c) (digits_rev k v) 0 = v"
proof (induction k v rule: digits_rev.induct)
  case (1 v)
  then show ?case by simp
next
  case (2 k v)
  show ?case
  proof (cases "v div 10 > 0")
    case True
    have "v div 10 < 10 ^ k"
      using "2.prems" by (simp add: less_mult_imp_div_less mult.commute)
    with True "2.IH" have "foldr (\<lambda>c w. w * 10 + digit_val c) (digits_rev k (v div 10)) 0 = v div 10"
      by simp
    with True show ?thesis by simp
  next
    case False
    then have "v < 10" by simp
    then show ?thesis by simp
  qed
qed

lemma dec_value_dec [simp]: "dec_value (dec v) = v"
proof -
  have "foldr (\<lambda>c w. w * 10 + digit_val c) (digits_rev (Suc v) v) 0 = v"
    by (rule digits_rev_value) (rule less_ten_power)
  then show ?thesis
    unfolding dec_value_def dec_def by (simp add: foldl_conv_foldr)
qed

lemma dec_digits: "c \<in> set (dec v) \<Longrightarrow> is_digit c"
  unfolding dec_def by (auto dest: digits_rev_digits)

lemma dec_nonempty [simp]: "dec v \<noteq> []"
  by (simp add: dec_def)

lemma length_dec_le: "v < 10 ^ k \<Longrightarrow> 0 < k \<Longrightarrow> length (dec v) \<le> k"
  using digits_rev_dec [of v k] length_digits_rev [of k v] by (metis length_rev)

lemma length_dec_ulong: "length (dec (unat (v :: 64 word))) \<le> 20"
proof -
  have "unat v < 2 ^ 64" using unsigned_less [of v, where 'a = nat] by simp
  also have "\<dots> < (10::nat) ^ 20" by simp
  finally show ?thesis by (rule length_dec_le) simp
qed

lemma not_digit_consts [simp]:
  "\<not> is_digit TAB" "\<not> is_digit LF" "\<not> is_digit CR" "\<not> is_digit NUL"
  "\<not> is_digit (CHR '' '')" "\<not> is_digit (CHR ''-'')"
  by (simp_all add: is_digit_def)

section \<open>Searching and splitting\<close>

text \<open>\<open>memchr\<close>: the offset of the first occurrence of a byte, if any.\<close>

fun memchr :: "char \<Rightarrow> string \<Rightarrow> nat option" where
  "memchr c [] = None"
| "memchr c (x # xs) = (if x = c then Some 0 else map_option Suc (memchr c xs))"

lemma memchr_None: "memchr c s = None \<longleftrightarrow> c \<notin> set s"
  by (induction s) auto

lemma memchr_SomeD: "memchr c s = Some i \<Longrightarrow> i < length s \<and> s ! i = c \<and> c \<notin> set (take i s)"
  by (induction s arbitrary: i) (auto split: if_splits simp: nth_Cons' take_Cons')

lemma memchr_append_sep: "c \<notin> set a \<Longrightarrow> memchr c (a @ c # b) = Some (length a)"
  by (induction a) auto

lemma memchr_split:
  "memchr c s = Some i \<Longrightarrow> s = take i s @ c # drop (Suc i) s"
  by (metis memchr_SomeD id_take_nth_drop)

text \<open>The pieces of a string between separators (\<open>n\<close> separators give \<open>n + 1\<close> pieces).\<close>

fun split_on :: "char \<Rightarrow> string \<Rightarrow> string list" where
  "split_on c [] = [[]]"
| "split_on c (x # xs) =
     (if x = c then [] # split_on c xs
      else (case split_on c xs of [] \<Rightarrow> [[x]] | w # ws \<Rightarrow> (x # w) # ws))"

lemma split_on_nonempty [simp]: "split_on c s \<noteq> []"
  by (induction s) (auto split: list.splits)

lemma split_on_no_sep: "c \<notin> set s \<Longrightarrow> split_on c s = [s]"
  by (induction s) auto

lemma split_on_append_sep: "c \<notin> set a \<Longrightarrow> split_on c (a @ c # b) = a # split_on c b"
  by (induction a) auto

lemma split_on_pieces: "p \<in> set (split_on c s) \<Longrightarrow> c \<notin> set p"
  by (induction s arbitrary: p) (auto split: if_splits list.splits)

lemma split_on_set: "p \<in> set (split_on c s) \<Longrightarrow> set p \<subseteq> set s"
  by (induction s arbitrary: p) (fastforce split: if_splits list.splits)+

text \<open>A path component that may be walked without leaving the directory it is in.\<close>

definition safe_component :: "string \<Rightarrow> bool" where
  "safe_component p \<longleftrightarrow> p \<noteq> [] \<and> p \<noteq> ''.'' \<and> p \<noteq> ''..''"

text \<open>
  The same check made while walking the path once: \<open>cur\<close> is the component read so far. Every
  index loop of the program over a path's components is a refinement of this walk.
\<close>

abbreviation SLASH :: char where "SLASH \<equiv> CHR ''/''"

fun comp_scan :: "string \<Rightarrow> string \<Rightarrow> bool" where
  "comp_scan cur [] = safe_component cur"
| "comp_scan cur (c # s) =
     (if c = SLASH then safe_component cur \<and> comp_scan [] s else comp_scan (cur @ [c]) s)"

lemma comp_scan_split:
  "comp_scan cur s \<longleftrightarrow>
     safe_component (cur @ hd (split_on SLASH s)) \<and> list_all safe_component (tl (split_on SLASH s))"
proof (induction cur s rule: comp_scan.induct)
  case (1 cur)
  then show ?case by simp
next
  case (2 cur c s)
  have "list_all safe_component (split_on SLASH s) \<longleftrightarrow>
      safe_component (hd (split_on SLASH s)) \<and> list_all safe_component (tl (split_on SLASH s))"
    by (cases "split_on SLASH s") auto
  with 2 show ?case by (auto split: list.splits)
qed

lemma comp_scan_components: "comp_scan [] s \<longleftrightarrow> list_all safe_component (split_on SLASH s)"
  unfolding comp_scan_split by (cases "split_on SLASH s") auto

text \<open>How the loops write the test on the component that ends at \<open>i\<close>.\<close>

definition bad_component :: "string \<Rightarrow> nat \<Rightarrow> nat \<Rightarrow> bool" where
  "bad_component path start i \<longleftrightarrow>
     i = start \<or> (i - start = 1 \<and> path ! start = CHR ''.'') \<or>
     (i - start = 2 \<and> path ! start = CHR ''.'' \<and> path ! (start + 1) = CHR ''.'')"

lemma bad_component_iff:
  assumes "start \<le> i" "i \<le> length path"
  shows "bad_component path start i \<longleftrightarrow> \<not> safe_component (take (i - start) (drop start path))"
proof -
  consider "i = start" | "i = Suc start" | "i = Suc (Suc start)" | "Suc (Suc start) < i"
    using assms(1) by linarith
  then show ?thesis
  proof cases
    case 1
    then show ?thesis by (simp add: bad_component_def safe_component_def)
  next
    case 2
    with assms have "take (i - start) (drop start path) = [path ! start]"
      by (simp add: take_Suc_conv_app_nth)
    with 2 show ?thesis by (simp add: bad_component_def safe_component_def)
  next
    case 3
    with assms have "take (i - start) (drop start path) = [path ! start, path ! Suc start]"
      by (simp add: numeral_2_eq_2 take_Suc_conv_app_nth)
    with 3 show ?thesis by (auto simp: bad_component_def safe_component_def)
  next
    case 4
    then have "2 < i - start" by linarith
    moreover have "length (take (i - start) (drop start path)) = i - start" using assms by simp
    ultimately have "safe_component (take (i - start) (drop start path))"
      unfolding safe_component_def by (auto simp del: length_take)
    with 4 show ?thesis by (auto simp: bad_component_def)
  qed
qed

section \<open>Reads\<close>

text \<open>
  What \<open>read(2)\<close> may do at one call: transfer up to a number of bytes (at least one when any are
  left), fail with \<open>EINTR\<close>, or fail otherwise. A schedule is the list of the kernel's choices.
\<close>

datatype read_choice = RdUpTo nat | RdIntr | RdErr

datatype read_result = RGot nat | RIntr | RFail

fun kernel_read :: "read_choice list \<Rightarrow> nat \<Rightarrow> string \<Rightarrow> read_result \<times> read_choice list" where
  "kernel_read [] room data = (RGot (min (length data) room), [])"
| "kernel_read (RdUpTo k # r) room data = (RGot (min (length data) (min (Suc k) room)), r)"
| "kernel_read (RdIntr # r) room data = (RIntr, r)"
| "kernel_read (RdErr # r) room data = (RFail, r)"

lemma kernel_read_got:
  "kernel_read sched room data = (RGot n, r) \<Longrightarrow>
   n \<le> length data \<and> n \<le> room \<and> length r \<le> length sched \<and> (0 < room \<longrightarrow> n = 0 \<longrightarrow> data = [])"
  by (induction sched room data rule: kernel_read.induct) (auto simp: min_def split: if_split_asm)

lemma kernel_read_intr: "kernel_read sched room data = (RIntr, r) \<Longrightarrow> length r < length sched"
  by (induction sched room data rule: kernel_read.induct) auto

lemma kernel_read_no_err:
  "kernel_read sched room data = (res, r) \<Longrightarrow> RdErr \<notin> set sched \<Longrightarrow> RdErr \<notin> set r \<and> res \<noteq> RFail"
  by (induction sched room data rule: kernel_read.induct) auto

section \<open>What a fallible operation ensures\<close>

text \<open>
  An operation that may fail returns a sum, the error on the left. \<open>ensures r Q\<close> says that \<open>Q\<close>
  holds of the result when there is one; the rules walk the operation's branches, so a
  preservation proof is \<open>intro hm_vcg\<close> followed by the goals of the branches that succeed.
\<close>

definition ensures :: "'e + 'a \<Rightarrow> ('a \<Rightarrow> bool) \<Rightarrow> bool" where
  "ensures r Q \<longleftrightarrow> (\<forall>a. r = Inr a \<longrightarrow> Q a)"

lemma ensuresD: "ensures r Q \<Longrightarrow> r = Inr a \<Longrightarrow> Q a"
  by (simp add: ensures_def)

lemma ensuresI: "(\<And>a. r = Inr a \<Longrightarrow> Q a) \<Longrightarrow> ensures r Q"
  by (simp add: ensures_def)

lemma ensures_Inl [hm_vcg]: "ensures (Inl e) Q"
  by (simp add: ensures_def)

lemma ensures_Inr [hm_vcg]: "Q a \<Longrightarrow> ensures (Inr a) Q"
  by (simp add: ensures_def)

lemma ensures_if [hm_vcg]:
  "(b \<Longrightarrow> ensures r Q) \<Longrightarrow> (\<not> b \<Longrightarrow> ensures s Q) \<Longrightarrow> ensures (if b then r else s) Q"
  by simp

lemma ensures_option [hm_vcg]:
  "(x = None \<Longrightarrow> ensures r Q) \<Longrightarrow> (\<And>y. x = Some y \<Longrightarrow> ensures (s y) Q) \<Longrightarrow>
   ensures (case x of None \<Rightarrow> r | Some y \<Rightarrow> s y) Q"
  by (cases x) simp_all

lemma ensures_sum [hm_vcg]:
  "(\<And>e. x = Inl e \<Longrightarrow> ensures (l e) Q) \<Longrightarrow> (\<And>a. x = Inr a \<Longrightarrow> ensures (s a) Q) \<Longrightarrow>
   ensures (case x of Inl e \<Rightarrow> l e | Inr a \<Rightarrow> s a) Q"
  by (cases x) simp_all

lemma ensures_prod [hm_vcg]:
  "(\<And>a b. x = (a, b) \<Longrightarrow> ensures (s a b) Q) \<Longrightarrow> ensures (case x of (a, b) \<Rightarrow> s a b) Q"
  by (cases x) simp

lemma ensures_list [hm_vcg]:
  "(x = [] \<Longrightarrow> ensures r Q) \<Longrightarrow> (\<And>y ys. x = y # ys \<Longrightarrow> ensures (s y ys) Q) \<Longrightarrow>
   ensures (case x of [] \<Rightarrow> r | y # ys \<Rightarrow> s y ys) Q"
  by (cases x) simp_all

lemma ensures_map_sum [hm_vcg]: "ensures x (\<lambda>a. Q (f a)) \<Longrightarrow> ensures (map_sum id f x) Q"
  by (cases x) (simp_all add: ensures_def)

lemma ensures_mono: "ensures r P \<Longrightarrow> (\<And>a. P a \<Longrightarrow> Q a) \<Longrightarrow> ensures r Q"
  by (simp add: ensures_def)

end
