(* ===== verification/HM_Util.thy ===== *)
theory HM_Util
  imports HM_Prelude
begin

text \<open>
  \<^verbatim>\<open>src/util.c\<close>: the \<open>write(2)\<close>-based formatter and its output buffer, the borrowed-string
  helpers, unsigned parsing, the hex digest rendering, and reading the input file. The output
  module's static variables are the record \<open>out_state\<close>; the bytes that reach a descriptor
  are kept as one trace of (descriptor, byte) pairs, so that the order across descriptors is
  visible and a short write is not.
\<close>

section \<open>Strings\<close>

text \<open>\<^verbatim>\<open>hm_str_eq\<close>: a slice against a NUL-terminated literal (its bytes before the NUL).\<close>

fun hm_str_eq :: "string \<Rightarrow> string \<Rightarrow> bool" where
  "hm_str_eq [] lit = (lit = [])"
| "hm_str_eq (c # cs) [] = False"
| "hm_str_eq (c # cs) (l # ls) = (if l \<noteq> c then False else hm_str_eq cs ls)"

lemma hm_str_eq_iff [simp]: "hm_str_eq a lit \<longleftrightarrow> a = lit"
  by (induction a lit rule: hm_str_eq.induct) auto

definition hm_str_eq_str :: "string \<Rightarrow> string \<Rightarrow> bool" where
  "hm_str_eq_str a b \<longleftrightarrow> length a = length b \<and> (length a = 0 \<or> take (length a) a = take (length a) b)"

lemma hm_str_eq_str_iff [simp]: "hm_str_eq_str a b \<longleftrightarrow> a = b"
  unfolding hm_str_eq_str_def by auto

text \<open>
  \<^verbatim>\<open>hm_str_copy\<close>: the bytes stored before the terminating NUL, and the copied length that is
  returned. With \<open>cap = 0\<close> nothing is stored.
\<close>

definition hm_str_copy :: "nat \<Rightarrow> string \<Rightarrow> string \<times> nat" where
  "hm_str_copy cap s =
     (if cap = 0 then ([], 0)
      else (let n = (if length s > cap - 1 then cap - 1 else length s) in (take n s, n)))"

text \<open>What later C-string uses of the destination buffer see.\<close>

definition copied :: "nat \<Rightarrow> string \<Rightarrow> string" where
  "copied cap s = cstr (fst (hm_str_copy cap s))"

lemma hm_str_copy_eq: "0 < cap \<Longrightarrow> hm_str_copy cap s = (take (cap - 1) s, min (length s) (cap - 1))"
  by (auto simp: hm_str_copy_def Let_def)

lemma copied_eq: "0 < cap \<Longrightarrow> copied cap s = cstr (take (cap - 1) s)"
  by (simp add: copied_def hm_str_copy_eq)

lemma copied_fits: "length s < cap \<Longrightarrow> NUL \<notin> set s \<Longrightarrow> copied cap s = s"
  by (simp add: copied_eq)

lemma length_copied: "0 < cap \<Longrightarrow> length (copied cap s) < cap"
  using length_cstr_le [of "take (cap - 1) s"] by (simp add: copied_eq) linarith

lemma NUL_notin_copied [simp]: "NUL \<notin> set (copied cap s)"
  by (simp add: copied_def)

section \<open>Numbers\<close>

text \<open>\<^verbatim>\<open>fmt_ulong\<close>: a 24-byte scratch buffer, then at most \<open>cap\<close> bytes of it.\<close>

definition fmt_ulong :: "nat \<Rightarrow> nat \<Rightarrow> string" where
  "fmt_ulong cap v = take cap (rev (digits_rev 24 v))"

text \<open>\<^verbatim>\<open>hm_parse_ulong\<close>: digits only, accumulated with wrap-around and no overflow check.\<close>

fun parse_ulong_loop :: "string \<Rightarrow> ulong \<Rightarrow> ulong option" where
  "parse_ulong_loop [] v = Some v"
| "parse_ulong_loop (c # cs) v =
     (if \<not> is_digit c then None
      else parse_ulong_loop cs (v * 10 + of_nat (digit_val c)))"

definition hm_parse_ulong :: "string \<Rightarrow> ulong option" where
  "hm_parse_ulong s = (if s = [] then None else parse_ulong_loop s 0)"

lemma parse_ulong_loop_eq:
  "parse_ulong_loop s (of_nat v) =
     (if list_all is_digit s then Some (of_nat (foldl (\<lambda>v c. v * 10 + digit_val c) v s)) else None)"
proof (induction s arbitrary: v)
  case Nil
  then show ?case by simp
next
  case (Cons c s)
  show ?case using Cons.IH [of "v * 10 + digit_val c"] by (simp add: algebra_simps)
qed

lemma hm_parse_ulong_eq:
  "hm_parse_ulong s =
     (if s \<noteq> [] \<and> list_all is_digit s then Some (of_nat (dec_value s)) else None)"
  using parse_ulong_loop_eq [of s 0] by (simp add: hm_parse_ulong_def dec_value_def)

lemma hm_parse_ulong_dec [simp]: "hm_parse_ulong (dec v) = Some (of_nat v)"
  by (auto simp: hm_parse_ulong_eq list_all_iff dest: dec_digits)

text \<open>
  Every decimal printer of the program promises the same: below its bound, the standard decimal
  rendering. The facts its callers need follow from that alone.
\<close>

locale decimal_printer =
  fixes pr :: "nat \<Rightarrow> string" and bound :: nat
  assumes pr_dec: "v < bound \<Longrightarrow> pr v = dec v"
begin

lemma parse_pr: "v < bound \<Longrightarrow> bound \<le> 2 ^ 64 \<Longrightarrow> map_option unat (hm_parse_ulong (pr v)) = Some v"
  by (simp add: pr_dec unsigned_of_nat take_bit_nat_eq_self)

lemma pr_digits: "v < bound \<Longrightarrow> c \<in> set (pr v) \<Longrightarrow> is_digit c"
  by (simp add: pr_dec dec_digits)

lemma pr_inj: "v < bound \<Longrightarrow> w < bound \<Longrightarrow> pr v = pr w \<Longrightarrow> v = w"
  by (metis pr_dec dec_value_dec)

lemma pr_nonempty: "v < bound \<Longrightarrow> pr v \<noteq> []"
  by (simp add: pr_dec)

end

lemma digits24_dec: "v < 10 ^ 24 \<Longrightarrow> rev (digits_rev 24 v) = dec v"
  by (rule digits_rev_dec) auto

lemma length_dec_20: "v < 2 ^ 64 \<Longrightarrow> length (dec v) \<le> 20"
  by (rule length_dec_le) auto

interpretation fmt_ulong: decimal_printer "fmt_ulong 24" "2 ^ 64"
proof unfold_locales
  fix v :: nat
  assume v: "v < 2 ^ 64"
  then have "length (dec v) \<le> 20" by (rule length_dec_20)
  with v show "fmt_ulong 24 v = dec v" by (simp add: fmt_ulong_def digits24_dec)
qed

lemma fmt_ulong_take: "v < 2 ^ 64 \<Longrightarrow> fmt_ulong cap v = take cap (dec v)"
  by (simp add: fmt_ulong_def digits24_dec)

section \<open>The formatter\<close>

text \<open>
  \<^verbatim>\<open>hm_vformat\<close>: the arguments of a call in order. A conversion whose argument has another
  type is undefined behaviour in C and is \<open>None\<close> here; a NULL \<open>%s\<close> prints \<open>(null)\<close>.
\<close>

datatype fmt_arg = AStr "string option" | ASlice string | AULong ulong | ALong int | AChar char

fun str_arg :: "string option \<Rightarrow> string" where
  "str_arg None = ''(null)''"
| "str_arg (Some s) = cstr s"

definition long_fmt :: "nat \<Rightarrow> int \<Rightarrow> string" where
  "long_fmt room v =
     (if v < 0 then ''-'' @ (if 1 < room then fmt_ulong (room - 1) (nat (- v)) else [])
      else fmt_ulong room (nat v))"

text \<open>The \<open>switch\<close> over the conversion character: the bytes stored in \<open>room\<close> free ones.\<close>

definition conv :: "nat \<Rightarrow> char \<Rightarrow> fmt_arg list \<Rightarrow> (string \<times> fmt_arg list) option" where
  "conv room d args =
     (if d = CHR ''s'' then
        (case args of AStr s # as \<Rightarrow> Some (take room (str_arg s), as) | _ \<Rightarrow> None)
      else if d = CHR ''S'' then
        (case args of ASlice s # as \<Rightarrow> Some (take room s, as) | _ \<Rightarrow> None)
      else if d = CHR ''u'' then
        (case args of AULong v # as \<Rightarrow> Some (fmt_ulong room (unat v), as) | _ \<Rightarrow> None)
      else if d = CHR ''d'' then
        (case args of ALong v # as \<Rightarrow> Some (long_fmt room v, as) | _ \<Rightarrow> None)
      else if d = CHR ''c'' then
        (case args of AChar c # as \<Rightarrow> Some ([c], as) | _ \<Rightarrow> None)
      else if d = CHR ''%'' then Some (''%'', args)
      else Some ([d], args))"

fun vformat_loop :: "nat \<Rightarrow> string \<Rightarrow> fmt_arg list \<Rightarrow> string \<Rightarrow> string option" where
  "vformat_loop cap [] args dst = Some dst"
| "vformat_loop cap (f # fmt) args dst =
     (if \<not> length dst < cap then Some dst
      else if f \<noteq> CHR ''%'' then vformat_loop cap fmt args (dst @ [f])
      else (case fmt of
          [] \<Rightarrow> Some dst
        | d # fmt' \<Rightarrow>
            (case conv (cap - length dst) d args of
               None \<Rightarrow> None
             | Some (p, args') \<Rightarrow> vformat_loop cap fmt' args' (dst @ p))))"

definition hm_vformat :: "nat \<Rightarrow> string \<Rightarrow> fmt_arg list \<Rightarrow> string option" where
  "hm_vformat cap fmt args = vformat_loop cap fmt args []"

text \<open>The reference: the same conversions with no buffer in the way.\<close>

definition conv_ref :: "char \<Rightarrow> fmt_arg list \<Rightarrow> (string \<times> fmt_arg list) option" where
  "conv_ref d args =
     (if d = CHR ''s'' then (case args of AStr s # as \<Rightarrow> Some (str_arg s, as) | _ \<Rightarrow> None)
      else if d = CHR ''S'' then (case args of ASlice s # as \<Rightarrow> Some (s, as) | _ \<Rightarrow> None)
      else if d = CHR ''u'' then
        (case args of AULong v # as \<Rightarrow> Some (dec (unat v), as) | _ \<Rightarrow> None)
      else if d = CHR ''d'' then
        (case args of
           ALong v # as \<Rightarrow> Some (if v < 0 then CHR ''-'' # dec (nat (- v)) else dec (nat v), as)
         | _ \<Rightarrow> None)
      else if d = CHR ''c'' then (case args of AChar c # as \<Rightarrow> Some ([c], as) | _ \<Rightarrow> None)
      else Some ([d], args))"

fun vformat_ref :: "string \<Rightarrow> fmt_arg list \<Rightarrow> string option" where
  "vformat_ref [] args = Some []"
| "vformat_ref (f # fmt) args =
     (if f \<noteq> CHR ''%'' then map_option ((#) f) (vformat_ref fmt args)
      else (case fmt of
          [] \<Rightarrow> Some []
        | d # fmt' \<Rightarrow>
            (case conv_ref d args of
               None \<Rightarrow> None
             | Some (p, args') \<Rightarrow> map_option ((@) p) (vformat_ref fmt' args'))))"

definition long_arg_ok :: "fmt_arg \<Rightarrow> bool" where
  "long_arg_ok a = (case a of ALong v \<Rightarrow> - (2 ^ 63) \<le> v \<and> v < 2 ^ 63 | _ \<Rightarrow> True)"

lemma fmt_ulong_word: "fmt_ulong cap (unat (v :: ulong)) = take cap (dec (unat v))"
  by (rule fmt_ulong_take) (use unsigned_less [of v, where 'a = nat] in simp)

lemma long_fmt_take:
  assumes "0 < room" "- (2 ^ 63) \<le> v" "v < 2 ^ 63"
  shows "long_fmt room v = take room (if v < 0 then CHR ''-'' # dec (nat (- v)) else dec (nat v))"
proof -
  have "nat \<bar>v\<bar> < 2 ^ 64" using assms(2,3) by (simp add: nat_less_iff abs_if)
  then have "v < 0 \<Longrightarrow> nat (- v) < 2 ^ 64" and "\<not> v < 0 \<Longrightarrow> nat v < 2 ^ 64" by auto
  with assms(1) show ?thesis
    by (cases room) (auto simp: long_fmt_def fmt_ulong_take)
qed

lemma vformat_full: "\<not> length dst < cap \<Longrightarrow> vformat_loop cap fmt args dst = Some dst"
  by (cases fmt) auto

lemma conv_take:
  assumes "list_all long_arg_ok args" "0 < room"
  shows "conv room d args = map_option (\<lambda>(p, as). (take room p, as)) (conv_ref d args)"
proof (cases args)
  case Nil
  with assms show ?thesis by (simp add: conv_ref_def conv_def)
next
  case (Cons a as')
  have "\<And>v. a = ALong v \<Longrightarrow>
      long_fmt room v = take room (if v < 0 then CHR ''-'' # dec (nat (- v)) else dec (nat v))"
    using assms Cons by (intro long_fmt_take) (auto simp: long_arg_ok_def)
  with Cons assms(2) show ?thesis
    apply (cases a)
        apply (simp_all only: conv_ref_def conv_def fmt_ulong_word list.case fmt_arg.case)
        apply simp_all
    done
qed

lemma conv_ref_rest:
  "conv_ref d args = Some (p, as) \<Longrightarrow> as = args \<or> as = tl args"
  by (cases args; cases "hd args") (simp_all add: conv_ref_def split: if_split_asm)

lemma conv_ref_ok: "conv_ref d args = Some (p, as) \<Longrightarrow> list_all P args \<Longrightarrow> list_all P as"
  by (cases args) (auto dest!: conv_ref_rest)

lemma vformat_loop_ref:
  "vformat_ref fmt args = Some t \<Longrightarrow> list_all long_arg_ok args \<Longrightarrow> length dst \<le> cap \<Longrightarrow>
   vformat_loop cap fmt args dst = Some (take cap (dst @ t))"
proof (induction cap fmt args dst arbitrary: t rule: vformat_loop.induct)
  case (1 cap args dst)
  then show ?case by simp
next
  case (2 cap f fmt args dst)
  show ?case
  proof (cases "length dst < cap")
    case False
    then show ?thesis using "2.prems"(3) by (simp add: vformat_full)
  next
    case room: True
    show ?thesis
    proof (cases "f = CHR ''%''")
      case False
      with 2 room show ?thesis by auto
    next
      case pct: True
      show ?thesis
      proof (cases fmt)
        case Nil
        with "2.prems" room pct show ?thesis by simp
      next
        case (Cons d fmt')
        from "2.prems"(1) pct Cons obtain p as t'
          where c: "conv_ref d args = Some (p, as)" and r: "vformat_ref fmt' as = Some t'" and t: "t = p @ t'"
          by (auto split: option.splits prod.splits)
        from conv_take [OF "2.prems"(2), of "cap - length dst" d] room c
        have cv: "conv (cap - length dst) d args = Some (take (cap - length dst) p, as)" by simp
        have ok: "list_all long_arg_ok as" by (rule conv_ref_ok [OF c "2.prems"(2)])
        have "vformat_loop cap fmt' as (dst @ take (cap - length dst) p) =
            Some (take cap ((dst @ take (cap - length dst) p) @ t'))"
          by (rule "2.IH"(2)) (use room pct Cons cv ok r "2.prems"(3) in auto)
        also have "take cap ((dst @ take (cap - length dst) p) @ t') = take cap (dst @ t)"
          using "2.prems"(3) by (simp add: t min_def)
        finally show ?thesis using room pct Cons cv by simp
      qed
    qed
  qed
qed

section \<open>Digests\<close>

text \<open>
  \<^verbatim>\<open>hm_hash_hex\<close>. XXH3 is third-party code: a parameter \<open>xxh3\<close> of the model. What the program
  does itself is the rendering of the 64-bit value, most significant nibble first.
\<close>

definition hex_chars :: string where
  "hex_chars = ''0123456789abcdef''"

definition hex64 :: "ulong \<Rightarrow> string" where
  "hex64 h = map (\<lambda>i. hex_chars ! unat (drop_bit (60 - 4 * i) h AND 0xF)) [0..<16]"

definition hm_hash_hex :: "(string \<Rightarrow> ulong) \<Rightarrow> string \<Rightarrow> string" where
  "hm_hash_hex xxh3 data = hex64 (xxh3 data)"

lemma length_hex64 [simp]: "length (hex64 h) = 16"
  by (simp add: hex64_def)

lemma nibble_less: "unat ((x :: ulong) AND 0xF) < 16"
proof -
  have "x AND 0xF = x AND mask 4" by (simp add: mask_eq_exp_minus_1)
  also have "\<dots> = take_bit 4 x" by (simp add: take_bit_eq_mask)
  finally have "unat (x AND 0xF) = take_bit 4 (unat x)" by (simp add: unsigned_take_bit_eq)
  also have "\<dots> < 2 ^ 4" by (rule take_bit_nat_less_exp)
  finally show ?thesis by simp
qed

lemma hex_chars_distinct: "i < 16 \<Longrightarrow> j < 16 \<Longrightarrow> hex_chars ! i = hex_chars ! j \<Longrightarrow> i = j"
  using nth_eq_iff_index_eq [of hex_chars i j] by (simp add: hex_chars_def)

lemma set_hex64: "set (hex64 h) \<subseteq> set hex_chars"
proof
  fix c assume "c \<in> set (hex64 h)"
  then obtain i where "c = hex_chars ! unat (drop_bit (60 - 4 * i) h AND 0xF)"
    by (auto simp: hex64_def)
  moreover have "length hex_chars = 16" by (simp add: hex_chars_def)
  then have "unat (drop_bit (60 - 4 * i) h AND 0xF) < length hex_chars"
    using nibble_less by (simp only:)
  ultimately show "c \<in> set hex_chars" by (metis nth_mem)
qed

text \<open>The rendering loses nothing: equal digests in hex are equal digests.\<close>

lemma hex64_nibble:
  assumes "hex64 g = hex64 h" "i < 16"
  shows "drop_bit (60 - 4 * i) g AND 0xF = drop_bit (60 - 4 * i) h AND 0xF"
proof -
  have "hex64 g ! i = hex64 h ! i" using assms(1) by simp
  with assms(2) have "hex_chars ! unat (drop_bit (60 - 4 * i) g AND 0xF) =
      hex_chars ! unat (drop_bit (60 - 4 * i) h AND 0xF)"
    by (simp add: hex64_def)
  then show ?thesis using nibble_less hex_chars_distinct by (metis word_unat_eq_iff)
qed

lemma hex64_inj: "hex64 g = hex64 h \<Longrightarrow> g = h"
proof (rule bit_eqI)
  fix n
  assume eq: "hex64 g = hex64 h" and "possible_bit TYPE(ulong) n"
  then have n: "n < 64" by simp
  define i where "i = 15 - n div 4"
  have i: "i < 16" "60 - 4 * i = 4 * (n div 4)" using n by (auto simp: i_def)
  have mod: "n mod 4 < 4" by simp
  have "bit (drop_bit (60 - 4 * i) g AND 0xF) (n mod 4) = bit (drop_bit (60 - 4 * i) h AND 0xF) (n mod 4)"
    by (simp add: hex64_nibble [OF eq i(1)])
  moreover have "bit (0xF :: ulong) (n mod 4)"
  proof -
    have "bit (mask 4 :: ulong) (n mod 4)" using mod by (simp add: bit_mask_iff)
    moreover have "(mask 4 :: ulong) = 0xF" by (simp add: mask_eq_exp_minus_1)
    ultimately show ?thesis by (simp only:)
  qed
  ultimately show "bit g n = bit h n"
    by (simp add: bit_and_iff bit_drop_bit_eq i(2))
qed

section \<open>Reading the input\<close>

text \<open>
  \<^verbatim>\<open>open_source\<close>: the lexical walk that decides whether the \<open>openat2\<close> probe is made. \<open>path\<close> is
  the C string, so \<open>path[i] == '\0'\<close> is \<open>i = length path\<close>. The kernel's two answers are
  parameters.
\<close>

function canon_scan :: "string \<Rightarrow> nat \<Rightarrow> nat \<Rightarrow> bool" where
  "canon_scan path start i =
     (if i > HM_PATH_MAX then False
      else if i < length path \<and> path ! i \<noteq> SLASH then canon_scan path start (Suc i)
      else if bad_component path start i then False
      else if i \<ge> length path then True
      else canon_scan path (Suc i) (Suc i))"
  by pat_completeness auto
termination
  by (relation "measure (\<lambda>(path, start, i). Suc HM_PATH_MAX - i)") auto

declare canon_scan.simps [simp del]

lemma canon_scan_comp:
  "start \<le> i \<Longrightarrow> i \<le> length path \<Longrightarrow>
   canon_scan path start i \<longleftrightarrow>
     length path \<le> HM_PATH_MAX \<and> comp_scan (take (i - start) (drop start path)) (drop i path)"
proof (induction path start i rule: canon_scan.induct)
  case (1 path start i)
  note bad = bad_component_iff [OF "1.prems"]
  show ?case
  proof (cases "i > HM_PATH_MAX")
    case True
    with "1.prems" show ?thesis by (simp add: canon_scan.simps [of path start i])
  next
    case le: False
    show ?thesis
    proof (cases "i < length path")
      case False
      with "1.prems" have i: "i = length path" by simp
      with le bad show ?thesis by (subst canon_scan.simps) simp
    next
      case lt: True
      then have d: "drop i path = path ! i # drop (Suc i) path" by (simp add: Cons_nth_drop_Suc)
      have t: "take (Suc i - start) (drop start path) = take (i - start) (drop start path) @ [path ! i]"
        using lt "1.prems"(1) by (simp add: Suc_diff_le take_Suc_conv_app_nth)
      show ?thesis
      proof (cases "path ! i = SLASH")
        case False
        have "canon_scan path start (Suc i) \<longleftrightarrow>
            length path \<le> HM_PATH_MAX \<and>
            comp_scan (take (Suc i - start) (drop start path)) (drop (Suc i) path)"
          by (rule "1.IH"(1)) (use le lt False "1.prems" in auto)
        with False le lt show ?thesis by (simp add: canon_scan.simps [of path start i] d t)
      next
        case True
        show ?thesis
        proof (cases "bad_component path start i")
          case True
          with \<open>path ! i = SLASH\<close> le bad show ?thesis
            by (simp add: canon_scan.simps [of path start i] d)
        next
          case False
          have "canon_scan path (Suc i) (Suc i) \<longleftrightarrow>
              length path \<le> HM_PATH_MAX \<and>
              comp_scan (take (Suc i - Suc i) (drop (Suc i) path)) (drop (Suc i) path)"
            by (rule "1.IH"(2)) (use le lt True False in auto)
          with True False le lt bad show ?thesis by (simp add: canon_scan.simps [of path start i] d)
        qed
      qed
    qed
  qed
qed

definition open_source :: "bool \<Rightarrow> bool \<Rightarrow> string \<Rightarrow> bool \<times> bool" where
  "open_source openat2_ok open_ok path =
     (if path \<noteq> [] \<and> path ! 0 = SLASH \<and> canon_scan path 1 1 \<and> openat2_ok then (True, True)
      else (open_ok, False))"

lemma canonical_only_if_lexical:
  assumes "snd (open_source openat2_ok open_ok path)"
  shows "\<exists>rest. path = SLASH # rest \<and> length path \<le> HM_PATH_MAX \<and>
           list_all safe_component (split_on SLASH rest) \<and> openat2_ok"
proof -
  from assms obtain rest where "path = SLASH # rest" "canon_scan path 1 1" "openat2_ok"
    by (cases path) (auto simp: open_source_def split: if_splits)
  then show ?thesis
    using canon_scan_comp [of 1 1 path] by (simp add: comp_scan_components)
qed

text \<open>
  \<^verbatim>\<open>hm_read_all\<close>: the read loop over the rest of the file, the kernel choosing how much each call
  transfers (a used-up schedule transfers all that fits). A short count of 0 is end of file.
\<close>

datatype input_error = CannotOpen | ReadFailed | InputTooLarge

function read_loop :: "nat \<Rightarrow> read_choice list \<Rightarrow> string \<Rightarrow> string \<Rightarrow> input_error + string" where
  "read_loop cap sched data buf =
     (case kernel_read sched (cap - length buf) data of
        (RFail, r) \<Rightarrow> Inl ReadFailed
      | (RIntr, r) \<Rightarrow> read_loop cap r data buf
      | (RGot n, r) \<Rightarrow>
          (if n = 0 then Inr buf
           else if length buf + n = cap then Inl InputTooLarge
           else read_loop cap r (drop n data) (buf @ take n data)))"
  by pat_completeness auto
termination
  by (relation "measure (\<lambda>(cap, sched, data, buf). length sched + length data)")
     (auto dest: kernel_read_intr [OF sym] kernel_read_got [OF sym])

declare read_loop.simps [simp del]

lemma read_loop_correct:
  "RdErr \<notin> set sched \<Longrightarrow> length buf < cap \<Longrightarrow>
   read_loop cap sched data buf =
     (if length buf + length data < cap then Inr (buf @ data) else Inl InputTooLarge)"
proof (induction cap sched data buf rule: read_loop.induct)
  case (1 cap sched data buf)
  obtain res r where k: "kernel_read sched (cap - length buf) data = (res, r)" by fastforce
  note ok = kernel_read_no_err [OF k "1.prems"(1)]
  show ?case
  proof (cases res)
    case RIntr
    with 1 k ok show ?thesis by (simp add: read_loop.simps [of cap sched])
  next
    case RFail
    with ok show ?thesis by simp
  next
    case (RGot n)
    note n = kernel_read_got [OF k [unfolded RGot]]
    show ?thesis
    proof (cases "n = 0 \<or> length buf + n = cap")
      case True
      with RGot k n "1.prems"(2) show ?thesis by (auto simp: read_loop.simps [of cap sched])
    next
      case False
      have "read_loop cap r (drop n data) (buf @ take n data) =
          (if length (buf @ take n data) + length (drop n data) < cap
           then Inr ((buf @ take n data) @ drop n data) else Inl InputTooLarge)"
        by (rule "1.IH"(1) [OF k [symmetric] RGot]) (use False n ok "1.prems"(2) in auto)
      with RGot k n False show ?thesis by (simp add: read_loop.simps [of cap sched])
    qed
  qed
qed

record input_os =
  os_openat2_ok :: bool
  os_open_ok :: bool
  os_reads :: "read_choice list"
  os_file :: string

text \<open>The bytes, whether a descriptor is kept open for the caller, and \<open>*canonical\<close>.\<close>

definition hm_read_all :: "input_os \<Rightarrow> string \<Rightarrow> nat \<Rightarrow> input_error + string \<times> bool \<times> bool" where
  "hm_read_all os path cap =
     (if path \<noteq> ''-'' then
        (let (opened, canonical) = open_source (os_openat2_ok os) (os_open_ok os) path
         in if \<not> opened then Inl CannotOpen
            else (case read_loop cap (os_reads os) (os_file os) [] of
                Inl e \<Rightarrow> Inl e
              | Inr buf \<Rightarrow> Inr (buf, True, canonical)))
      else (case read_loop cap (os_reads os) (os_file os) [] of
          Inl e \<Rightarrow> Inl e
        | Inr buf \<Rightarrow> Inr (buf, False, False)))"

section \<open>Properties\<close>

text \<open>
  C31: The formatter behind every diagnostic prints what the format and its arguments say, cut off
  at the capacity of the buffer and nowhere else: numbers in standard decimal (the most negative
  \<open>long\<close> included), strings and slices byte for byte.
\<close>
theorem vformat_prints_reference:
  assumes "vformat_ref fmt args = Some t" "list_all long_arg_ok args"
  shows "hm_vformat cap fmt args = Some (take cap t)"
  unfolding hm_vformat_def using vformat_loop_ref [OF assms, of "[]" cap] by simp

theorem vformat_prints_reference_witness:
  "hm_vformat 12 ''%s is %d%c'' [AStr (Some ''x''), ALong (- 9223372036854775808), AChar CHR ''!'']
     = Some (take 12 (''x is -'' @ dec 9223372036854775808 @ ''!''))"
  by (subst vformat_prints_reference
      [where t = "''x is -'' @ dec 9223372036854775808 @ ''!''"])
    (simp_all add: conv_ref_def long_arg_ok_def)

text \<open>
  C32: Reading an input takes the whole file whatever chunks the kernel hands out and however often
  it interrupts, provided the file is shorter than the buffer; a file of the buffer's size or more
  is refused as too large, never truncated.
\<close>
theorem read_all_whole_or_refused:
  assumes "RdErr \<notin> set (os_reads os)" "0 < cap" "os_open_ok os" "path \<noteq> ''-''"
  shows "hm_read_all os path cap =
           (if length (os_file os) < cap
            then Inr (os_file os, True, snd (open_source (os_openat2_ok os) True path))
            else Inl InputTooLarge)"
proof -
  have "fst (open_source (os_openat2_ok os) (os_open_ok os) path)"
    using assms(3) by (simp add: open_source_def)
  then show ?thesis
    using assms read_loop_correct [of "os_reads os" "[]" cap "os_file os"]
    by (simp add: hm_read_all_def split_beta)
qed

theorem read_all_whole_or_refused_witness:
  "hm_read_all \<lparr>os_openat2_ok = False, os_open_ok = True, os_reads = [RdIntr, RdUpTo 1, RdIntr, RdUpTo 0],
      os_file = ''abcd''\<rparr> ''p.siml'' 5 = Inr (''abcd'', True, False)"
  by (subst read_all_whole_or_refused) (simp_all add: open_source_def)

end
