(* ===== verification/HM_Output.thy ===== *)
theory HM_Output
  imports HM_Util
begin

text \<open>
  The output half of \<^verbatim>\<open>src/util.c\<close>. The static variables \<open>out_buf\<close>/\<open>out_len\<close>, \<open>out_fd\<close>,
  \<open>out_prefix_stderr\<close>, \<open>err_prefix_lines\<close> and \<open>stderr_line_start\<close> are the record
  \<open>out_state\<close>; \<open>written\<close> is the trace of bytes the kernel accepted, each with its
  descriptor, and \<open>wr_sched\<close> what \<open>write(2)\<close> will do at the next calls (a used-up schedule
  accepts everything). \<open>out_view\<close> is the abstract trace: what has been written plus what the
  buffer still owes.
\<close>

definition HM_OUT_CAP :: nat where [hm_limits]: "HM_OUT_CAP = 4096"
definition HM_LINE_CAP :: nat where [hm_limits]: "HM_LINE_CAP = 4096"

definition stderr_prefix :: string where
  "stderr_prefix = ''hacman: ''"

datatype write_choice = WrUpTo nat | WrIntr | WrErr

record out_state =
  out_buf :: string
  out_fd :: int
  out_prefix_stderr :: bool
  err_prefix_lines :: bool
  stderr_line_start :: bool
  written :: "(int \<times> char) list"
  wr_sched :: "write_choice list"

definition out_init :: out_state where
  "out_init = \<lparr>out_buf = [], out_fd = 1, out_prefix_stderr = False, err_prefix_lines = False,
     stderr_line_start = True, written = [], wr_sched = []\<rparr>"

section \<open>Writing\<close>

text \<open>
  \<^verbatim>\<open>hm_write_all\<close>: the bytes accepted and the rest of the schedule. \<open>EINTR\<close> retries, another
  error gives up silently, a short write continues behind the accepted part.
\<close>

function write_all :: "write_choice list \<Rightarrow> string \<Rightarrow> string \<times> write_choice list" where
  "write_all sched s =
     (if s = [] then ([], sched)
      else (case sched of
          [] \<Rightarrow> (s, [])
        | WrUpTo n # r \<Rightarrow>
            (let (acc, r') = write_all r (drop (Suc n) s) in (take (Suc n) s @ acc, r'))
        | WrIntr # r \<Rightarrow> write_all r s
        | WrErr # r \<Rightarrow> ([], r)))"
  by pat_completeness auto
termination
  by (relation "measure (\<lambda>(sched, s). length sched)") auto

declare write_all.simps [simp del]

lemma write_all_simps [simp]:
  "write_all sched [] = ([], sched)"
  "write_all [] s = (s, [])"
  "s \<noteq> [] \<Longrightarrow> write_all (WrUpTo n # r) s =
     (take (Suc n) s @ fst (write_all r (drop (Suc n) s)), snd (write_all r (drop (Suc n) s)))"
  "s \<noteq> [] \<Longrightarrow> write_all (WrIntr # r) s = write_all r s"
  "s \<noteq> [] \<Longrightarrow> write_all (WrErr # r) s = ([], r)"
  by (subst write_all.simps, simp add: case_prod_beta Let_def)+

lemma write_all_accepts:
  "WrErr \<notin> set sched \<Longrightarrow> fst (write_all sched s) = s \<and> WrErr \<notin> set (snd (write_all sched s))"
proof (induction sched arbitrary: s)
  case Nil
  then show ?case by simp
next
  case (Cons w r)
  show ?case
  proof (cases "s = []")
    case True
    with Cons.prems show ?thesis by simp
  next
    case False
    with Cons show ?thesis by (cases w) auto
  qed
qed

definition hm_write_all :: "int \<Rightarrow> string \<Rightarrow> out_state \<Rightarrow> out_state" where
  "hm_write_all fd s st =
     (let (acc, r) = write_all (wr_sched st) s
      in st\<lparr>written := written st @ map (Pair fd) acc, wr_sched := r\<rparr>)"

definition no_wr_err :: "out_state \<Rightarrow> bool" where
  "no_wr_err st \<longleftrightarrow> WrErr \<notin> set (wr_sched st)"

lemma hm_write_all_fields [simp]:
  "out_buf (hm_write_all fd s st) = out_buf st"
  "out_fd (hm_write_all fd s st) = out_fd st"
  "out_prefix_stderr (hm_write_all fd s st) = out_prefix_stderr st"
  "err_prefix_lines (hm_write_all fd s st) = err_prefix_lines st"
  "stderr_line_start (hm_write_all fd s st) = stderr_line_start st"
  by (simp_all add: hm_write_all_def case_prod_beta Let_def)

lemma hm_write_all_written [simp]:
  "no_wr_err st \<Longrightarrow> written (hm_write_all fd s st) = written st @ map (Pair fd) s"
  by (simp add: hm_write_all_def no_wr_err_def case_prod_beta Let_def write_all_accepts)

lemma no_wr_err_write_all [simp]: "no_wr_err st \<Longrightarrow> no_wr_err (hm_write_all fd s st)"
  by (simp add: hm_write_all_def no_wr_err_def case_prod_beta Let_def write_all_accepts)

lemma no_wr_err_update [simp]:
  "no_wr_err (st\<lparr>out_buf := b\<rparr>) = no_wr_err st"
  "no_wr_err (st\<lparr>out_fd := f\<rparr>) = no_wr_err st"
  "no_wr_err (st\<lparr>out_prefix_stderr := p\<rparr>) = no_wr_err st"
  "no_wr_err (st\<lparr>err_prefix_lines := p\<rparr>) = no_wr_err st"
  "no_wr_err (st\<lparr>stderr_line_start := p\<rparr>) = no_wr_err st"
  by (simp_all add: no_wr_err_def)

section \<open>Line prefixes on stderr\<close>

text \<open>\<open>part\<close> of the loop body: through the next LF, or everything that is left.\<close>

definition line_part :: "string \<Rightarrow> nat" where
  "line_part s = (case memchr LF s of Some i \<Rightarrow> Suc i | None \<Rightarrow> length s)"

lemma line_part_pos: "s \<noteq> [] \<Longrightarrow> 0 < line_part s"
  by (auto simp: line_part_def split: option.splits)

definition begin_line :: "string \<Rightarrow> bool \<Rightarrow> out_state \<Rightarrow> out_state" where
  "begin_line s keep st =
     (if stderr_line_start st then
        (if \<not> keep \<or> length s < length stderr_prefix \<or> take (length stderr_prefix) s \<noteq> stderr_prefix
         then hm_write_all 2 stderr_prefix st else st)\<lparr>stderr_line_start := False\<rparr>
      else st)"

function hm_write_prefixed_stderr :: "string \<Rightarrow> bool \<Rightarrow> out_state \<Rightarrow> out_state" where
  "hm_write_prefixed_stderr s keep st =
     (if s = [] then st
      else (let st1 = begin_line s keep st;
                part = line_part s;
                st2 = hm_write_all 2 (take part s) st1;
                st3 = (if s ! (part - 1) = LF then st2\<lparr>stderr_line_start := True\<rparr> else st2)
            in hm_write_prefixed_stderr (drop part s) keep st3))"
  by pat_completeness auto
termination
  by (relation "measure (\<lambda>(s, keep, st). length s)") (auto simp: line_part_pos)

declare hm_write_prefixed_stderr.simps [simp del]

lemma write_prefixed_Nil [simp]: "hm_write_prefixed_stderr [] keep st = st"
  by (simp add: hm_write_prefixed_stderr.simps)

text \<open>The reference: byte by byte, with the prefix before the first byte of every line.\<close>

fun prefixed :: "bool \<Rightarrow> string \<Rightarrow> string" where
  "prefixed start [] = []"
| "prefixed start (c # s) = (if start then stderr_prefix else []) @ c # prefixed (c = LF) s"

definition ends_line :: "bool \<Rightarrow> string \<Rightarrow> bool" where
  "ends_line start s = (if s = [] then start else last s = LF)"

lemma prefixed_append: "prefixed b (s @ t) = prefixed b s @ prefixed (ends_line b s) t"
  by (induction s arbitrary: b) (auto simp: ends_line_def)

lemma ends_line_append: "ends_line b (s @ t) = ends_line (ends_line b s) t"
  by (auto simp: ends_line_def)

lemma prefixed_no_LF: "LF \<notin> set s \<Longrightarrow> prefixed False s = s"
  by (induction s) auto

lemma prefixed_line:
  assumes "s \<noteq> []"
  shows "prefixed b (take (line_part s) s) = (if b then stderr_prefix else []) @ take (line_part s) s"
    and "ends_line b (take (line_part s) s) \<longleftrightarrow> s ! (line_part s - 1) = LF"
proof -
  show "prefixed b (take (line_part s) s) = (if b then stderr_prefix else []) @ take (line_part s) s"
  proof (cases "memchr LF s")
    case None
    then have "LF \<notin> set s" by (simp add: memchr_None)
    with None assms show ?thesis by (cases s) (auto simp: line_part_def prefixed_no_LF)
  next
    case (Some i)
    then have i: "i < length s" "LF \<notin> set (take i s)" "s ! i = LF"
      using memchr_SomeD [OF Some] by auto
    then have "take (Suc i) s = take i s @ [LF]" by (simp add: take_Suc_conv_app_nth)
    moreover have "prefixed b (take i s @ [LF]) = (if b then stderr_prefix else []) @ take i s @ [LF]"
    proof (cases "take i s")
      case Nil
      show ?thesis unfolding Nil by simp
    next
      case (Cons c t)
      with i(2) have "c \<noteq> LF" "LF \<notin> set t" by auto
      moreover from this have "t \<noteq> [] \<Longrightarrow> last t \<noteq> LF" by (metis last_in_set)
      ultimately show ?thesis by (auto simp: Cons prefixed_append prefixed_no_LF ends_line_def)
    qed
    ultimately show ?thesis using Some by (simp add: line_part_def)
  qed
  show "ends_line b (take (line_part s) s) \<longleftrightarrow> s ! (line_part s - 1) = LF"
  proof (cases "memchr LF s")
    case None
    with assms show ?thesis by (simp add: line_part_def ends_line_def last_conv_nth)
  next
    case (Some i)
    with memchr_SomeD [OF Some] show ?thesis
      by (auto simp: line_part_def ends_line_def last_conv_nth)
  qed
qed

lemma begin_line_fields [simp]:
  "out_buf (begin_line s keep st) = out_buf st"
  "out_fd (begin_line s keep st) = out_fd st"
  "out_prefix_stderr (begin_line s keep st) = out_prefix_stderr st"
  "err_prefix_lines (begin_line s keep st) = err_prefix_lines st"
  "stderr_line_start (begin_line s keep st) = False"
  by (simp_all add: begin_line_def)

lemma begin_line_no_err [simp]: "no_wr_err st \<Longrightarrow> no_wr_err (begin_line s keep st)"
  by (simp add: begin_line_def)

lemma begin_line_written:
  "no_wr_err st \<Longrightarrow>
   written (begin_line s False st) = written st @ map (Pair 2) (if stderr_line_start st then stderr_prefix else [])"
  by (simp add: begin_line_def)

text \<open>The loop computes the reference, whatever the kernel's write sizes.\<close>

lemma write_prefixed_spec:
  assumes "no_wr_err st"
  shows "written (hm_write_prefixed_stderr s False st) =
           written st @ map (Pair 2) (prefixed (stderr_line_start st) s) \<and>
         stderr_line_start (hm_write_prefixed_stderr s False st) = ends_line (stderr_line_start st) s \<and>
         no_wr_err (hm_write_prefixed_stderr s False st) \<and>
         out_buf (hm_write_prefixed_stderr s False st) = out_buf st \<and>
         out_fd (hm_write_prefixed_stderr s False st) = out_fd st \<and>
         out_prefix_stderr (hm_write_prefixed_stderr s False st) = out_prefix_stderr st \<and>
         err_prefix_lines (hm_write_prefixed_stderr s False st) = err_prefix_lines st"
  using assms
proof (induction s False st rule: hm_write_prefixed_stderr.induct)
  case (1 s st)
  show ?case
  proof (cases "s = []")
    case True
    then show ?thesis using "1.prems" by (simp add: ends_line_def)
  next
    case False
    define p where "p = line_part s"
    define st3 where "st3 = (let st2 = hm_write_all 2 (take p s) (begin_line s False st)
      in if s ! (p - 1) = LF then st2\<lparr>stderr_line_start := True\<rparr> else st2)"
    have step: "hm_write_prefixed_stderr s False st = hm_write_prefixed_stderr (drop p s) False st3"
      using False by (simp add: hm_write_prefixed_stderr.simps [of s] p_def st3_def Let_def)
    have f: "no_wr_err st3" "out_buf st3 = out_buf st" "out_fd st3 = out_fd st"
      "out_prefix_stderr st3 = out_prefix_stderr st" "err_prefix_lines st3 = err_prefix_lines st"
      using "1.prems" by (auto simp: st3_def Let_def)
    have ls: "stderr_line_start st3 = ends_line (stderr_line_start st) (take p s)"
      using prefixed_line(2) [OF False, of "stderr_line_start st"] by (simp add: st3_def Let_def p_def)
    have w: "written st3 = written st @ map (Pair 2) (prefixed (stderr_line_start st) (take p s))"
      using "1.prems" prefixed_line(1) [OF False, of "stderr_line_start st"]
      by (simp add: st3_def Let_def p_def begin_line_written)
    have split: "prefixed b s = prefixed b (take p s) @ prefixed (ends_line b (take p s)) (drop p s)"
      "ends_line b s = ends_line (ends_line b (take p s)) (drop p s)" for b
      by (simp_all add: prefixed_append [symmetric] ends_line_append [symmetric])
    show ?thesis
      using "1.hyps" [OF False refl refl refl refl] f ls w split
      unfolding step by (simp add: p_def st3_def Let_def)
  qed
qed

section \<open>The public operations\<close>

definition hm_out_flush :: "out_state \<Rightarrow> out_state" where
  "hm_out_flush st =
     (if length (out_buf st) > 0 then
        (if out_prefix_stderr st then hm_write_prefixed_stderr (out_buf st) False st
         else hm_write_all (out_fd st) (out_buf st) st)\<lparr>out_buf := []\<rparr>
      else st)"

definition hm_out_target :: "int \<Rightarrow> out_state \<Rightarrow> out_state" where
  "hm_out_target fd st =
     (hm_out_flush st)\<lparr>out_fd := fd, out_prefix_stderr := (fd = 2), stderr_line_start := True\<rparr>"

definition hm_err_bytes :: "string \<Rightarrow> out_state \<Rightarrow> out_state" where
  "hm_err_bytes s st = hm_write_prefixed_stderr s True (hm_out_flush st)"

definition hm_err_stream_end :: "out_state \<Rightarrow> out_state" where
  "hm_err_stream_end st =
     (if \<not> stderr_line_start st then (hm_write_all 2 [LF] st)\<lparr>stderr_line_start := True\<rparr> else st)"

definition hm_err_prefix :: "out_state \<Rightarrow> out_state" where
  "hm_err_prefix st = st\<lparr>err_prefix_lines := True\<rparr>"

text \<open>\<open>hm_out\<close> and \<open>hm_err\<close>; ill-typed arguments are undefined behaviour, \<open>None\<close>.\<close>

definition hm_out_line :: "string \<Rightarrow> out_state \<Rightarrow> out_state" where
  "hm_out_line line st =
     (let n = length line;
          st1 = (if n > HM_OUT_CAP - length (out_buf st) then hm_out_flush st else st)
      in if n > HM_OUT_CAP then
           (if out_prefix_stderr st1 then hm_write_prefixed_stderr line False st1
            else hm_write_all (out_fd st1) line st1)
         else st1\<lparr>out_buf := out_buf st1 @ line\<rparr>)"

definition hm_out :: "string \<Rightarrow> fmt_arg list \<Rightarrow> out_state \<Rightarrow> out_state option" where
  "hm_out fmt args st =
     (case hm_vformat HM_LINE_CAP fmt args of
        None \<Rightarrow> None
      | Some line \<Rightarrow> Some (hm_out_line line st))"

definition hm_err_line :: "string \<Rightarrow> out_state \<Rightarrow> out_state" where
  "hm_err_line line st =
     (let st1 = hm_out_flush st
      in if err_prefix_lines st1 then hm_write_prefixed_stderr line True (hm_err_stream_end st1)
         else hm_write_all 2 line st1)"

definition hm_err :: "string \<Rightarrow> fmt_arg list \<Rightarrow> out_state \<Rightarrow> out_state option" where
  "hm_err fmt args st =
     (case hm_vformat HM_LINE_CAP fmt args of
        None \<Rightarrow> None
      | Some line \<Rightarrow> Some (hm_err_line line st))"

section \<open>The abstract trace\<close>

text \<open>
  What the descriptors will have received once the buffer is flushed, and the line position
  stderr is then in. The buffered, prefixed, flush-when-full implementation is a refinement of
  "append the line to the trace".
\<close>

definition render :: "out_state \<Rightarrow> string \<Rightarrow> (int \<times> char) list" where
  "render st s =
     (if out_prefix_stderr st then map (Pair 2) (prefixed (stderr_line_start st) s)
      else map (Pair (out_fd st)) s)"

definition out_view :: "out_state \<Rightarrow> (int \<times> char) list" where
  "out_view st = written st @ render st (out_buf st)"

definition view_line_start :: "out_state \<Rightarrow> bool" where
  "view_line_start st =
     (if out_prefix_stderr st then ends_line (stderr_line_start st) (out_buf st)
      else stderr_line_start st)"

lemma prefixed_Nil_ends [simp]: "ends_line b [] = b"
  by (simp add: ends_line_def)

lemma flush_spec:
  assumes "no_wr_err st"
  shows "written (hm_out_flush st) = out_view st" "out_buf (hm_out_flush st) = []"
    "stderr_line_start (hm_out_flush st) = view_line_start st" "no_wr_err (hm_out_flush st)"
    "out_fd (hm_out_flush st) = out_fd st" "out_prefix_stderr (hm_out_flush st) = out_prefix_stderr st"
    "err_prefix_lines (hm_out_flush st) = err_prefix_lines st"
  using write_prefixed_spec [OF assms, of "out_buf st"] assms
  by (auto simp: hm_out_flush_def out_view_def render_def view_line_start_def)

lemma flush_view: "no_wr_err st \<Longrightarrow> out_view (hm_out_flush st) = out_view st"
  by (simp add: flush_spec out_view_def [of "hm_out_flush st"] render_def)

definition buffer_fits :: "out_state \<Rightarrow> bool" where
  "buffer_fits st \<longleftrightarrow> length (out_buf st) \<le> HM_OUT_CAP"

lemma hm_out_line_view:
  assumes "no_wr_err st" "length line \<le> HM_OUT_CAP"
  shows "out_view (hm_out_line line st) =
           out_view st @ (if out_prefix_stderr st then map (Pair 2) (prefixed (view_line_start st) line)
                          else map (Pair (out_fd st)) line)"
proof (cases "length line > HM_OUT_CAP - length (out_buf st)")
  case True
  with assms show ?thesis
    by (simp add: hm_out_line_def Let_def flush_spec out_view_def [of "_\<lparr>out_buf := _\<rparr>"] render_def)
next
  case False
  with assms show ?thesis
    by (auto simp: hm_out_line_def Let_def out_view_def render_def view_line_start_def prefixed_append)
qed

lemma hm_out_line_fits:
  assumes "no_wr_err st" "length line \<le> HM_OUT_CAP" "buffer_fits st"
  shows "buffer_fits (hm_out_line line st)"
  using assms by (auto simp: hm_out_line_def Let_def buffer_fits_def flush_spec)

lemma hm_err_line_order:
  assumes "no_wr_err st" "\<not> err_prefix_lines st"
  shows "written (hm_err_line line st) = out_view st @ map (Pair 2) line"
  using assms by (simp add: hm_err_line_def Let_def flush_spec)

lemma hm_out_line_state:
  assumes "no_wr_err st" "length line \<le> HM_OUT_CAP"
  shows "no_wr_err (hm_out_line line st)" "out_fd (hm_out_line line st) = out_fd st"
    "out_prefix_stderr (hm_out_line line st) = out_prefix_stderr st"
    "view_line_start (hm_out_line line st) =
       (if out_prefix_stderr st then ends_line (view_line_start st) line else view_line_start st)"
  using assms flush_spec [OF assms(1)]
  by (auto simp: hm_out_line_def Let_def view_line_start_def ends_line_append)

text \<open>A flush pays out the lines in order.\<close>

lemma fold_out_lines:
  assumes "no_wr_err st" "list_all (\<lambda>l. length l \<le> HM_OUT_CAP) ls"
  shows "written (hm_out_flush (fold hm_out_line ls st)) =
           out_view st @ (if out_prefix_stderr st then map (Pair 2) (prefixed (view_line_start st) (concat ls))
                          else map (Pair (out_fd st)) (concat ls))"
  using assms
proof (induction ls arbitrary: st)
  case Nil
  then show ?case by (simp add: flush_spec)
next
  case (Cons l ls)
  then have l: "length l \<le> HM_OUT_CAP" by simp
  from Cons.IH [of "hm_out_line l st"] Cons.prems show ?case
    by (simp add: hm_out_line_state [OF Cons.prems(1) l] hm_out_line_view [OF Cons.prems(1) l] prefixed_append)
qed

section \<open>Properties\<close>

text \<open>
  C30: Output is buffered, prefixed on stderr and written in whatever pieces the kernel accepts, and
  none of that is visible: after a flush the descriptor has received what was there before and then
  the lines in order, each line of stderr output behind one \<open>hacman: \<close>, nothing lost, doubled or
  reordered.
\<close>
theorem output_trace_is_the_lines:
  assumes "no_wr_err st" "list_all (\<lambda>l. length l \<le> HM_OUT_CAP) ls"
  shows "written (hm_out_flush (fold hm_out_line ls st)) =
           out_view st @ (if out_prefix_stderr st then map (Pair 2) (prefixed (view_line_start st) (concat ls))
                          else map (Pair (out_fd st)) (concat ls))"
  using assms by (rule fold_out_lines)

theorem output_trace_is_the_lines_witness:
  "written (hm_out_flush (fold hm_out_line [''a'' @ [LF], ''b'']
      (hm_out_target 2 (out_init\<lparr>wr_sched := [WrUpTo 0, WrIntr, WrUpTo 3]\<rparr>)))) =
     map (Pair 2) (''hacman: a'' @ [LF] @ ''hacman: b'')"
  by (subst output_trace_is_the_lines)
    (simp_all add: no_wr_err_def hm_out_target_def hm_out_flush_def out_init_def hm_limits out_view_def
      render_def view_line_start_def ends_line_def stderr_prefix_def)

end
