(* ===== verification/HM_Env.thy ===== *)
theory HM_Env
  imports HM_Util
begin

text \<open>
  \<^verbatim>\<open>src/env.c\<close>: one scan of \<open>environ\<close> for the four startup settings, and the \<open>getenv\<close> the
  template expansion uses for every other variable. \<open>environ\<close> is the list of its C strings; it
  is never changed by this process, so the snapshot taken by the first call is a function of it.
\<close>

record hm_env =
  env_options :: "string option"
  env_debug :: "string option"
  env_cache :: "string option"
  env_home :: "string option"

definition env_none :: hm_env where
  "env_none = \<lparr>env_options = None, env_debug = None, env_cache = None, env_home = None\<rparr>"

text \<open>\<open>strncmp(s, lit, n) == 0\<close> for a literal of \<open>n\<close> bytes.\<close>

definition starts_with :: "string \<Rightarrow> string \<Rightarrow> bool" where
  "starts_with lit s \<longleftrightarrow> take (length lit) s = lit"

definition env_entry :: "string \<Rightarrow> hm_env \<Rightarrow> hm_env" where
  "env_entry name v =
     (if name = [] \<or> name ! 0 \<noteq> CHR ''H'' then v
      else if starts_with ''HACMAN'' name then
        (let suffix = drop 6 name
         in if suffix \<noteq> [] \<and> suffix ! 0 = CHR ''='' \<and> env_options v = None
            then v\<lparr>env_options := Some (drop 1 suffix)\<rparr>
            else if starts_with ''_DEBUG='' suffix \<and> env_debug v = None
            then v\<lparr>env_debug := Some (drop 7 suffix)\<rparr>
            else if starts_with ''_CACHE='' suffix \<and> env_cache v = None
            then v\<lparr>env_cache := Some (drop 7 suffix)\<rparr>
            else v)
      else if starts_with ''HOME='' name \<and> env_home v = None
      then v\<lparr>env_home := Some (drop 5 name)\<rparr>
      else v)"

fun env_scan :: "string list \<Rightarrow> hm_env \<Rightarrow> hm_env" where
  "env_scan [] v = v"
| "env_scan (e # es) v = env_scan es (env_entry e v)"

definition hm_env_get :: "string list \<Rightarrow> hm_env" where
  "hm_env_get environ = env_scan environ env_none"

text \<open>musl's \<open>getenv\<close>: the first exact match; a name that is empty or holds \<open>=\<close> has none.\<close>

fun first_entry :: "string \<Rightarrow> string list \<Rightarrow> string option" where
  "first_entry key [] = None"
| "first_entry key (e # es) =
     (if starts_with (key @ ''='') e then Some (drop (Suc (length key)) e) else first_entry key es)"

definition getenv :: "string list \<Rightarrow> string \<Rightarrow> string option" where
  "getenv environ key = (if key = [] \<or> CHR ''='' \<in> set key then None else first_entry key environ)"

section \<open>The scan agrees with getenv\<close>

lemma starts_with_Nil [simp]: "starts_with [] s"
  by (simp add: starts_with_def)

lemma starts_with_Cons: "starts_with (c # b) s \<longleftrightarrow> s \<noteq> [] \<and> s ! 0 = c \<and> starts_with b (drop 1 s)"
  by (cases s) (auto simp: starts_with_def)

lemma starts_with_append: "starts_with (a @ b) s \<longleftrightarrow> starts_with a s \<and> starts_with b (drop (length a) s)"
proof (induction a arbitrary: s)
  case Nil
  then show ?case by simp
next
  case (Cons c a)
  then show ?case by (cases s) (simp_all add: starts_with_Cons)
qed

lemma HACMAN_prefix:
  "starts_with ''HACMAN='' e \<longleftrightarrow> starts_with ''HACMAN'' e \<and> starts_with ''='' (drop 6 e)"
  "starts_with ''HACMAN_DEBUG='' e \<longleftrightarrow> starts_with ''HACMAN'' e \<and> starts_with ''_DEBUG='' (drop 6 e)"
  "starts_with ''HACMAN_CACHE='' e \<longleftrightarrow> starts_with ''HACMAN'' e \<and> starts_with ''_CACHE='' (drop 6 e)"
  using starts_with_append [of "''HACMAN''" "''=''" e]
    starts_with_append [of "''HACMAN''" "''_DEBUG=''" e]
    starts_with_append [of "''HACMAN''" "''_CACHE=''" e]
  by (simp_all add: numeral_eq_Suc)

lemma starts_withD: "starts_with a s \<Longrightarrow> \<exists>t. s = a @ t"
  unfolding starts_with_def by (metis append_take_drop_id)

lemma suffix_exclusive:
  "starts_with ''='' s \<Longrightarrow> \<not> starts_with ''_DEBUG='' s \<and> \<not> starts_with ''_CACHE='' s"
  "starts_with ''_DEBUG='' s \<Longrightarrow> \<not> starts_with ''_CACHE='' s"
  "starts_with ''='' s \<longleftrightarrow> s \<noteq> [] \<and> s ! 0 = CHR ''=''"
  by (simp_all add: starts_with_Cons)

lemma H_names:
  "starts_with ''HACMAN'' e \<Longrightarrow> e \<noteq> [] \<and> e ! 0 = CHR ''H'' \<and> \<not> starts_with ''HOME='' e"
  "starts_with ''HOME='' e \<Longrightarrow> e \<noteq> [] \<and> e ! 0 = CHR ''H''"
proof -
  assume "starts_with ''HACMAN'' e"
  then obtain t where t: "e = ''HACMAN'' @ t" by (auto dest: starts_withD)
  show "e \<noteq> [] \<and> e ! 0 = CHR ''H'' \<and> \<not> starts_with ''HOME='' e"
    unfolding t by (simp add: starts_with_def)
next
  assume "starts_with ''HOME='' e"
  then obtain t where "e = ''HOME='' @ t" by (auto dest: starts_withD)
  then show "e \<noteq> [] \<and> e ! 0 = CHR ''H''" by simp
qed

lemma env_entry_spec:
  "env_entry e v = v
     \<lparr>env_options := (if env_options v = None \<and> starts_with ''HACMAN='' e then Some (drop 7 e) else env_options v),
      env_debug := (if env_debug v = None \<and> starts_with ''HACMAN_DEBUG='' e then Some (drop 13 e) else env_debug v),
      env_cache := (if env_cache v = None \<and> starts_with ''HACMAN_CACHE='' e then Some (drop 13 e) else env_cache v),
      env_home := (if env_home v = None \<and> starts_with ''HOME='' e then Some (drop 5 e) else env_home v)\<rparr>"
proof (cases "starts_with ''HACMAN'' e")
  case True
  note [simp] = H_names(1) [OF True, THEN conjunct1] H_names(1) [OF True, THEN conjunct2, THEN conjunct1]
    H_names(1) [OF True, THEN conjunct2, THEN conjunct2]
  show ?thesis
    using True suffix_exclusive [of "drop 6 e"]
    by (cases v) (simp add: env_entry_def HACMAN_prefix Let_def)
next
  case False
  then show ?thesis
    using H_names(2) [of e] by (cases v) (auto simp: env_entry_def HACMAN_prefix)
qed

lemma env_scan_spec:
  "env_options (env_scan es v) = (case env_options v of None \<Rightarrow> first_entry ''HACMAN'' es | x \<Rightarrow> x)"
  "env_debug (env_scan es v) = (case env_debug v of None \<Rightarrow> first_entry ''HACMAN_DEBUG'' es | x \<Rightarrow> x)"
  "env_cache (env_scan es v) = (case env_cache v of None \<Rightarrow> first_entry ''HACMAN_CACHE'' es | x \<Rightarrow> x)"
  "env_home (env_scan es v) = (case env_home v of None \<Rightarrow> first_entry ''HOME'' es | x \<Rightarrow> x)"
  by (induction es arbitrary: v) (simp_all add: env_entry_spec numeral_eq_Suc split: option.splits)

lemma hm_env_get_getenv:
  "hm_env_get environ =
     \<lparr>env_options = getenv environ ''HACMAN'', env_debug = getenv environ ''HACMAN_DEBUG'',
      env_cache = getenv environ ''HACMAN_CACHE'', env_home = getenv environ ''HOME''\<rparr>"
  by (rule hm_env.equality) (simp_all add: hm_env_get_def env_scan_spec env_none_def getenv_def)

section \<open>Properties\<close>

text \<open>
  The single pass over the environment block, with its shortcut on the first letter and its
  shared \<open>HACMAN\<close> prefix, finds for each of its four variables exactly what a \<open>getenv\<close> of that
  name would find: the first entry of the name, and nothing when there is none.
\<close>
theorem env_scan_is_getenv:
  "hm_env_get environ =
     \<lparr>env_options = getenv environ ''HACMAN'', env_debug = getenv environ ''HACMAN_DEBUG'',
      env_cache = getenv environ ''HACMAN_CACHE'', env_home = getenv environ ''HOME''\<rparr>"
  by (rule hm_env_get_getenv)

end
