(* ===== verification/HM_Siml.thy ===== *)
theory HM_Siml
  imports HM_Prelude
begin

text \<open>
  The interface of the SIML pull parser (\<^verbatim>\<open>vendor/siml/siml.h\<close>) that \<^verbatim>\<open>src/config.c\<close> consumes: the
  event types and the event structure. A slice is its bytes; where the consumer does pointer
  arithmetic on \<open>value.ptr\<close> (block lines), \<open>ev_value_pos\<close> is its offset in the input buffer.
\<close>

datatype siml_event_type =
    SIML_EVENT_NONE
  | SIML_EVENT_STREAM_START
  | SIML_EVENT_DOCUMENT_START
  | SIML_EVENT_MAPPING_START
  | SIML_EVENT_SEQUENCE_START
  | SIML_EVENT_SCALAR
  | SIML_EVENT_BLOCK_SCALAR_START
  | SIML_EVENT_BLOCK_SCALAR_LINE
  | SIML_EVENT_BLOCK_SCALAR_END
  | SIML_EVENT_SEQUENCE_END
  | SIML_EVENT_MAPPING_END
  | SIML_EVENT_DOCUMENT_END
  | SIML_EVENT_STREAM_END
  | SIML_EVENT_SHEBANG
  | SIML_EVENT_COMMENT
  | SIML_EVENT_MAPPING_ENTRY_HEADER
  | SIML_EVENT_ERROR

record siml_event =
  ev_type :: siml_event_type
  ev_key :: string
  ev_value :: string
  ev_value_pos :: nat
  ev_line :: int
  ev_error_message :: "string option"

definition siml_ev :: "siml_event_type \<Rightarrow> string \<Rightarrow> string \<Rightarrow> nat \<Rightarrow> int \<Rightarrow> siml_event" where
  "siml_ev t k v pos line =
     \<lparr>ev_type = t, ev_key = k, ev_value = v, ev_value_pos = pos, ev_line = line,
      ev_error_message = None\<rparr>"

end
