(* ===== verification/HM_Project.thy ===== *)
theory HM_Project
  imports HM_Util "HOL-Library.Signed_Division"
begin

text \<open>
  The project structure of \<^verbatim>\<open>src/hacman.h\<close> and the two small value grammars of
  \<^verbatim>\<open>src/config.c\<close>: schedules and check schemes. A borrowed slice (\<open>hm_str\<close>) is its bytes; an array
  with a count is a list; a \<open>char\<close> buffer filled as a C string is that string.
\<close>

datatype hm_sched_kind = HM_SCHED_ALWAYS | HM_SCHED_EVERY | HM_SCHED_NEVER
datatype hm_project_kind = HM_KIND_URL | HM_KIND_COMMAND
datatype hm_check_kind = HM_CHECK_ETAG | HM_CHECK_HASH | HM_CHECK_VERSION
datatype hm_bin_choice = HM_BIN_SINGLE | HM_BIN_NAMED | HM_BIN_DEFAULT

record hm_embedded_file =
  ef_path :: string
  ef_content :: string
  ef_content_indent :: nat
  ef_line :: int

record hm_sandbox_write_dir =
  wd_source :: string
  wd_path :: string
  wd_line :: int

record hm_project =
  p_kind :: hm_project_kind
  p_name :: string
  p_url :: string
  p_command :: string
  p_check :: hm_check_kind
  p_sched_kind :: hm_sched_kind
  p_sched_interval :: int
  p_schedule_explicit :: bool
  p_sandboxed :: bool
  p_version_prefix :: string
  p_version_suffix :: string
  p_bin :: string
  p_bin_choice :: hm_bin_choice
  p_bin_name :: string
  p_bin_path :: string
  p_bin_cached :: bool
  p_install :: string
  p_install_indent :: nat
  p_line :: int
  p_files :: "hm_embedded_file list"
  p_write_dirs :: "hm_sandbox_write_dir list"
  p_bin_names :: "string list"

text \<open>What \<open>begin_project\<close> leaves: zeroed fields, then the defaults.\<close>

definition project_defaults :: "int \<Rightarrow> hm_project" where
  "project_defaults line =
     \<lparr>p_kind = HM_KIND_URL, p_name = [], p_url = [], p_command = [], p_check = HM_CHECK_ETAG,
      p_sched_kind = HM_SCHED_EVERY, p_sched_interval = 86400, p_schedule_explicit = False,
      p_sandboxed = True, p_version_prefix = [], p_version_suffix = [], p_bin = [],
      p_bin_choice = HM_BIN_SINGLE, p_bin_name = [], p_bin_path = [], p_bin_cached = False,
      p_install = [], p_install_indent = 0, p_line = line, p_files = [], p_write_dirs = [],
      p_bin_names = []\<rparr>"

section \<open>Check schemes\<close>

fun hm_check_name :: "hm_check_kind \<Rightarrow> string" where
  "hm_check_name HM_CHECK_HASH = ''hash''"
| "hm_check_name HM_CHECK_VERSION = ''version''"
| "hm_check_name HM_CHECK_ETAG = ''etag''"

definition parse_check :: "hm_project \<Rightarrow> string \<Rightarrow> hm_project option" where
  "parse_check p v =
     (if hm_str_eq v ''etag'' then Some (p\<lparr>p_check := HM_CHECK_ETAG\<rparr>)
      else if hm_str_eq v ''hash'' then Some (p\<lparr>p_check := HM_CHECK_HASH\<rparr>)
      else if hm_str_eq v ''version'' then Some (p\<lparr>p_check := HM_CHECK_VERSION\<rparr>)
      else None)"

section \<open>Schedules\<close>

text \<open>
  \<^verbatim>\<open>parse_schedule\<close>. The product \<open>(long)n * mul\<close> is signed arithmetic without a range check; where
  it overflows the C standard leaves the result open and the model takes the two's-complement
  wrap-around, as \<open>to_long\<close>.
\<close>

definition sched_unit :: "char \<Rightarrow> int option" where
  "sched_unit u =
     (if u = CHR ''s'' then Some 1
      else if u = CHR ''m'' then Some 60
      else if u = CHR ''h'' then Some 3600
      else if u = CHR ''d'' then Some 86400
      else if u = CHR ''w'' then Some 604800
      else None)"

definition parse_schedule :: "hm_project \<Rightarrow> string \<Rightarrow> hm_project option" where
  "parse_schedule p v =
     (if hm_str_eq v ''always'' then Some (p\<lparr>p_sched_kind := HM_SCHED_ALWAYS\<rparr>)
      else if hm_str_eq v ''never'' then Some (p\<lparr>p_sched_kind := HM_SCHED_NEVER\<rparr>)
      else
        (let p1 = p\<lparr>p_sched_kind := HM_SCHED_EVERY\<rparr>
         in if hm_str_eq v ''hourly'' then Some (p1\<lparr>p_sched_interval := 3600\<rparr>)
            else if hm_str_eq v ''daily'' then Some (p1\<lparr>p_sched_interval := 86400\<rparr>)
            else if hm_str_eq v ''weekly'' then Some (p1\<lparr>p_sched_interval := 604800\<rparr>)
            else if hm_str_eq v ''monthly'' then Some (p1\<lparr>p_sched_interval := 2592000\<rparr>)
            else if length v < 2 then None
            else (case sched_unit (v ! (length v - 1)) of
                None \<Rightarrow> None
              | Some mul \<Rightarrow>
                  (case hm_parse_ulong (take (length v - 1) v) of
                     None \<Rightarrow> None
                   | Some n \<Rightarrow>
                       if n = 0 then None
                       else Some (p1\<lparr>p_sched_interval := to_long (sint n * mul)\<rparr>)))))"

text \<open>\<^verbatim>\<open>hm_sched_describe\<close>: the largest unit that divides the interval, and C's signed digits.\<close>

fun long_digits_rev :: "nat \<Rightarrow> int \<Rightarrow> string" where
  "long_digits_rev 0 x = []"
| "long_digits_rev (Suc k) x =
     char_of (48 + x smod 10) # (if x sdiv 10 > 0 then long_digits_rev k (x sdiv 10) else [])"

fun describe_unit :: "(char \<times> int) list \<Rightarrow> int \<Rightarrow> int \<times> char" where
  "describe_unit [] v = (v, CHR ''s'')"
| "describe_unit ((u, secs) # us) v =
     (if v smod secs = 0 then (v sdiv secs, u) else describe_unit us v)"

definition sched_units :: "(char \<times> int) list" where
  "sched_units = [(CHR ''w'', 604800), (CHR ''d'', 86400), (CHR ''h'', 3600), (CHR ''m'', 60)]"

definition hm_sched_describe :: "hm_project \<Rightarrow> nat \<Rightarrow> string" where
  "hm_sched_describe p cap =
     (case p_sched_kind p of
        HM_SCHED_ALWAYS \<Rightarrow> copied cap ''always''
      | HM_SCHED_NEVER \<Rightarrow> copied cap ''never''
      | HM_SCHED_EVERY \<Rightarrow>
          (let (v, u) = describe_unit sched_units (p_sched_interval p)
           in take (cap - 1) (rev (long_digits_rev 24 v) @ [u])))"

section \<open>Round trip\<close>

lemma smod_nonneg: "0 \<le> (x::int) \<Longrightarrow> 0 < m \<Longrightarrow> x smod m = x mod m"
  by (cases "x = 0") (simp_all add: signed_modulo_int_def)

lemma sdiv_nonneg: "0 \<le> (x::int) \<Longrightarrow> 0 < m \<Longrightarrow> x sdiv m = x div m"
  by (cases "x = 0") (simp_all add: signed_divide_int_def)

lemma long_digits_rev_nat: "long_digits_rev k (int v) = digits_rev k v"
proof (induction k v rule: digits_rev.induct)
  case (1 v)
  then show ?case by simp
next
  case (2 k v)
  have "48 + int v mod 10 = int (48 + v mod 10)" by (simp add: zmod_int)
  then have c: "char_of (48 + int v mod 10) = digit_char (v mod 10)"
    unfolding digit_char_def by (simp only: char_of_nat)
  have d: "int v div 10 = int (v div 10)" by (simp add: zdiv_int)
  from 2 c d show ?case by (simp add: smod_nonneg sdiv_nonneg)
qed

lemma describe_unit_spec:
  assumes "describe_unit us i = (v, u)" "0 < i" "\<forall>(c, m) \<in> set us. 0 < m \<and> sched_unit c = Some m"
  shows "\<exists>m. sched_unit u = Some m \<and> v * m = i \<and> 0 < v \<and> 0 < m"
  using assms
proof (induction us i rule: describe_unit.induct)
  case (1 v)
  then show ?case by (auto simp: sched_unit_def)
next
  case (2 c m us i)
  then have m: "0 < m" "sched_unit c = Some m" by auto
  show ?case
  proof (cases "i smod m = 0")
    case True
    with 2 m have "i mod m = 0" "v = i div m" "u = c" by (auto simp: smod_nonneg sdiv_nonneg)
    then have "m dvd i" by (simp only: mod_eq_0_iff_dvd)
    with \<open>v = i div m\<close> have "v * m = i" by simp
    moreover from this have "0 < v" using m(1) \<open>0 < i\<close> by (metis zero_less_mult_pos2)
    ultimately show ?thesis using m \<open>u = c\<close> by blast
  next
    case False
    with 2 show ?thesis by auto
  qed
qed

lemma sched_units_ok: "\<forall>(c, m) \<in> set sched_units. 0 < m \<and> sched_unit c = Some m"
  by (simp add: sched_units_def sched_unit_def)

lemma hm_sched_describe_every:
  assumes "p_sched_kind p = HM_SCHED_EVERY" "0 < p_sched_interval p" "p_sched_interval p < 2 ^ 63"
  shows "\<exists>v u m. hm_sched_describe p 32 = dec v @ [u] \<and> sched_unit u = Some m \<and>
           int v * m = p_sched_interval p \<and> 0 < v \<and> v < 2 ^ 63"
proof -
  obtain v u where vu: "describe_unit sched_units (p_sched_interval p) = (v, u)" by fastforce
  from describe_unit_spec [OF vu assms(2) sched_units_ok] obtain m
    where m: "sched_unit u = Some m" "v * m = p_sched_interval p" "0 < v" "0 < m" by auto
  have "v * 1 \<le> v * m" using m(3,4) by (intro mult_left_mono) auto
  with m(2) assms(3) have lt: "v < 2 ^ 63" by linarith
  obtain n where n: "v = int n" using m(3) by (metis zero_less_imp_eq_int)
  from lt n have n63: "n < 2 ^ 63" by (simp add: zless_nat_eq_int_zless [symmetric]) 
  have "rev (long_digits_rev 24 v) = dec n"
    using n63 by (simp add: n long_digits_rev_nat digits24_dec)
  moreover have "length (dec n) \<le> 20" by (rule length_dec_20) (use n63 in simp)
  moreover from calculation have "length (long_digits_rev 24 v) \<le> 20" by (metis length_rev)
  ultimately have "hm_sched_describe p 32 = dec n @ [u]"
    using assms(1) vu by (simp add: hm_sched_describe_def)
  with m n n63 show ?thesis by auto
qed

lemma dec_keyword: "is_digit c = False \<Longrightarrow> dec v @ [u] \<noteq> c # cs"
  using dec_digits [of "hd (dec v)" v] by (cases "dec v") (auto simp: dec_nonempty)

lemma sint_of_nat_small: "v < 2 ^ 63 \<Longrightarrow> sint (of_nat v :: 64 word) = int v"
  by (simp add: signed_of_nat signed_take_bit_int_eq_self)

lemma parse_schedule_number:
  assumes "sched_unit u = Some m" "0 < v" "v < 2 ^ 63"
  shows "parse_schedule p (dec v @ [u]) =
           Some (p\<lparr>p_sched_kind := HM_SCHED_EVERY, p_sched_interval := to_long (int v * m)\<rparr>)"
proof -
  have letters: "\<not> is_digit (CHR ''a'')" "\<not> is_digit (CHR ''n'')" "\<not> is_digit (CHR ''h'')"
    "\<not> is_digit (CHR ''d'')" "\<not> is_digit (CHR ''w'')" "\<not> is_digit (CHR ''m'')"
    by (simp_all add: is_digit_def)
  note kw = dec_keyword [of "CHR ''a''" v u] dec_keyword [of "CHR ''n''" v u]
    dec_keyword [of "CHR ''h''" v u] dec_keyword [of "CHR ''d''" v u]
    dec_keyword [of "CHR ''w''" v u] dec_keyword [of "CHR ''m''" v u]
  have "(of_nat v :: ulong) \<noteq> 0"
    using assms(2,3) sint_of_nat_small [of v] by (metis of_nat_0_less_iff less_irrefl sint_0)
  moreover have "\<not> length (dec v @ [u]) < 2" by (cases "dec v") (use dec_nonempty in auto)
  ultimately show ?thesis
    using assms letters kw by (simp add: parse_schedule_def nth_append sint_of_nat_small)
qed

section \<open>Properties\<close>

text \<open>
  C29: A schedule interval survives being shown and read back: what \<open>hm_sched_describe\<close> renders for
  a positive interval, \<open>parse_schedule\<close> reads as a schedule of the same number of seconds.
\<close>
theorem schedule_round_trip:
  assumes "p_sched_kind p = HM_SCHED_EVERY" "0 < p_sched_interval p" "p_sched_interval p < 2 ^ 63"
  shows "parse_schedule q (hm_sched_describe p 32) =
           Some (q\<lparr>p_sched_kind := HM_SCHED_EVERY, p_sched_interval := p_sched_interval p\<rparr>)"
proof -
  from hm_sched_describe_every [OF assms] obtain v u m
    where d: "hm_sched_describe p 32 = dec v @ [u]" "sched_unit u = Some m"
      "int v * m = p_sched_interval p" "0 < v" "v < 2 ^ 63" by blast
  have "to_long (int v * m) = p_sched_interval p" using assms(2,3) d(3) by (simp add: to_long_id)
  with parse_schedule_number [OF d(2,4,5), of q] show ?thesis by (simp add: d(1))
qed

theorem schedule_round_trip_witness:
  "parse_schedule (project_defaults 7) (hm_sched_describe (project_defaults 1) 32) =
     Some ((project_defaults 7)\<lparr>p_sched_kind := HM_SCHED_EVERY, p_sched_interval := 86400\<rparr>)"
  using schedule_round_trip [of "project_defaults 1" "project_defaults 7"]
  by (simp add: project_defaults_def)

end
