(* ===== verification/HM_Paths.thy ===== *)
theory HM_Paths
  imports HM_Env
begin

text \<open>
  The path helpers of \<^verbatim>\<open>src/config.c\<close>: the check on paths that stay below a directory, the
  \<open>{{VAR}}\<close> expansion and the name a project file is invoked under.
\<close>

section \<open>Safe relative paths\<close>

function rel_loop :: "string \<Rightarrow> nat \<Rightarrow> nat \<Rightarrow> bool" where
  "rel_loop path start i =
     (if i > length path then True
      else if i = length path \<or> path ! i = SLASH then
        (if bad_component path start i then False else rel_loop path (Suc i) (Suc i))
      else rel_loop path start (Suc i))"
  by pat_completeness auto
termination
  by (relation "measure (\<lambda>(path, start, i). Suc (length path) - i)") auto

declare rel_loop.simps [simp del]

definition valid_relative_path :: "string \<Rightarrow> nat \<Rightarrow> bool" where
  "valid_relative_path path max_len =
     (if length path = 0 \<or> length path > max_len \<or> path ! 0 = SLASH \<or> path ! (length path - 1) = SLASH
      then False else rel_loop path 0 0)"

definition valid_file_path :: "string \<Rightarrow> bool" where
  "valid_file_path path = valid_relative_path path HM_FILE_PATH_MAX"

lemma rel_loop_comp:
  "start \<le> i \<Longrightarrow> i \<le> length path \<Longrightarrow>
   rel_loop path start i \<longleftrightarrow> comp_scan (take (i - start) (drop start path)) (drop i path)"
proof (induction path start i rule: rel_loop.induct)
  case (1 path start i)
  note bad = bad_component_iff [OF "1.prems"]
  show ?case
  proof (cases "i = length path")
    case True
    have "rel_loop path (Suc i) (Suc i)" by (subst rel_loop.simps) (simp add: True)
    with True bad show ?thesis by (subst rel_loop.simps) simp
  next
    case False
    with "1.prems" have lt: "i < length path" by simp
    then have d: "drop i path = path ! i # drop (Suc i) path" by (simp add: Cons_nth_drop_Suc)
    have t: "take (Suc i - start) (drop start path) = take (i - start) (drop start path) @ [path ! i]"
      using lt "1.prems"(1) by (simp add: Suc_diff_le take_Suc_conv_app_nth)
    show ?thesis
    proof (cases "path ! i = SLASH")
      case True
      show ?thesis
      proof (cases "bad_component path start i")
        case True
        with \<open>path ! i = SLASH\<close> lt bad show ?thesis by (subst rel_loop.simps) (simp add: d)
      next
        case False
        have "rel_loop path (Suc i) (Suc i) \<longleftrightarrow>
            comp_scan (take (Suc i - Suc i) (drop (Suc i) path)) (drop (Suc i) path)"
          by (rule "1.IH"(1)) (use lt True False in auto)
        with True False lt bad show ?thesis by (subst rel_loop.simps) (simp add: d)
      qed
    next
      case False
      have "rel_loop path start (Suc i) \<longleftrightarrow>
          comp_scan (take (Suc i - start) (drop start path)) (drop (Suc i) path)"
        by (rule "1.IH"(2)) (use lt False "1.prems" in auto)
      with False lt show ?thesis by (subst rel_loop.simps) (simp add: d t)
    qed
  qed
qed

text \<open>The specification: no component is empty, \<open>.\<close> or \<open>..\<close>.\<close>

lemma safe_components_ends:
  assumes "list_all safe_component (split_on SLASH path)"
  shows "path \<noteq> [] \<and> path ! 0 \<noteq> SLASH \<and> path ! (length path - 1) \<noteq> SLASH"
proof -
  have ne: "path \<noteq> []" using assms by (auto simp: safe_component_def)
  moreover from ne assms have "path ! 0 \<noteq> SLASH"
    by (cases path) (auto simp: safe_component_def split: if_splits)
  moreover have "last path \<noteq> SLASH"
  proof
    assume "last path = SLASH"
    with ne have "path = butlast path @ SLASH # []" by (metis append_butlast_last_id)
    moreover have "last (split_on SLASH (s @ [SLASH])) = [] \<and> tl (split_on SLASH (s @ [SLASH])) \<noteq> []" for s
      by (induction s) (auto split: list.splits if_splits)
    ultimately have "last (split_on SLASH path) = []" by metis
    then have "[] \<in> set (split_on SLASH path)" by (metis last_in_set split_on_nonempty)
    with assms show False by (auto simp: list_all_iff safe_component_def)
  qed
  ultimately show ?thesis by (simp add: last_conv_nth)
qed

lemma valid_relative_path_iff:
  "valid_relative_path path max_len \<longleftrightarrow>
     length path \<le> max_len \<and> list_all safe_component (split_on SLASH path)"
  using safe_components_ends [of path] rel_loop_comp [of 0 0 path]
  by (auto simp: valid_relative_path_def comp_scan_components)

lemma valid_relative_path_nonempty: "valid_relative_path path m \<Longrightarrow> path \<noteq> []"
  by (auto simp: valid_relative_path_def)

section \<open>Template expansion\<close>

datatype expand_error = UnterminatedTemplate | UnsetVariable string | TooLongExpanded | NotAbsolute

text \<open>One output byte: stored while there is room for it and the NUL, else only noted.\<close>

definition put_char :: "nat \<Rightarrow> string \<times> bool \<Rightarrow> char \<Rightarrow> string \<times> bool" where
  "put_char cap st c =
     (if length (fst st) + 1 < cap then (fst st @ [c], snd st) else (fst st, True))"

definition lookup_var :: "string list \<Rightarrow> string \<Rightarrow> string option" where
  "lookup_var environ name =
     (if cstr name = ''HOME'' then env_home (hm_env_get environ) else getenv environ (cstr name))"

text \<open>
  The reference at the front of \<open>rest\<close>: a name of at most 63 bytes (the \<open>name\<close> buffer), and
  what follows it, which has to start with the two closing braces.
\<close>

definition tpl_opens :: "string \<Rightarrow> bool" where
  "tpl_opens rest \<longleftrightarrow> 1 < length rest \<and> rest ! 0 = CHR ''{'' \<and> rest ! 1 = CHR ''{''"

definition tpl_name :: "string \<Rightarrow> string" where
  "tpl_name rest = take 63 (takeWhile (\<lambda>c. c \<noteq> CHR ''}'') (drop 2 rest))"

definition tpl_after :: "string \<Rightarrow> string" where
  "tpl_after rest = drop (2 + length (tpl_name rest)) rest"

definition tpl_closes :: "string \<Rightarrow> bool" where
  "tpl_closes rest \<longleftrightarrow>
     \<not> (length rest \<le> 1 \<or> rest ! 0 \<noteq> CHR ''}'' \<or> rest ! 1 \<noteq> CHR ''}'')"

lemma length_tpl_after: "rest \<noteq> [] \<Longrightarrow> length (drop 2 (tpl_after rest)) < length rest"
  by (cases rest) (simp_all add: tpl_after_def)

function expand_loop :: "string list \<Rightarrow> nat \<Rightarrow> string \<Rightarrow> string \<times> bool \<Rightarrow> expand_error + string \<times> bool" where
  "expand_loop environ cap rest st =
     (if rest = [] then Inr st
      else if tpl_opens rest then
        (let name = tpl_name rest
         in if \<not> tpl_closes (tpl_after rest) then Inl UnterminatedTemplate
            else (case lookup_var environ name of
                None \<Rightarrow> Inl (UnsetVariable (cstr name))
              | Some val \<Rightarrow>
                  if val = [] then Inl (UnsetVariable (cstr name))
                  else expand_loop environ cap (drop 2 (tpl_after rest)) (foldl (put_char cap) st val)))
      else expand_loop environ cap (tl rest) (put_char cap st (hd rest)))"
  by pat_completeness auto
termination
  by (relation "measure (\<lambda>(environ, cap, rest, st). length rest)")
     (use length_tpl_after in \<open>auto simp del: length_drop\<close>)

declare expand_loop.simps [simp del]

definition expand_template :: "string list \<Rightarrow> string \<Rightarrow> nat \<Rightarrow> bool \<Rightarrow> expand_error + string" where
  "expand_template environ tpl cap require_absolute =
     (case expand_loop environ cap tpl ([], False) of
        Inl e \<Rightarrow> Inl e
      | Inr (out, too_long) \<Rightarrow>
          if too_long then Inl TooLongExpanded
          else if require_absolute \<and> (out = [] \<or> out ! 0 \<noteq> SLASH) then Inl NotAbsolute
          else Inr (cstr out))"

text \<open>The specification of the expansion: literal bytes and variable references.\<close>

datatype piece = Lit char | Var string

function pieces :: "string \<Rightarrow> piece list option" where
  "pieces rest =
     (if rest = [] then Some []
      else if tpl_opens rest then
        (if \<not> tpl_closes (tpl_after rest) then None
         else map_option ((#) (Var (cstr (tpl_name rest)))) (pieces (drop 2 (tpl_after rest))))
      else map_option ((#) (Lit (hd rest))) (pieces (tl rest)))"
  by pat_completeness auto
termination
  by (relation "measure length") (use length_tpl_after in \<open>auto simp del: length_drop\<close>)

declare pieces.simps [simp del]

fun piece_text :: "string list \<Rightarrow> piece \<Rightarrow> string" where
  "piece_text environ (Lit c) = [c]"
| "piece_text environ (Var v) = (case getenv environ v of None \<Rightarrow> [] | Some t \<Rightarrow> t)"

fun piece_ok :: "string list \<Rightarrow> piece \<Rightarrow> bool" where
  "piece_ok environ (Lit c) = True"
| "piece_ok environ (Var v) = (case getenv environ v of None \<Rightarrow> False | Some t \<Rightarrow> t \<noteq> [])"

definition expansion :: "string list \<Rightarrow> piece list \<Rightarrow> string" where
  "expansion environ ps = concat (map (piece_text environ) ps)"

lemma lookup_var_getenv: "lookup_var environ name = getenv environ (cstr name)"
  by (simp add: lookup_var_def hm_env_get_getenv)

lemma put_chars:
  "length (fst st) < cap \<Longrightarrow>
   foldl (put_char cap) st s =
     (take (cap - 1) (fst st @ s), snd st \<or> cap \<le> length (fst st) + length s)"
proof (induction s arbitrary: st)
  case Nil
  then show ?case by (cases st) auto
next
  case (Cons c s)
  show ?case
  proof (cases "length (fst st) + 1 < cap")
    case True
    with Cons.IH [of "put_char cap st c"] show ?thesis by (simp add: put_char_def)
  next
    case False
    with Cons.prems have "length (fst st) = cap - 1" by simp
    with Cons.IH [of "put_char cap st c"] Cons.prems False show ?thesis by (auto simp: put_char_def)
  qed
qed

text \<open>Without a length limit in the way, the loop computes exactly the expansion.\<close>

definition loop_result :: "string list \<Rightarrow> nat \<Rightarrow> string \<times> bool \<Rightarrow> piece list \<Rightarrow> string \<times> bool" where
  "loop_result environ cap st ps =
     (take (cap - 1) (fst st @ expansion environ ps),
      snd st \<or> cap \<le> length (fst st) + length (expansion environ ps))"

lemma loop_result_Nil:
  "length (fst st) < cap \<Longrightarrow> loop_result environ cap st [] = st"
  by (cases st) (auto simp: loop_result_def expansion_def)

lemma loop_result_step:
  assumes "length (fst st) < cap"
  shows "loop_result environ cap (foldl (put_char cap) st (piece_text environ p)) ps =
         loop_result environ cap st (p # ps)"
    and "length (fst (foldl (put_char cap) st (piece_text environ p))) < cap"
  using assms by (auto simp: put_chars loop_result_def expansion_def min_def)

lemma expand_loop_Nil [simp]: "expand_loop environ cap [] st = Inr st"
  by (subst expand_loop.simps) simp

lemma pieces_Nil [simp]: "pieces [] = Some []"
  by (subst pieces.simps) simp

lemma expand_loop_lit:
  assumes "rest \<noteq> []" "\<not> tpl_opens rest"
  shows "expand_loop environ cap rest st = expand_loop environ cap (tl rest) (put_char cap st (hd rest))"
    and "pieces rest = map_option ((#) (Lit (hd rest))) (pieces (tl rest))"
  unfolding expand_loop.simps [of environ cap rest st] pieces.simps [of rest]
  using assms by (simp_all only: if_False)

lemma expand_loop_var:
  assumes "rest \<noteq> []" "tpl_opens rest"
  shows "pieces rest =
      (if tpl_closes (tpl_after rest)
       then map_option ((#) (Var (cstr (tpl_name rest)))) (pieces (drop 2 (tpl_after rest))) else None)"
    and "expand_loop environ cap rest st =
      (if \<not> tpl_closes (tpl_after rest) then Inl UnterminatedTemplate
       else (case getenv environ (cstr (tpl_name rest)) of
           None \<Rightarrow> Inl (UnsetVariable (cstr (tpl_name rest)))
         | Some val \<Rightarrow>
             if val = [] then Inl (UnsetVariable (cstr (tpl_name rest)))
             else expand_loop environ cap (drop 2 (tpl_after rest)) (foldl (put_char cap) st val)))"
  using assms
   apply (subst pieces.simps, simp)
  using assms
  apply (subst expand_loop.simps, simp add: Let_def lookup_var_getenv)
  done

lemma ex_cons_pieces:
  "(\<exists>ps. map_option ((#) x) m = Some ps \<and> list_all P ps \<and> r = f ps) \<longleftrightarrow>
     P x \<and> (\<exists>ps. m = Some ps \<and> list_all P ps \<and> r = f (x # ps))"
  by (cases m) auto

lemma expand_loop_Inr:
  "length (fst st) < cap \<Longrightarrow>
   expand_loop environ cap rest st = Inr r \<longleftrightarrow>
     (\<exists>ps. pieces rest = Some ps \<and> list_all (piece_ok environ) ps \<and> r = loop_result environ cap st ps)"
proof (induction environ cap rest st rule: expand_loop.induct)
  case (1 environ cap rest st)
  show ?case
  proof (cases "rest = []")
    case True
    have "(\<exists>ps. Some [] = Some ps \<and> list_all (piece_ok environ) ps \<and>
        r = loop_result environ cap st ps) \<longleftrightarrow> r = loop_result environ cap st []"
      by (metis list.pred_inject(1) option.inject)
    also have "\<dots> \<longleftrightarrow> Inr st = Inr r"
      unfolding loop_result_Nil [OF "1.prems"] sum.inject by (rule eq_commute)
    finally have "(Inr st = Inr r) \<longleftrightarrow> (\<exists>ps. Some [] = Some ps \<and> list_all (piece_ok environ) ps \<and>
        r = loop_result environ cap st ps)"
      by (rule sym)
    then show ?thesis by (simp only: True expand_loop_Nil pieces_Nil)
  next
    case ne: False
    show ?thesis
    proof (cases "tpl_opens rest")
      case False
      have pc: "put_char cap st (hd rest) = foldl (put_char cap) st (piece_text environ (Lit (hd rest)))"
        by simp
      have "length (fst (put_char cap st (hd rest))) < cap"
        unfolding pc by (rule loop_result_step(2) [OF "1.prems"])
      from "1.IH"(2) [OF ne False this] show ?thesis
        unfolding expand_loop_lit [OF ne False] ex_cons_pieces pc loop_result_step(1) [OF "1.prems"]
        by (simp only: piece_ok.simps simp_thms)
    next
      case var: True
      let ?name = "cstr (tpl_name rest)" and ?after = "tpl_after rest"
      note eqs = expand_loop_var [OF ne var]
      show ?thesis
      proof (cases "tpl_closes ?after \<and> piece_ok environ (Var ?name)")
        case False
        then show ?thesis unfolding eqs by (auto split: option.splits)
      next
        case True
        then obtain val where v: "getenv environ ?name = Some val" "val \<noteq> []" "tpl_closes ?after"
          by (auto split: option.splits)
        have pc: "foldl (put_char cap) st val = foldl (put_char cap) st (piece_text environ (Var ?name))"
          using v by simp
        have "length (fst (foldl (put_char cap) st val)) < cap"
          unfolding pc by (rule loop_result_step(2) [OF "1.prems"])
        from "1.IH"(1) [OF ne var refl _ _ v(2) this]
        have "expand_loop environ cap (drop 2 ?after) (foldl (put_char cap) st val) = Inr r \<longleftrightarrow>
          (\<exists>ps. pieces (drop 2 ?after) = Some ps \<and> list_all (piece_ok environ) ps \<and>
                r = loop_result environ cap (foldl (put_char cap) st val) ps)"
          using v by (simp add: lookup_var_getenv)
        moreover have "pieces rest = map_option ((#) (Var ?name)) (pieces (drop 2 ?after))"
          using eqs(1) v(3) by simp
        moreover have "expand_loop environ cap rest st =
            expand_loop environ cap (drop 2 ?after) (foldl (put_char cap) st val)"
          using eqs(2) v by simp
        ultimately show ?thesis
          using True unfolding pc loop_result_step(1) [OF "1.prems"]
          by (simp only: ex_cons_pieces simp_thms)
      qed
    qed
  qed
qed

lemma expand_template_Inr:
  assumes "0 < cap"
  shows "expand_template environ tpl cap req = Inr r \<longleftrightarrow>
    (\<exists>ps. pieces tpl = Some ps \<and> list_all (piece_ok environ) ps \<and>
          length (expansion environ ps) < cap \<and> r = cstr (expansion environ ps) \<and>
          (req \<longrightarrow> expansion environ ps \<noteq> [] \<and> expansion environ ps ! 0 = SLASH))"
proof -
  have len: "length (fst ([], False)) < cap" using assms by simp
  show ?thesis
  proof (cases "expand_loop environ cap tpl ([], False)")
    case (Inl e)
    then have "\<not> (\<exists>ps. pieces tpl = Some ps \<and> list_all (piece_ok environ) ps)"
      using expand_loop_Inr [OF len, of environ tpl "loop_result environ cap ([], False) (the (pieces tpl))"]
      by auto
    with Inl show ?thesis by (auto simp: expand_template_def)
  next
    case (Inr x)
    then obtain ps where "pieces tpl = Some ps" "list_all (piece_ok environ) ps"
      "x = loop_result environ cap ([], False) ps"
      using expand_loop_Inr [OF len, of environ tpl x] by auto
    with Inr show ?thesis by (auto simp: expand_template_def loop_result_def)
  qed
qed

section \<open>Invocation names\<close>

text \<open>\<^verbatim>\<open>hm_bin_name_of\<close>: behind the last slash, without a \<open>.siml\<close> suffix that leaves a name.\<close>

definition base_name :: "string \<Rightarrow> string" where
  "base_name path = rev (takeWhile (\<lambda>c. c \<noteq> SLASH) (rev path))"

definition hm_bin_name_of :: "string \<Rightarrow> string" where
  "hm_bin_name_of path =
     (let r = base_name path
      in if length r > 5 \<and> drop (length r - 5) r = ''.siml'' then take (length r - 5) r else r)"

lemma base_name_no_slash: "SLASH \<notin> set (base_name path)"
  by (auto simp: base_name_def dest: set_takeWhileD)

lemma hm_bin_name_of_no_slash: "SLASH \<notin> set (hm_bin_name_of path)"
  using base_name_no_slash [of path] by (auto simp: hm_bin_name_of_def Let_def dest: in_set_takeD)

lemma base_name_append: "SLASH \<notin> set b \<Longrightarrow> base_name (a @ SLASH # b) = b"
  by (simp add: base_name_def takeWhile_append)

lemma base_name_plain: "SLASH \<notin> set b \<Longrightarrow> base_name b = b"
proof -
  assume "SLASH \<notin> set b"
  then have "takeWhile (\<lambda>c. c \<noteq> SLASH) (rev b) = rev b" by (intro takeWhile_eq_all_conv [THEN iffD2]) auto
  then show ?thesis unfolding base_name_def by (simp only: rev_rev_ident)
qed

section \<open>Properties\<close>

text \<open>
  C26: A path is accepted as relative exactly when it is non-empty, within its length limit and
  every component between slashes is a real name: not empty, not \<open>.\<close> and not \<open>..\<close>. So no accepted
  path is absolute, ends in a slash or climbs out of the directory it is resolved in.
\<close>
theorem relative_path_accepted_iff_safe:
  "valid_relative_path path m \<longleftrightarrow>
     path \<noteq> [] \<and> length path \<le> m \<and> list_all safe_component (split_on SLASH path)"
  using valid_relative_path_nonempty by (auto simp: valid_relative_path_iff)

text \<open>
  C27: Expanding a path template succeeds exactly when every \<open>{{\<close> has its \<open>}}\<close>, every variable it
  names is set and not empty, the full expansion fits the buffer, and it is absolute where that is
  required; the result is then the complete expansion as a C string, never a truncated one.
\<close>
theorem template_expands_fully_or_fails:
  "expand_template environ tpl (Suc n) req = Inr r \<longleftrightarrow>
    (\<exists>ps. pieces tpl = Some ps \<and> list_all (piece_ok environ) ps \<and>
          length (expansion environ ps) \<le> n \<and> r = cstr (expansion environ ps) \<and>
          (if req then expansion environ ps \<noteq> [] \<and> expansion environ ps ! 0 = SLASH else True))"
  by (cases req) (simp_all add: expand_template_Inr less_Suc_eq_le)

end
