(* ===== verification/HM_Config.thy ===== *)
theory HM_Config
  imports HM_Project HM_Paths HM_Siml
begin

text \<open>
  \<^verbatim>\<open>src/config.c\<close>: the event consumer that turns one SIML stream into one project. \<open>hm_cfg\<close> is the
  bookkeeping structure of the same name; the pointer \<open>cur\<close>, which is NULL or \<open>out\<close>, is a flag,
  the pointer \<open>block_file\<close> is an index into the project's files, and the two block pointers are
  offsets into the input buffer. Diagnostics are values: the line and the message of \<open>cfg_err\<close>.
\<close>

datatype cfg_error =
    CfgErr int string
  | CfgExpand int string expand_error
  | CfgUnknownKey int string
  | CfgNoProject
  | CfgNullCur

record hm_cfg =
  c_buf :: string
  c_environ :: "string list"
  c_invoked :: "string option"
  c_out :: hm_project
  c_started :: bool
  c_finished :: bool
  c_cur :: bool
  c_seen_check :: bool
  c_seen_version :: bool
  c_resolve_paths :: bool
  c_seen_install :: bool
  c_seen_files :: bool
  c_seen_swd :: bool
  c_pending_files :: bool
  c_pending_swd :: bool
  c_in_files :: bool
  c_in_swd :: bool
  c_seen_bin :: bool
  c_pending_bin_map :: bool
  c_in_bin_map :: bool
  c_bin_default :: string
  c_invoked_name :: string
  c_block_kind :: nat
  c_block_file :: "nat option"
  c_block_start :: "nat option"
  c_block_end :: "nat option"

type_synonym cfg_result = "cfg_error + hm_cfg"

definition map_out :: "(hm_project \<Rightarrow> hm_project) \<Rightarrow> hm_cfg \<Rightarrow> hm_cfg" where
  "map_out f c = c\<lparr>c_out := f (c_out c)\<rparr>"

definition cfg_fail :: "int \<Rightarrow> string \<Rightarrow> cfg_result" where
  "cfg_fail line msg = Inl (CfgErr line msg)"

section \<open>Fields\<close>

definition apply_field :: "hm_cfg \<Rightarrow> string \<Rightarrow> string \<Rightarrow> int \<Rightarrow> cfg_result" where
  "apply_field c key v line =
     (let p = c_out c
      in if hm_str_eq key ''name'' then
           (if length v > HM_NAME_MAX then cfg_fail line ''name is too long''
            else Inr (c\<lparr>c_out := p\<lparr>p_name := v\<rparr>\<rparr>))
         else if hm_str_eq key ''url'' then
           (if length v > HM_URL_MAX then cfg_fail line ''url is too long''
            else Inr (c\<lparr>c_out := p\<lparr>p_url := v\<rparr>\<rparr>))
         else if hm_str_eq key ''command'' then
           (if length v > HM_COMMAND_MAX then cfg_fail line ''command is too long''
            else Inr (c\<lparr>c_out := p\<lparr>p_command := v\<rparr>\<rparr>))
         else if hm_str_eq key ''bin-path'' then
           (if c_seen_bin c then cfg_fail line (''duplicate 'bin-path'' @ [SQ])
            else if length v > HM_PATH_MAX then cfg_fail line ''bin-path is too long''
            else Inr (c\<lparr>c_seen_bin := True, c_out := p\<lparr>p_bin := v\<rparr>\<rparr>))
         else if hm_str_eq key ''check'' then
           (case parse_check p v of
              None \<Rightarrow> cfg_fail line ''check must be one of: etag, hash, version''
            | Some p' \<Rightarrow> Inr (c\<lparr>c_seen_check := True, c_out := p'\<rparr>))
         else if hm_str_eq key ''schedule'' then
           (case parse_schedule p v of
              None \<Rightarrow> cfg_fail line
                ''schedule must be always, never, hourly, daily, weekly, monthly or <n>[smhdw]''
            | Some p' \<Rightarrow> Inr (c\<lparr>c_out := p'\<lparr>p_schedule_explicit := True\<rparr>\<rparr>))
         else if hm_str_eq key ''sandboxed'' then
           (if hm_str_eq v ''true'' then Inr (c\<lparr>c_out := p\<lparr>p_sandboxed := True\<rparr>\<rparr>)
            else if hm_str_eq v ''false'' then Inr (c\<lparr>c_out := p\<lparr>p_sandboxed := False\<rparr>\<rparr>)
            else cfg_fail line ''sandboxed must be true or false'')
         else if hm_str_eq key ''version-prefix'' then
           Inr (c\<lparr>c_seen_version := True, c_out := p\<lparr>p_version_prefix := v\<rparr>\<rparr>)
         else if hm_str_eq key ''version-suffix'' then
           Inr (c\<lparr>c_seen_version := True, c_out := p\<lparr>p_version_suffix := v\<rparr>\<rparr>)
         else if hm_str_eq key ''install'' then
           Inr (c\<lparr>c_seen_install := True, c_out := p\<lparr>p_install := v, p_install_indent := 0\<rparr>\<rparr>)
         else Inl (CfgUnknownKey line key))"

section \<open>Embedded files, writable directories, bin-path mappings\<close>

definition add_file :: "hm_cfg \<Rightarrow> string \<Rightarrow> int \<Rightarrow> cfg_error + hm_cfg \<times> nat" where
  "add_file c path line =
     (let p = c_out c
      in if \<not> valid_file_path path then
           Inl (CfgErr line ''embedded file path must be a safe relative path'')
         else if list_ex (\<lambda>f. hm_str_eq_str (ef_path f) path) (p_files p) then
           Inl (CfgErr line ''duplicate embedded file path'')
         else if length (p_files p) = HM_FILES_MAX then
           Inl (CfgErr line ''too many embedded files'')
         else
           (let f = \<lparr>ef_path = fst (hm_str_copy (HM_FILE_PATH_MAX + 1) path), ef_content = [],
                     ef_content_indent = 0, ef_line = line\<rparr>
            in Inr (c\<lparr>c_out := p\<lparr>p_files := p_files p @ [f]\<rparr>\<rparr>, length (p_files p))))"

definition add_sandbox_write_dir :: "hm_cfg \<Rightarrow> string \<Rightarrow> int \<Rightarrow> cfg_result" where
  "add_sandbox_write_dir c source line =
     (let p = c_out c
      in if length source = 0 \<or> length source > HM_PATH_MAX then
           cfg_fail line ''sandbox write directory is empty or too long''
         else if length (p_write_dirs p) = HM_SANDBOX_WRITE_DIRS_MAX then
           cfg_fail line ''too many sandbox write directories''
         else Inr (c\<lparr>c_out := p\<lparr>p_write_dirs :=
                p_write_dirs p @ [\<lparr>wd_source = source, wd_path = [], wd_line = line\<rparr>]\<rparr>\<rparr>))"

definition bad_bin_name :: "string \<Rightarrow> bool" where
  "bad_bin_name name \<longleftrightarrow>
     memchr SLASH name \<noteq> None \<or>
     (length name > 5 \<and> drop (length name - 5) name = ''.siml'') \<or> length name > HM_BIN_NAME_MAX"

definition add_bin_entry :: "hm_cfg \<Rightarrow> string \<Rightarrow> string \<Rightarrow> int \<Rightarrow> cfg_result" where
  "add_bin_entry c name path line =
     (let p = c_out c
      in if bad_bin_name name then
           cfg_fail line ''a bin-path name must be a file name without '/' or a '.siml' suffix''
         else if length path = 0 \<or> length path > HM_PATH_MAX then
           cfg_fail line ''a bin-path entry is empty or too long''
         else if list_ex (\<lambda>n. hm_str_eq_str name n) (p_bin_names p) then
           cfg_fail line ''duplicate bin-path name''
         else if length (p_bin_names p) = HM_BIN_NAMES_MAX then
           cfg_fail line ''too many bin-path names''
         else
           (let c1 = (if p_bin_names p = [] then c\<lparr>c_bin_default := path\<rparr> else c);
                p1 = (if length (c_invoked_name c) > 0 \<and> hm_str_eq_str name (c_invoked_name c)
                      then p\<lparr>p_bin := path, p_bin_name := c_invoked_name c, p_bin_choice := HM_BIN_NAMED\<rparr>
                      else p)
            in Inr (c1\<lparr>c_out := p1\<lparr>p_bin_names := p_bin_names p @ [copied (HM_BIN_NAME_MAX + 1) name]\<rparr>\<rparr>)))"

definition finish_bin_map :: "hm_cfg \<Rightarrow> int \<Rightarrow> cfg_result" where
  "finish_bin_map c line =
     (let p = c_out c; c1 = c\<lparr>c_in_bin_map := False\<rparr>
      in if p_bin_names p = [] then cfg_fail line ''a bin-path mapping needs at least one entry''
         else if p_bin_choice p \<noteq> HM_BIN_NAMED then
           Inr (c1\<lparr>c_out := p\<lparr>p_bin := c_bin_default c, p_bin_name := hd (p_bin_names p),
                              p_bin_choice := HM_BIN_DEFAULT\<rparr>\<rparr>)
         else Inr c1)"

section \<open>The project as a whole\<close>

definition begin_project :: "hm_cfg \<Rightarrow> int \<Rightarrow> cfg_result" where
  "begin_project c line =
     (if c_started c then cfg_fail line ''input must describe exactly one project''
      else Inr (c\<lparr>c_started := True, c_out := project_defaults line, c_cur := True\<rparr>))"

definition default_name :: "string \<Rightarrow> string" where
  "default_name from = (if length from > HM_NAME_MAX then take HM_NAME_MAX from else from)"

text \<open>The first half of \<open>finish_project\<close>: which kind of project, and what it may not have.\<close>

definition finish_kind :: "hm_cfg \<Rightarrow> cfg_error + hm_project" where
  "finish_kind c =
     (let p = c_out c; fail = (\<lambda>msg. Inl (CfgErr (p_line p) msg))
      in if length (p_url p) = 0 \<and> length (p_command p) = 0 then
           fail (''project needs either 'url' or 'command'' @ [SQ])
         else if length (p_url p) > 0 \<and> length (p_command p) > 0 then
           fail '''url' and 'command' are mutually exclusive''
         else if length (p_command p) > 0 then
           (let p1 = p\<lparr>p_kind := HM_KIND_COMMAND\<rparr>
            in if c_seen_check c \<or> c_seen_version c then
                 fail ('''check' and 'version-*' only apply to a 'url'' @ [SQ])
               else if c_seen_install c then
                 fail ''a 'command' project has no 'install': the command is the work''
               else Inr (if length (p_name p1) = 0 then p1\<lparr>p_name := default_name (p_command p1)\<rparr> else p1))
         else
           (let p1 = p\<lparr>p_kind := HM_KIND_URL\<rparr>
            in if c_seen_files c then fail ('''files' only applies to a 'command'' @ [SQ])
               else
                 (let p2 = (if length (p_name p1) = 0 then p1\<lparr>p_name := default_name (p_url p1)\<rparr> else p1)
                  in if p_check p2 = HM_CHECK_VERSION \<and> length (p_version_prefix p2) = 0 then
                       fail (''check: version requires 'version-prefix'' @ [SQ])
                     else Inr p2)))"

fun expand_dirs :: "string list \<Rightarrow> hm_sandbox_write_dir list \<Rightarrow> cfg_error + hm_sandbox_write_dir list" where
  "expand_dirs environ [] = Inr []"
| "expand_dirs environ (d # ds) =
     (case expand_template environ (wd_source d) (HM_PATH_MAX + 1) True of
        Inl e \<Rightarrow> Inl (CfgExpand (wd_line d) ''sandbox-write-dirs entry'' e)
      | Inr path \<Rightarrow>
          (case expand_dirs environ ds of
             Inl e \<Rightarrow> Inl e
           | Inr ds' \<Rightarrow> Inr (d\<lparr>wd_path := path\<rparr> # ds')))"

definition finish_bin :: "hm_cfg \<Rightarrow> hm_project \<Rightarrow> cfg_error + hm_project" where
  "finish_bin c p =
     (if c_resolve_paths c \<and> length (p_bin p) > 0 then
        (case expand_template (c_environ c) (p_bin p) (HM_PATH_MAX + 1)
                (p_files p = [] \<and> \<not> p_sandboxed p) of
           Inl e \<Rightarrow> Inl (CfgExpand (p_line p) ''bin-path'' e)
         | Inr path \<Rightarrow> Inr (p\<lparr>p_bin_path := path\<rparr>))
      else Inr p)"

definition finish_cached :: "hm_project \<Rightarrow> cfg_error + hm_project" where
  "finish_cached p =
     (if p_bin_path p \<noteq> [] \<and> p_bin_path p ! 0 \<noteq> SLASH then
        (if \<not> valid_relative_path (p_bin_path p) HM_PATH_MAX then
           Inl (CfgErr (p_line p) ''cache-relative bin-path must be a safe relative path'')
         else Inr (p\<lparr>p_bin_cached := True\<rparr>))
      else Inr p)"

definition finish_project :: "hm_cfg \<Rightarrow> cfg_result" where
  "finish_project c =
     (if \<not> c_cur c then Inl CfgNullCur
      else
        (case finish_kind c of
           Inl e \<Rightarrow> Inl e
         | Inr p1 \<Rightarrow>
             if c_pending_bin_map c then
               cfg_fail (p_line p1) '''bin-path' needs a path or a mapping of names to paths''
             else if length (p_write_dirs p1) > 0 \<and> \<not> p_sandboxed p1 then
               cfg_fail (p_line p1) ('''sandbox-write-dirs' requires 'sandboxed: true'' @ [SQ])
             else
               (case (if c_resolve_paths c then expand_dirs (c_environ c) (p_write_dirs p1)
                      else Inr (p_write_dirs p1)) of
                  Inl e \<Rightarrow> Inl e
                | Inr ds \<Rightarrow>
                    (case finish_bin c (p1\<lparr>p_write_dirs := ds\<rparr>) of
                       Inl e \<Rightarrow> Inl e
                     | Inr p2 \<Rightarrow>
                         (case finish_cached p2 of
                            Inl e \<Rightarrow> Inl e
                          | Inr p3 \<Rightarrow>
                              Inr (c\<lparr>c_out := p3, c_finished := True, c_cur := False\<rparr>))))))"

section \<open>Block scalars\<close>

text \<open>\<open>line_start\<close>: back from \<open>pos\<close> to the byte after the preceding LF.\<close>

fun scan_back :: "string \<Rightarrow> nat \<Rightarrow> nat" where
  "scan_back buf 0 = 0"
| "scan_back buf (Suc n) = (if n < length buf \<and> buf ! n = LF then Suc n else scan_back buf n)"

definition set_file :: "nat \<Rightarrow> (hm_embedded_file \<Rightarrow> hm_embedded_file) \<Rightarrow> hm_project \<Rightarrow> hm_project" where
  "set_file i f p = (if i < length (p_files p) then p\<lparr>p_files := (p_files p)[i := f (p_files p ! i)]\<rparr> else p)"

definition block_line :: "hm_cfg \<Rightarrow> siml_event \<Rightarrow> hm_cfg" where
  "block_line c ev =
     (if length (ev_value ev) = 0 then c
      else
        (let c1 =
           (if c_block_start c = None then
              (let ls = scan_back (c_buf c) (ev_value_pos ev);
                   indent = ev_value_pos ev - ls;
                   p1 = (if c_block_kind c = 1 then (c_out c)\<lparr>p_install_indent := indent\<rparr>
                         else (case c_block_file c of
                             None \<Rightarrow> c_out c
                           | Some i \<Rightarrow> set_file i (\<lambda>f. f\<lparr>ef_content_indent := indent\<rparr>) (c_out c)))
               in c\<lparr>c_block_start := Some ls, c_out := p1\<rparr>)
            else c)
         in c1\<lparr>c_block_end := Some (ev_value_pos ev + length (ev_value ev))\<rparr>))"

definition buf_slice :: "string \<Rightarrow> nat \<Rightarrow> nat \<Rightarrow> string" where
  "buf_slice buf s e = take (e - s) (drop s buf)"

definition block_start :: "hm_cfg \<Rightarrow> siml_event \<Rightarrow> cfg_result" where
  "block_start c ev =
     (if c_cur c \<and> c_in_files c then
        (case add_file c (ev_key ev) (ev_line ev) of
           Inl e \<Rightarrow> Inl e
         | Inr (c1, i) \<Rightarrow>
             Inr (c1\<lparr>c_block_file := Some i, c_block_kind := 2, c_block_start := None, c_block_end := None\<rparr>))
      else if c_cur c \<and> hm_str_eq (ev_key ev) ''install'' then
        Inr (c\<lparr>c_seen_install := True, c_block_kind := 1, c_block_start := None, c_block_end := None\<rparr>)
      else cfg_fail (ev_line ev) ''only 'install' and embedded files may be block scalars'')"

definition block_end :: "hm_cfg \<Rightarrow> hm_cfg" where
  "block_end c =
     (let p1 =
        (case (c_block_start c, c_block_end c) of
           (Some s, Some e) \<Rightarrow>
             if c_block_kind c = 0 then c_out c
             else if c_block_kind c = 1 then (c_out c)\<lparr>p_install := buf_slice (c_buf c) s e\<rparr>
             else (case c_block_file c of
                 None \<Rightarrow> c_out c
               | Some i \<Rightarrow> set_file i (\<lambda>f. f\<lparr>ef_content := buf_slice (c_buf c) s e\<rparr>) (c_out c))
         | _ \<Rightarrow> c_out c)
      in c\<lparr>c_out := p1, c_block_kind := 0, c_block_file := None\<rparr>)"

section \<open>The event loop\<close>

datatype cfg_step = Continue hm_cfg | Done hm_project | Failed cfg_error

fun lift :: "cfg_result \<Rightarrow> cfg_step" where
  "lift (Inl e) = Failed e"
| "lift (Inr c) = Continue c"

definition fail_at :: "siml_event \<Rightarrow> string \<Rightarrow> cfg_step" where
  "fail_at ev msg = Failed (CfgErr (ev_line ev) msg)"

text \<open>One definition per group of \<open>case\<close> labels of the switch in \<^verbatim>\<open>hm_config_parse\<close>.\<close>

definition on_entry_header :: "hm_cfg \<Rightarrow> siml_event \<Rightarrow> cfg_step" where
  "on_entry_header c ev =
     (if c_in_bin_map c then fail_at ev ''a bin-path entry must map a name to a path''
      else if c_in_files c \<or> c_in_swd c then
        fail_at ev ''an embedded file must be a literal block scalar''
      else if c_cur c \<and> hm_str_eq (ev_key ev) ''bin-path'' then
        (if c_seen_bin c then fail_at ev (''duplicate 'bin-path'' @ [SQ])
         else Continue (c\<lparr>c_seen_bin := True, c_pending_bin_map := True\<rparr>))
      else if c_cur c \<and> hm_str_eq (ev_key ev) ''files'' then
        Continue (c\<lparr>c_seen_files := True, c_pending_files := True\<rparr>)
      else if c_cur c \<and> hm_str_eq (ev_key ev) ''sandbox-write-dirs'' then
        (if c_seen_swd c then fail_at ev (''duplicate 'sandbox-write-dirs'' @ [SQ])
         else Continue (c\<lparr>c_seen_swd := True, c_pending_swd := True\<rparr>))
      else Continue c)"

definition on_document_start :: "hm_cfg \<Rightarrow> siml_event \<Rightarrow> cfg_step" where
  "on_document_start c ev =
     (if c_started c then fail_at ev ''input must describe exactly one project'' else Continue c)"

definition on_sequence_start :: "hm_cfg \<Rightarrow> siml_event \<Rightarrow> cfg_step" where
  "on_sequence_start c ev =
     (if c_cur c \<and> (c_pending_swd c \<or> hm_str_eq (ev_key ev) ''sandbox-write-dirs'') then
        (if \<not> c_pending_swd c \<and> c_seen_swd c then fail_at ev (''duplicate 'sandbox-write-dirs'' @ [SQ])
         else Continue (c\<lparr>c_seen_swd := True, c_pending_swd := False, c_in_swd := True\<rparr>))
      else if c_cur c then
        fail_at ev ''only 'sandbox-write-dirs' may be a sequence inside a project''
      else fail_at ev
        ''input must describe exactly one project, written as a plain mapping (no leading '- ')'')"

definition on_mapping_start :: "hm_cfg \<Rightarrow> siml_event \<Rightarrow> cfg_step" where
  "on_mapping_start c ev =
     (if c_cur c \<and> c_pending_files c then
        Continue (c\<lparr>c_pending_files := False, c_in_files := True\<rparr>)
      else if c_cur c \<and> c_pending_bin_map c then
        (let c1 = c\<lparr>c_pending_bin_map := False, c_in_bin_map := True\<rparr>
         in Continue (case c_invoked c of
               None \<Rightarrow> c1
             | Some f \<Rightarrow> c1\<lparr>c_invoked_name := hm_bin_name_of f\<rparr>))
      else if c_cur c \<and> c_pending_swd c then
        fail_at ev (SQ # ''sandbox-write-dirs' must be a sequence'')
      else if c_cur c then fail_at ev ''nested mappings are not supported''
      else lift (begin_project c (ev_line ev)))"

definition on_mapping_end :: "hm_cfg \<Rightarrow> siml_event \<Rightarrow> cfg_step" where
  "on_mapping_end c ev =
     (if c_in_files c then Continue (c\<lparr>c_in_files := False\<rparr>)
      else if c_in_bin_map c then lift (finish_bin_map c (ev_line ev))
      else lift (finish_project c))"

definition on_scalar :: "hm_cfg \<Rightarrow> siml_event \<Rightarrow> cfg_step" where
  "on_scalar c ev =
     (if \<not> c_cur c then fail_at ev ''expected a mapping of project fields''
      else if length (ev_key ev) = 0 then
        (if c_in_swd c then lift (add_sandbox_write_dir c (ev_value ev) (ev_line ev))
         else fail_at ev ''bare sequence items are not supported'')
      else if c_in_bin_map c then lift (add_bin_entry c (ev_key ev) (ev_value ev) (ev_line ev))
      else if c_in_files c then fail_at ev ''an embedded file must be a literal block scalar''
      else lift (apply_field c (ev_key ev) (ev_value ev) (ev_line ev)))"

definition on_event :: "hm_cfg \<Rightarrow> siml_event \<Rightarrow> cfg_step" where
  "on_event c ev =
     (case ev_type ev of
        SIML_EVENT_STREAM_START \<Rightarrow> Continue c
      | SIML_EVENT_DOCUMENT_END \<Rightarrow> Continue c
      | SIML_EVENT_SHEBANG \<Rightarrow> Continue c
      | SIML_EVENT_COMMENT \<Rightarrow> Continue c
      | SIML_EVENT_MAPPING_ENTRY_HEADER \<Rightarrow> on_entry_header c ev
      | SIML_EVENT_DOCUMENT_START \<Rightarrow> on_document_start c ev
      | SIML_EVENT_SEQUENCE_START \<Rightarrow> on_sequence_start c ev
      | SIML_EVENT_SEQUENCE_END \<Rightarrow> Continue (c\<lparr>c_in_swd := False\<rparr>)
      | SIML_EVENT_MAPPING_START \<Rightarrow> on_mapping_start c ev
      | SIML_EVENT_MAPPING_END \<Rightarrow> on_mapping_end c ev
      | SIML_EVENT_SCALAR \<Rightarrow> on_scalar c ev
      | SIML_EVENT_BLOCK_SCALAR_START \<Rightarrow> lift (block_start c ev)
      | SIML_EVENT_BLOCK_SCALAR_LINE \<Rightarrow> Continue (if c_block_kind c \<noteq> 0 then block_line c ev else c)
      | SIML_EVENT_BLOCK_SCALAR_END \<Rightarrow> Continue (block_end c)
      | SIML_EVENT_STREAM_END \<Rightarrow> (if \<not> c_finished c then Failed CfgNoProject else Done (c_out c))
      | _ \<Rightarrow> fail_at ev (case ev_error_message ev of Some m \<Rightarrow> m | None \<Rightarrow> ''parse error''))"

text \<open>
  The loop pulls events until one ends it. The list is the stream \<open>siml_next\<close> would deliver; a
  list that stops before an end or error event is \<open>None\<close> (a parser never stops there).
\<close>

fun cfg_run :: "hm_cfg \<Rightarrow> siml_event list \<Rightarrow> (cfg_error + hm_project) option" where
  "cfg_run c [] = None"
| "cfg_run c (ev # evs) =
     (case on_event c ev of
        Continue c' \<Rightarrow> cfg_run c' evs
      | Done p \<Rightarrow> Some (Inr p)
      | Failed e \<Rightarrow> Some (Inl e))"

definition cfg_init :: "string \<Rightarrow> string list \<Rightarrow> string option \<Rightarrow> hm_project \<Rightarrow> bool \<Rightarrow> hm_cfg" where
  "cfg_init buf environ invoked out resolve =
     \<lparr>c_buf = buf, c_environ = environ, c_invoked = invoked, c_out = out, c_started = False,
      c_finished = False, c_cur = False, c_seen_check = False, c_seen_version = False,
      c_resolve_paths = resolve, c_seen_install = False, c_seen_files = False, c_seen_swd = False,
      c_pending_files = False, c_pending_swd = False, c_in_files = False, c_in_swd = False,
      c_seen_bin = False, c_pending_bin_map = False, c_in_bin_map = False, c_bin_default = [],
      c_invoked_name = [], c_block_kind = 0, c_block_file = None, c_block_start = None,
      c_block_end = None\<rparr>"

definition hm_config_parse ::
  "string \<Rightarrow> string list \<Rightarrow> string option \<Rightarrow> hm_project \<Rightarrow> bool \<Rightarrow> siml_event list \<Rightarrow>
   (cfg_error + hm_project) option" where
  "hm_config_parse buf environ invoked out resolve evs = cfg_run (cfg_init buf environ invoked out resolve) evs"

end
