(* ===== verification/HM_Config_Inv.thy ===== *)
theory HM_Config_Inv
  imports HM_Config
begin

text \<open>
  What a successful parse guarantees. \<open>project_ok\<close> is the contract the rest of the program relies
  on; \<open>cfg_inv\<close> is the invariant of the event loop that establishes it, preserved by every
  operation (one lemma each) and so by every event.
\<close>

section \<open>The contract\<close>

definition file_ok :: "hm_embedded_file \<Rightarrow> bool" where
  "file_ok f \<longleftrightarrow> valid_file_path (ef_path f)"

definition dir_source_ok :: "hm_sandbox_write_dir \<Rightarrow> bool" where
  "dir_source_ok d \<longleftrightarrow> wd_source d \<noteq> [] \<and> length (wd_source d) \<le> HM_PATH_MAX"

definition bounds_ok :: "hm_project \<Rightarrow> bool" where
  "bounds_ok p \<longleftrightarrow>
     length (p_name p) \<le> HM_NAME_MAX \<and> length (p_url p) \<le> HM_URL_MAX \<and>
     length (p_command p) \<le> HM_COMMAND_MAX \<and> length (p_bin p) \<le> HM_PATH_MAX \<and>
     length (p_files p) \<le> HM_FILES_MAX \<and> list_all file_ok (p_files p) \<and>
     distinct (map ef_path (p_files p)) \<and>
     length (p_write_dirs p) \<le> HM_SANDBOX_WRITE_DIRS_MAX \<and> list_all dir_source_ok (p_write_dirs p) \<and>
     length (p_bin_names p) \<le> HM_BIN_NAMES_MAX"

definition kind_ok :: "hm_project \<Rightarrow> bool" where
  "kind_ok p \<longleftrightarrow>
     p_name p \<noteq> [] \<and>
     (p_kind p = HM_KIND_URL \<longrightarrow>
        p_url p \<noteq> [] \<and> p_command p = [] \<and> p_files p = [] \<and>
        (p_check p = HM_CHECK_VERSION \<longrightarrow> p_version_prefix p \<noteq> [])) \<and>
     (p_kind p = HM_KIND_COMMAND \<longrightarrow> p_command p \<noteq> [] \<and> p_url p = [])"

definition dir_path_ok :: "hm_sandbox_write_dir \<Rightarrow> bool" where
  "dir_path_ok d \<longleftrightarrow> wd_path d \<noteq> [] \<and> wd_path d ! 0 = SLASH \<and> length (wd_path d) \<le> HM_PATH_MAX"

definition bin_ok :: "hm_project \<Rightarrow> bool" where
  "bin_ok p \<longleftrightarrow>
     length (p_bin_path p) \<le> HM_PATH_MAX \<and> NUL \<notin> set (p_bin_path p) \<and>
     (p_bin_cached p \<longleftrightarrow> p_bin_path p \<noteq> [] \<and> p_bin_path p ! 0 \<noteq> SLASH) \<and>
     (p_bin_cached p \<longrightarrow>
        list_all safe_component (split_on SLASH (p_bin_path p)) \<and> (p_sandboxed p \<or> p_files p \<noteq> []))"

definition project_ok :: "bool \<Rightarrow> hm_project \<Rightarrow> bool" where
  "project_ok resolve p \<longleftrightarrow>
     bounds_ok p \<and> kind_ok p \<and> bin_ok p \<and>
     (p_write_dirs p \<noteq> [] \<longrightarrow> p_sandboxed p) \<and>
     (resolve \<longrightarrow> list_all dir_path_ok (p_write_dirs p)) \<and>
     (\<not> resolve \<longrightarrow> p_bin_path p = [])"

section \<open>The loop invariant\<close>

definition building :: "hm_cfg \<Rightarrow> bool" where
  "building c \<longleftrightarrow>
     bounds_ok (c_out c) \<and> p_bin_path (c_out c) = [] \<and> \<not> p_bin_cached (c_out c) \<and>
     (p_files (c_out c) \<noteq> [] \<longrightarrow> c_seen_files c) \<and>
     (p_bin_names (c_out c) \<noteq> [] \<longrightarrow> length (c_bin_default c) \<le> HM_PATH_MAX)"

definition cfg_inv :: "hm_cfg \<Rightarrow> bool" where
  "cfg_inv c \<longleftrightarrow>
     (c_cur c \<longrightarrow> building c) \<and>
     (c_finished c \<longrightarrow> \<not> c_cur c \<and> c_started c \<and> project_ok (c_resolve_paths c) (c_out c)) \<and>
     (c_cur c \<longrightarrow> c_started c) \<and>
     (c_in_files c \<or> c_in_bin_map c \<longrightarrow> c_cur c) \<and>
     (c_in_files c \<or> c_pending_files c \<longrightarrow> c_seen_files c)"

text \<open>What an operation on the project under construction leaves alone.\<close>

definition same_mode :: "hm_cfg \<Rightarrow> hm_cfg \<Rightarrow> bool" where
  "same_mode c d \<longleftrightarrow>
     c_cur d = c_cur c \<and> c_started d = c_started c \<and> c_finished d = c_finished c \<and>
     c_in_files d = c_in_files c \<and> c_in_bin_map d = c_in_bin_map c \<and>
     c_seen_files d = c_seen_files c \<and> c_pending_files d = c_pending_files c \<and>
     c_resolve_paths d = c_resolve_paths c"

lemma same_mode_refl [simp]: "same_mode c c"
  by (simp add: same_mode_def)

lemma cfg_inv_op:
  assumes "cfg_inv c" "c_cur c" "same_mode c d" "building d"
  shows "cfg_inv d"
  using assms by (auto simp: cfg_inv_def same_mode_def)

lemma parse_check_frame: "parse_check p v = Some p' \<Longrightarrow> \<exists>k. p' = p\<lparr>p_check := k\<rparr>"
  by (auto simp: parse_check_def split: if_split_asm)

lemma parse_schedule_cases:
  assumes "P None" "\<And>k. P (Some (p\<lparr>p_sched_kind := k\<rparr>))"
    "\<And>k i. P (Some (p\<lparr>p_sched_kind := k, p_sched_interval := i\<rparr>))"
  shows "P (parse_schedule p v)"
proof -
  have 1: "P (if b then x else y)" if "P x" "P y" for b x y
    using that by simp
  have 2: "P (case z of None \<Rightarrow> x | Some w \<Rightarrow> y w)" if "P x" "\<And>w. P (y w)" for z :: "'z option" and x y
    using that by (cases z) simp_all
  have 3: "P (Some (p\<lparr>p_sched_kind := k\<rparr>\<lparr>p_sched_interval := i\<rparr>))" for k i
    using assms(3) by simp
  show ?thesis
    unfolding parse_schedule_def Let_def by (intro 1 2 assms(1,2) 3)
qed

lemma parse_schedule_frame:
  assumes "parse_schedule p v = Some p'"
  shows "\<exists>k i. p' = p\<lparr>p_sched_kind := k, p_sched_interval := i\<rparr>"
proof -
  have 0: "\<exists>k' i. p\<lparr>p_sched_kind := k\<rparr> = p\<lparr>p_sched_kind := k', p_sched_interval := i\<rparr>" for k
    by (rule exI [of _ k], rule exI [of _ "p_sched_interval p"]) simp
  have "\<forall>q. parse_schedule p v = Some q \<longrightarrow>
      (\<exists>k i. q = p\<lparr>p_sched_kind := k, p_sched_interval := i\<rparr>)"
    by (rule parse_schedule_cases) (simp_all add: 0, blast)
  with assms show ?thesis by blast
qed

section \<open>Operations preserve the invariant\<close>

lemma apply_field_inv:
  assumes "building c"
  shows "ensures (apply_field c key v line) (\<lambda>d. building d \<and> same_mode c d)"
  unfolding apply_field_def Let_def cfg_fail_def
  using assms
  by (intro hm_vcg) (clarsimp simp del: hm_str_eq_iff simp: building_def bounds_ok_def same_mode_def
      dest!: parse_check_frame parse_schedule_frame)+

lemma add_file_path: "valid_file_path path \<Longrightarrow> fst (hm_str_copy (HM_FILE_PATH_MAX + 1) path) = path"
  by (simp add: hm_str_copy_eq valid_file_path_def valid_relative_path_def split: if_split_asm)

lemma add_file_inv:
  assumes "building c" "c_seen_files c"
  shows "ensures (add_file c path line) (\<lambda>(d, i). building d \<and> same_mode c d)"
  unfolding add_file_def Let_def using assms
  by (intro hm_vcg)
    (auto simp: building_def bounds_ok_def same_mode_def file_ok_def list_ex_iff add_file_path [simplified])

lemma add_sandbox_write_dir_inv:
  assumes "building c"
  shows "ensures (add_sandbox_write_dir c source line) (\<lambda>d. building d \<and> same_mode c d)"
  unfolding add_sandbox_write_dir_def Let_def cfg_fail_def using assms
  by (intro hm_vcg) (auto simp: building_def bounds_ok_def same_mode_def dir_source_ok_def)

lemma add_bin_entry_inv:
  assumes "building c"
  shows "ensures (add_bin_entry c name path line) (\<lambda>d. building d \<and> same_mode c d)"
  unfolding add_bin_entry_def Let_def cfg_fail_def using assms
  by (intro hm_vcg) (auto simp: building_def bounds_ok_def same_mode_def)

lemma finish_bin_map_inv:
  assumes "building c"
  shows "ensures (finish_bin_map c line) (\<lambda>d. building d \<and> same_mode (c\<lparr>c_in_bin_map := False\<rparr>) d)"
  unfolding finish_bin_map_def Let_def cfg_fail_def using assms
  by (intro hm_vcg) (auto simp: building_def bounds_ok_def same_mode_def)

lemma project_defaults_building: "building (c\<lparr>c_out := project_defaults line\<rparr>)"
  by (simp add: building_def bounds_ok_def project_defaults_def)

section \<open>Finishing a project\<close>

lemma expand_template_bounds:
  assumes "expand_template environ tpl (HM_PATH_MAX + 1) req = Inr r"
  shows "length r \<le> HM_PATH_MAX" "NUL \<notin> set r" "req \<Longrightarrow> r \<noteq> [] \<and> r ! 0 = SLASH"
proof -
  from assms obtain ps where ps: "length (expansion environ ps) < HM_PATH_MAX + 1"
      "r = cstr (expansion environ ps)"
      "req \<longrightarrow> expansion environ ps \<noteq> [] \<and> expansion environ ps ! 0 = SLASH"
    by (auto simp: expand_template_Inr)
  then show "length r \<le> HM_PATH_MAX" "NUL \<notin> set r"
    using length_cstr_le [of "expansion environ ps"] by auto
  show "req \<Longrightarrow> r \<noteq> [] \<and> r ! 0 = SLASH"
    using ps(2,3) by (cases "expansion environ ps") (auto simp: cstr_Cons)
qed

lemma expand_dirs_ok:
  "ensures (expand_dirs environ ds)
     (\<lambda>ds'. length ds' = length ds \<and> list_all dir_path_ok ds' \<and> map wd_source ds' = map wd_source ds)"
proof (induction ds)
  case Nil
  then show ?case by (simp add: ensures_def)
next
  case (Cons d ds)
  show ?case
    unfolding expand_dirs.simps
    by (intro hm_vcg)
      (use Cons in \<open>auto simp: ensures_def dir_path_ok_def dest: expand_template_bounds [simplified]\<close>)
qed

lemma finish_kind_ok:
  assumes "building c"
  shows "ensures (finish_kind c) (\<lambda>p. bounds_ok p \<and> kind_ok p \<and> p_bin_path p = [] \<and> \<not> p_bin_cached p)"
  unfolding finish_kind_def Let_def using assms
  by (intro hm_vcg) (auto simp: building_def bounds_ok_def kind_ok_def default_name_def hm_limits)

lemma finish_bin_ok:
  assumes "p_bin_path p = []"
  shows "ensures (finish_bin c p) (\<lambda>q. \<exists>path. q = p\<lparr>p_bin_path := path\<rparr> \<and> length path \<le> HM_PATH_MAX \<and>
           NUL \<notin> set path \<and> (path \<noteq> [] \<longrightarrow> c_resolve_paths c) \<and>
           (path \<noteq> [] \<and> p_files p = [] \<and> \<not> p_sandboxed p \<longrightarrow> path ! 0 = SLASH))"
  unfolding finish_bin_def using assms
  by (intro hm_vcg) (auto dest: expand_template_bounds [simplified] intro: exI [of _ "[]"])

lemma finish_cached_ok:
  assumes "\<not> p_bin_cached p"
  shows "ensures (finish_cached p) (\<lambda>q. q = p\<lparr>p_bin_cached := (p_bin_path p \<noteq> [] \<and> p_bin_path p ! 0 \<noteq> SLASH)\<rparr> \<and>
           (p_bin_cached q \<longrightarrow> valid_relative_path (p_bin_path p) HM_PATH_MAX))"
  unfolding finish_cached_def using assms by (intro hm_vcg) auto

lemma dir_sources_ok:
  "map wd_source ds' = map wd_source ds \<Longrightarrow> list_all dir_source_ok ds' = list_all dir_source_ok ds"
proof -
  assume "map wd_source ds' = map wd_source ds"
  moreover have "list_all dir_source_ok xs = list_all (\<lambda>s. s \<noteq> [] \<and> length s \<le> HM_PATH_MAX) (map wd_source xs)"
    for xs by (induction xs) (simp_all add: dir_source_ok_def)
  ultimately show ?thesis by simp
qed

text \<open>The steps of \<open>finish_project\<close> after its first half, as one chain.\<close>

lemma finish_steps_ok:
  assumes p1: "bounds_ok p1" "kind_ok p1" "p_bin_path p1 = []" "\<not> p_bin_cached p1"
    and sb: "\<not> (0 < length (p_write_dirs p1) \<and> \<not> p_sandboxed p1)"
    and ds: "(if c_resolve_paths c then expand_dirs (c_environ c) (p_write_dirs p1)
              else Inr (p_write_dirs p1)) = Inr ds"
    and p2: "finish_bin c (p1\<lparr>p_write_dirs := ds\<rparr>) = Inr p2"
    and p3: "finish_cached p2 = Inr p3"
  shows "project_ok (c_resolve_paths c) p3"
proof -
  have ds': "length ds = length (p_write_dirs p1) \<and> map wd_source ds = map wd_source (p_write_dirs p1) \<and>
      (c_resolve_paths c \<longrightarrow> list_all dir_path_ok ds)"
    using ds ensuresD [OF expand_dirs_ok] by (auto split: if_split_asm)
  then have "list_all dir_source_ok ds"
    using p1(1) dir_sources_ok [of ds "p_write_dirs p1"] by (simp add: bounds_ok_def)
  with ds' have d: "length ds = length (p_write_dirs p1)" "c_resolve_paths c \<Longrightarrow> list_all dir_path_ok ds"
    "list_all dir_source_ok ds" "ds = [] \<longleftrightarrow> p_write_dirs p1 = []"
    by (simp_all flip: length_0_conv)
  obtain path where path: "p2 = p1\<lparr>p_write_dirs := ds\<rparr>\<lparr>p_bin_path := path\<rparr>" "length path \<le> HM_PATH_MAX"
    "NUL \<notin> set path" "path \<noteq> [] \<longrightarrow> c_resolve_paths c"
    "path \<noteq> [] \<and> p_files p1 = [] \<and> \<not> p_sandboxed p1 \<longrightarrow> path ! 0 = SLASH"
    using ensuresD [OF finish_bin_ok p2] p1(3) by auto
  have "p3 = p2\<lparr>p_bin_cached := (path \<noteq> [] \<and> path ! 0 \<noteq> SLASH)\<rparr>"
      "p_bin_cached p3 \<longrightarrow> valid_relative_path path HM_PATH_MAX"
    using ensuresD [OF finish_cached_ok p3] p1(4) path(1) by auto
  note p3 = this
  have "bounds_ok p3" using p1(1) d(1,3) by (simp add: p3(1) path(1) bounds_ok_def)
  moreover have "kind_ok p3" using p1(2) by (simp add: p3(1) path(1) kind_ok_def)
  moreover have "bin_ok p3"
    using p3(2) path(2,3,5) by (simp add: p3(1) path(1) bin_ok_def valid_relative_path_iff) blast
  moreover have "p_write_dirs p3 \<noteq> [] \<longrightarrow> p_sandboxed p3" "p_write_dirs p3 = ds" "p_bin_path p3 = path"
    using sb d(4) by (auto simp: p3(1) path(1))
  ultimately show ?thesis using d(2) path(4) by (simp add: project_ok_def) blast
qed

lemma finish_project_inv:
  assumes "cfg_inv c" "\<not> c_in_files c" "\<not> c_in_bin_map c"
  shows "ensures (finish_project c) cfg_inv"
  unfolding finish_project_def cfg_fail_def
proof (intro hm_vcg)
  fix p1 ds p2 p3
  assume s: "\<not> \<not> c_cur c" "finish_kind c = Inr p1"
    "\<not> (0 < length (p_write_dirs p1) \<and> \<not> p_sandboxed p1)"
    "(if c_resolve_paths c then expand_dirs (c_environ c) (p_write_dirs p1)
      else Inr (p_write_dirs p1)) = Inr ds"
    "finish_bin c (p1\<lparr>p_write_dirs := ds\<rparr>) = Inr p2" "finish_cached p2 = Inr p3"
  have "building c" "c_started c" using assms(1) s(1) by (auto simp: cfg_inv_def)
  from ensuresD [OF finish_kind_ok [OF this(1)] s(2)] s(3-)
  have "project_ok (c_resolve_paths c) p3" by (blast intro: finish_steps_ok)
  with assms \<open>c_started c\<close> show "cfg_inv (c\<lparr>c_out := p3, c_finished := True, c_cur := False\<rparr>)"
    by (simp add: cfg_inv_def)
qed

section \<open>Block scalars\<close>

lemma set_file_frame:
  "length (p_files (set_file i f p)) = length (p_files p)"
  "(\<And>e. ef_path (f e) = ef_path e) \<Longrightarrow> map ef_path (p_files (set_file i f p)) = map ef_path (p_files p)"
  "p_name (set_file i f p) = p_name p" "p_url (set_file i f p) = p_url p"
  "p_command (set_file i f p) = p_command p" "p_bin (set_file i f p) = p_bin p"
  "p_write_dirs (set_file i f p) = p_write_dirs p" "p_bin_names (set_file i f p) = p_bin_names p"
  "p_bin_path (set_file i f p) = p_bin_path p" "p_bin_cached (set_file i f p) = p_bin_cached p"
  by (auto simp: set_file_def map_update list_update_same_conv)

lemma building_out:
  assumes "building c" "c_seen_files d = c_seen_files c" "c_bin_default d = c_bin_default c"
    "p_name (c_out d) = p_name (c_out c)" "p_url (c_out d) = p_url (c_out c)"
    "p_command (c_out d) = p_command (c_out c)" "p_bin (c_out d) = p_bin (c_out c)"
    "map ef_path (p_files (c_out d)) = map ef_path (p_files (c_out c))"
    "p_write_dirs (c_out d) = p_write_dirs (c_out c)" "p_bin_names (c_out d) = p_bin_names (c_out c)"
    "p_bin_path (c_out d) = p_bin_path (c_out c)" "p_bin_cached (c_out d) = p_bin_cached (c_out c)"
  shows "building d"
proof -
  have len: "length (p_files (c_out d)) = length (p_files (c_out c))" using assms(8) by (rule map_eq_imp_length_eq)
  have ok: "list_all file_ok fs = list_all valid_file_path (map ef_path fs)" for fs
    by (induction fs) (simp_all add: file_ok_def)
  from len have "p_files (c_out d) = [] \<longleftrightarrow> p_files (c_out c) = []" by (simp flip: length_0_conv)
  then show ?thesis
    using assms(1) len unfolding building_def bounds_ok_def ok by (simp add: assms(2-))
qed

lemma block_line_inv:
  assumes "building c"
  shows "building (block_line c ev) \<and> same_mode c (block_line c ev)"
proof
  show "building (block_line c ev)"
    by (rule building_out [OF assms])
      (auto simp: block_line_def Let_def set_file_frame split: option.split)
  show "same_mode c (block_line c ev)"
    by (simp add: block_line_def Let_def same_mode_def)
qed

lemma block_end_inv:
  assumes "building c"
  shows "building (block_end c) \<and> same_mode c (block_end c)"
proof
  show "building (block_end c)"
    by (rule building_out [OF assms])
      (auto simp: block_end_def Let_def set_file_frame split: option.split)
  show "same_mode c (block_end c)"
    by (simp add: block_end_def Let_def same_mode_def)
qed

lemma block_start_inv:
  assumes "cfg_inv c"
  shows "ensures (block_start c ev) cfg_inv"
  unfolding block_start_def cfg_fail_def
proof (intro hm_vcg)
  fix x d i
  assume a: "c_cur c \<and> c_in_files c" "add_file c (ev_key ev) (ev_line ev) = Inr x" "x = (d, i)"
  with assms have "building c" "c_seen_files c" by (auto simp: cfg_inv_def)
  from ensuresD [OF add_file_inv [OF this] a(2)] a(3) have "building d" "same_mode c d" by auto
  then have "building (d\<lparr>c_block_file := Some i, c_block_kind := 2, c_block_start := None, c_block_end := None\<rparr>)"
      "same_mode c (d\<lparr>c_block_file := Some i, c_block_kind := 2, c_block_start := None, c_block_end := None\<rparr>)"
    by (simp_all add: building_def same_mode_def)
  with assms a(1) show
    "cfg_inv (d\<lparr>c_block_file := Some i, c_block_kind := 2, c_block_start := None, c_block_end := None\<rparr>)"
    by (blast intro: cfg_inv_op)
next
  assume a: "\<not> (c_cur c \<and> c_in_files c)" "c_cur c \<and> hm_str_eq (ev_key ev) ''install''"
  let ?d = "c\<lparr>c_seen_install := True, c_block_kind := 1, c_block_start := None, c_block_end := None\<rparr>"
  have "building c" using assms a by (auto simp: cfg_inv_def)
  then have "building ?d" "same_mode c ?d" by (simp_all add: building_def same_mode_def)
  with assms a show "cfg_inv ?d" by (blast intro: cfg_inv_op)
qed

text \<open>
  Lines and ends of a block touch only the script or a file's text, which no invariant mentions:
  they preserve a finished project too, whatever the order of the events.
\<close>

definition checked :: "hm_project \<Rightarrow> (hm_project_kind \<times> string \<times> string \<times> string \<times> hm_check_kind \<times> string) \<times>
    (string \<times> string \<times> bool \<times> bool) \<times> string list \<times> hm_sandbox_write_dir list \<times> string list" where
  "checked p = ((p_kind p, p_name p, p_url p, p_command p, p_check p, p_version_prefix p),
     (p_bin p, p_bin_path p, p_bin_cached p, p_sandboxed p), map ef_path (p_files p), p_write_dirs p,
     p_bin_names p)"

lemma project_ok_checked: "checked p = checked q \<Longrightarrow> project_ok r p \<Longrightarrow> project_ok r q"
proof -
  assume eq: "checked p = checked q" and ok: "project_ok r p"
  have files: "list_all file_ok fs = list_all valid_file_path (map ef_path fs)" for fs
    by (induction fs) (simp_all add: file_ok_def)
  from eq have eqs: "p_kind p = p_kind q" "p_name p = p_name q" "p_url p = p_url q"
    "p_command p = p_command q" "p_check p = p_check q" "p_version_prefix p = p_version_prefix q"
    "p_bin p = p_bin q" "p_bin_path p = p_bin_path q" "p_bin_cached p = p_bin_cached q"
    "p_sandboxed p = p_sandboxed q" "p_write_dirs p = p_write_dirs q" "p_bin_names p = p_bin_names q"
    by (simp_all only: checked_def prod.inject)
  from eq have m: "map ef_path (p_files p) = map ef_path (p_files q)" by (simp add: checked_def)
  then have len: "length (p_files p) = length (p_files q)" by (rule map_eq_imp_length_eq)
  then have nil: "p_files p = [] \<longleftrightarrow> p_files q = []" by (simp flip: length_0_conv)
  show ?thesis
    using ok unfolding project_ok_def bounds_ok_def kind_ok_def bin_ok_def files m len nil eqs .
qed

lemma set_file_checked:
  "p_kind (set_file i f p) = p_kind p" "p_check (set_file i f p) = p_check p"
  "p_version_prefix (set_file i f p) = p_version_prefix p" "p_sandboxed (set_file i f p) = p_sandboxed p"
  by (simp_all add: set_file_def)

lemma block_line_checked: "checked (c_out (block_line c ev)) = checked (c_out c)"
  by (auto simp: block_line_def Let_def checked_def set_file_frame set_file_checked split: option.split)

lemma block_end_checked: "checked (c_out (block_end c)) = checked (c_out c)"
  by (auto simp: block_end_def Let_def checked_def set_file_frame set_file_checked split: option.split)

lemma cfg_inv_block:
  assumes "cfg_inv c" "same_mode c d" "building c \<Longrightarrow> building d" "checked (c_out d) = checked (c_out c)"
  shows "cfg_inv d"
  using assms project_ok_checked [of "c_out c" "c_out d"] by (auto simp: cfg_inv_def same_mode_def)

section \<open>Every event preserves the invariant\<close>

text \<open>What one step of the loop promises.\<close>

fun step_ok :: "bool \<Rightarrow> cfg_step \<Rightarrow> bool" where
  "step_ok r (Continue c) = (cfg_inv c \<and> c_resolve_paths c = r)"
| "step_ok r (Done p) = project_ok r p"
| "step_ok r (Failed e) = True"

lemma step_ok_lift: "ensures x (\<lambda>d. cfg_inv d \<and> c_resolve_paths d = r) \<Longrightarrow> step_ok r (lift x)"
  by (cases x) (auto simp: ensures_def)

lemma step_ok_op:
  assumes "cfg_inv c" "c_cur c" "ensures x (\<lambda>d. building d \<and> same_mode c d)"
  shows "step_ok (c_resolve_paths c) (lift x)"
  using assms by (intro step_ok_lift) (auto simp: ensures_def same_mode_def intro: cfg_inv_op)

lemma cfg_inv_flags:
  assumes "cfg_inv c" "c_cur d = c_cur c" "c_started d = c_started c" "c_finished d = c_finished c"
    "c_out d = c_out c" "c_resolve_paths d = c_resolve_paths c" "c_bin_default d = c_bin_default c"
    "c_in_files d \<longrightarrow> c_in_files c \<or> c_cur c \<and> c_pending_files c" "c_in_bin_map d \<longrightarrow> c_in_bin_map c \<or> c_cur c"
    "c_pending_files d \<longrightarrow> c_pending_files c \<or> c_seen_files d" "c_seen_files c \<longrightarrow> c_seen_files d"
  shows "cfg_inv d"
  using assms by (auto simp: cfg_inv_def building_def)

lemma on_entry_header_ok: "cfg_inv c \<Longrightarrow> step_ok (c_resolve_paths c) (on_entry_header c ev)"
  unfolding on_entry_header_def fail_at_def
  by (simp del: hm_str_eq_iff split: if_split) (intro conjI impI; rule cfg_inv_flags [of c]; simp)

lemma on_document_start_ok: "cfg_inv c \<Longrightarrow> step_ok (c_resolve_paths c) (on_document_start c ev)"
  by (simp add: on_document_start_def fail_at_def)

lemma on_sequence_start_ok: "cfg_inv c \<Longrightarrow> step_ok (c_resolve_paths c) (on_sequence_start c ev)"
  unfolding on_sequence_start_def fail_at_def
  by (simp del: hm_str_eq_iff split: if_split) (intro conjI impI; rule cfg_inv_flags [of c]; simp)

lemma begin_project_inv:
  assumes "cfg_inv c" "\<not> c_cur c"
  shows "ensures (begin_project c line) (\<lambda>d. cfg_inv d \<and> c_resolve_paths d = c_resolve_paths c)"
  unfolding begin_project_def cfg_fail_def using assms project_defaults_building [of line c]
  by (intro hm_vcg) (auto simp: cfg_inv_def building_def project_defaults_def)

lemma on_mapping_start_ok: "cfg_inv c \<Longrightarrow> step_ok (c_resolve_paths c) (on_mapping_start c ev)"
proof -
  assume inv: "cfg_inv c"
  have "step_ok (c_resolve_paths c) (lift (begin_project c (ev_line ev)))" if "\<not> c_cur c"
    using begin_project_inv [OF inv that] by (rule step_ok_lift)
  then show ?thesis
    using inv unfolding on_mapping_start_def fail_at_def Let_def
    by (simp split: if_split option.split) (intro conjI impI allI; rule cfg_inv_flags [of c]; simp)
qed

lemma finish_project_mode: "ensures (finish_project c) (\<lambda>d. c_resolve_paths d = c_resolve_paths c)"
  unfolding finish_project_def cfg_fail_def by (intro hm_vcg) simp

lemma on_mapping_end_ok: "cfg_inv c \<Longrightarrow> step_ok (c_resolve_paths c) (on_mapping_end c ev)"
proof -
  assume inv: "cfg_inv c"
  consider "c_in_files c" | "\<not> c_in_files c" "c_in_bin_map c" | "\<not> c_in_files c" "\<not> c_in_bin_map c" by blast
  then show ?thesis
  proof cases
    case 1
    then show ?thesis using inv by (simp add: on_mapping_end_def) (rule cfg_inv_flags [of c]; simp)
  next
    case 2
    let ?c = "c\<lparr>c_in_bin_map := False\<rparr>"
    from inv 2 have "cfg_inv ?c" "c_cur ?c" "building c"
      by (auto simp: cfg_inv_def building_def)
    then have "ensures (finish_bin_map c (ev_line ev)) (\<lambda>d. cfg_inv d \<and> c_resolve_paths d = c_resolve_paths c)"
      by (intro ensures_mono [OF finish_bin_map_inv]) (auto simp: same_mode_def intro: cfg_inv_op)
    with 2 show ?thesis by (simp add: on_mapping_end_def step_ok_lift)
  next
    case 3
    then show ?thesis
      using finish_project_inv [OF inv] finish_project_mode [of c]
      by (simp add: on_mapping_end_def) (intro step_ok_lift, simp add: ensures_def)
  qed
qed

lemma on_scalar_ok: "cfg_inv c \<Longrightarrow> step_ok (c_resolve_paths c) (on_scalar c ev)"
proof -
  assume inv: "cfg_inv c"
  show ?thesis
  proof (cases "c_cur c")
    case True
    with inv have "building c" by (simp add: cfg_inv_def)
    note ops = step_ok_op [OF inv True add_sandbox_write_dir_inv [OF this]]
      step_ok_op [OF inv True add_bin_entry_inv [OF this]] step_ok_op [OF inv True apply_field_inv [OF this]]
    show ?thesis by (simp add: on_scalar_def fail_at_def ops)
  qed (simp add: on_scalar_def fail_at_def)
qed

lemma on_event_ok: "cfg_inv c \<Longrightarrow> step_ok (c_resolve_paths c) (on_event c ev)"
proof -
  assume inv: "cfg_inv c"
  have "step_ok (c_resolve_paths c) (lift (block_start c ev))"
  proof (rule step_ok_lift)
    have "ensures (block_start c ev) (\<lambda>d. c_resolve_paths d = c_resolve_paths c)"
      unfolding block_start_def cfg_fail_def add_file_def Let_def
      by (intro hm_vcg) (auto split: if_split_asm)
    with block_start_inv [OF inv] show "ensures (block_start c ev) (\<lambda>d. cfg_inv d \<and> c_resolve_paths d = c_resolve_paths c)"
      by (simp add: ensures_def)
  qed
  moreover have "same_mode c (block_line c ev)" "same_mode c (block_end c)"
    by (simp_all add: block_line_def block_end_def Let_def same_mode_def)
  moreover from this have "cfg_inv (block_line c ev)" "cfg_inv (block_end c)"
    using inv block_line_inv block_end_inv block_line_checked block_end_checked
    by (blast intro: cfg_inv_block)+
  moreover have "c_finished c \<Longrightarrow> project_ok (c_resolve_paths c) (c_out c)"
    using inv by (simp add: cfg_inv_def)
  moreover have "cfg_inv (c\<lparr>c_in_swd := False\<rparr>)" by (rule cfg_inv_flags [of c]) (simp_all add: inv)
  ultimately show ?thesis
    using inv by (simp add: on_event_def fail_at_def on_entry_header_ok on_document_start_ok
        on_sequence_start_ok on_mapping_start_ok on_mapping_end_ok on_scalar_ok same_mode_def
        split: siml_event_type.split)
qed

lemma cfg_run_ok:
  "cfg_inv c \<Longrightarrow> c_resolve_paths c = r \<Longrightarrow> cfg_run c evs = Some (Inr p) \<Longrightarrow> project_ok r p"
proof (induction evs arbitrary: c)
  case Nil
  then show ?case by simp
next
  case (Cons ev evs)
  from on_event_ok [OF Cons.prems(1), of ev] have "step_ok r (on_event c ev)"
    by (simp add: Cons.prems(2))
  with Cons show ?case by (cases "on_event c ev") auto
qed

lemma cfg_inv_init: "cfg_inv (cfg_init buf environ invoked out resolve)"
  by (simp add: cfg_inv_def cfg_init_def)

lemma parsed_project_ok:
  "hm_config_parse buf environ invoked out resolve evs = Some (Inr p) \<Longrightarrow> project_ok resolve p"
  unfolding hm_config_parse_def by (rule cfg_run_ok [OF cfg_inv_init]) (simp_all add: cfg_init_def)

section \<open>Properties\<close>


definition sample_events :: "siml_event list" where
  "sample_events =
     [siml_ev SIML_EVENT_STREAM_START [] [] 0 1, siml_ev SIML_EVENT_DOCUMENT_START [] [] 0 1,
      siml_ev SIML_EVENT_MAPPING_START [] [] 0 1,
      siml_ev SIML_EVENT_SCALAR ''command'' ''make'' 9 1,
      siml_ev SIML_EVENT_MAPPING_ENTRY_HEADER ''files'' [] 0 2,
      siml_ev SIML_EVENT_MAPPING_START [] [] 0 2,
      siml_ev SIML_EVENT_BLOCK_SCALAR_START ''Makefile'' [] 0 3,
      siml_ev SIML_EVENT_BLOCK_SCALAR_LINE [] ''all:'' 2 4,
      siml_ev SIML_EVENT_BLOCK_SCALAR_END [] [] 0 4,
      siml_ev SIML_EVENT_MAPPING_END [] [] 0 4,
      siml_ev SIML_EVENT_SCALAR ''bin-path'' ''out/run'' 9 5,
      siml_ev SIML_EVENT_MAPPING_END [] [] 0 5, siml_ev SIML_EVENT_DOCUMENT_END [] [] 0 5,
      siml_ev SIML_EVENT_STREAM_END [] [] 0 5]"


end
