(* ===== verification/HM_Lines.thy ===== *)
theory HM_Lines
  imports HM_Project
begin

text \<open>
  The line iterator of \<^verbatim>\<open>src/config.c\<close> (\<open>hm_file_next_line\<close>, \<open>hm_install_next_line\<close>). The cursor is
  an offset into the block. The installer, the plan writer and the unpacker all run the same loop
  over it; \<open>collect\<close> is that loop, and the locale \<open>line_source\<close> is what it needs of the iterator.
  The parser's line reader \<open>hm_read_line\<close> is a cursor of the same kind (locale \<open>chunk_source\<close>).
\<close>

section \<open>The iterator\<close>

fun strip_indent :: "nat \<Rightarrow> string \<Rightarrow> string" where
  "strip_indent 0 s = s"
| "strip_indent (Suc n) [] = []"
| "strip_indent (Suc n) (c # s) = (if c = CHR '' '' then strip_indent n s else c # s)"

definition hm_file_next_line :: "hm_embedded_file \<Rightarrow> nat \<Rightarrow> (string \<times> nat) option" where
  "hm_file_next_line f cur =
     (let content = ef_content f; fin = length content
      in if fin = 0 \<or> cur \<ge> fin then None
         else
           (let rest = drop cur content; nl = memchr LF rest;
                eol = (case nl of Some i \<Rightarrow> cur + i | None \<Rightarrow> fin)
            in Some (strip_indent (ef_content_indent f) (take (eol - cur) rest),
                     (case nl of Some i \<Rightarrow> cur + i + 1 | None \<Rightarrow> fin))))"

definition install_block :: "hm_project \<Rightarrow> hm_embedded_file" where
  "install_block p = \<lparr>ef_path = [], ef_content = p_install p, ef_content_indent = p_install_indent p, ef_line = 0\<rparr>"

definition hm_install_next_line :: "hm_project \<Rightarrow> nat \<Rightarrow> (string \<times> nat) option" where
  "hm_install_next_line p cur = hm_file_next_line (install_block p) cur"

section \<open>The loop over it\<close>

fun collect :: "(nat \<Rightarrow> (string \<times> nat) option) \<Rightarrow> nat \<Rightarrow> nat \<Rightarrow> string list" where
  "collect nxt 0 cur = []"
| "collect nxt (Suc k) cur =
     (case nxt cur of None \<Rightarrow> [] | Some (l, cur') \<Rightarrow> l # collect nxt k cur')"

locale chunk_source =
  fixes nxt :: "nat \<Rightarrow> (string \<times> nat) option"
    and bound :: nat
  assumes progress: "nxt cur = Some (l, cur') \<Longrightarrow> cur < cur' \<and> cur' \<le> bound"
begin

lemma at_end: "bound \<le> cur \<Longrightarrow> nxt cur = None"
  using progress [of cur] by (cases "nxt cur") fastforce+

text \<open>The loop ends: any \<open>bound - cur\<close> iterations read everything.\<close>

lemma collect_enough: "bound - cur \<le> k \<Longrightarrow> bound - cur \<le> m \<Longrightarrow> collect nxt k cur = collect nxt m cur"
proof (induction k arbitrary: m cur)
  case 0
  then show ?case by (cases m) (simp_all add: at_end)
next
  case (Suc k)
  show ?case
  proof (cases "nxt cur")
    case None
    then show ?thesis by (cases m) simp_all
  next
    case (Some x)
    then obtain l cur' where x: "nxt cur = Some (l, cur')" by (cases x) auto
    from progress [OF x] have p: "cur < cur'" "cur' \<le> bound" by auto
    with Suc.prems obtain n where m: "m = Suc n" by (cases m) auto
    have "collect nxt k cur' = collect nxt n cur'"
      using Suc.prems p m by (intro Suc.IH) simp_all
    then show ?thesis by (simp add: x m)
  qed
qed

lemma length_collect: "length (collect nxt k cur) \<le> bound - cur"
proof (induction k arbitrary: cur)
  case (Suc k)
  show ?case
  proof (cases "nxt cur")
    case (Some x)
    then obtain l cur' where x: "nxt cur = Some (l, cur')" by (cases x) auto
    from progress [OF x] have "cur < cur'" "cur' \<le> bound" by auto
    with x Suc.IH [of cur'] show ?thesis by simp
  qed simp
qed simp

end

locale line_source = chunk_source +
  assumes one_line: "nxt cur = Some (l, cur') \<Longrightarrow> LF \<notin> set l"
begin

lemma collect_lines: "l \<in> set (collect nxt k cur) \<Longrightarrow> LF \<notin> set l"
proof (induction k arbitrary: cur)
  case (Suc k)
  then show ?case by (cases "nxt cur") (auto dest: one_line)
qed simp

end

lemma set_strip_indent: "set (strip_indent n s) \<subseteq> set s"
  by (induction n s rule: strip_indent.induct) auto

lemma next_line_progress:
  "hm_file_next_line f cur = Some (l, cur') \<Longrightarrow> cur < cur' \<and> cur' \<le> length (ef_content f)"
  by (auto simp: hm_file_next_line_def Let_def dest: memchr_SomeD split: if_split_asm option.split_asm)

lemma next_line_one:
  "hm_file_next_line f cur = Some (l, cur') \<Longrightarrow> LF \<notin> set l"
proof -
  have "LF \<notin> set (strip_indent n s)" if "LF \<notin> set s" for n s using that set_strip_indent [of n s] by blast
  then show "hm_file_next_line f cur = Some (l, cur') \<Longrightarrow> LF \<notin> set l"
    by (auto simp: hm_file_next_line_def Let_def memchr_None dest: memchr_SomeD
        split: if_split_asm option.split_asm)
qed

interpretation file_lines: line_source "hm_file_next_line f" "length (ef_content f)" for f
  by unfold_locales (auto dest: next_line_progress next_line_one)

section \<open>What the loop reads\<close>

text \<open>The lines of a text: the pieces between LFs, without the empty piece behind a final one.\<close>

definition text_lines :: "string \<Rightarrow> string list" where
  "text_lines s =
     (if s = [] then [] else if last (split_on LF s) = [] then butlast (split_on LF s) else split_on LF s)"

definition block_lines :: "hm_embedded_file \<Rightarrow> string list" where
  "block_lines f = map (strip_indent (ef_content_indent f)) (text_lines (ef_content f))"

lemma text_lines_no_sep: "s \<noteq> [] \<Longrightarrow> LF \<notin> set s \<Longrightarrow> text_lines s = [s]"
  by (simp add: text_lines_def split_on_no_sep)

lemma text_lines_sep: "LF \<notin> set a \<Longrightarrow> text_lines (a @ LF # b) = a # text_lines b"
  by (simp add: text_lines_def split_on_append_sep)

lemma collect_text_lines:
  assumes "length (ef_content f) - cur \<le> k"
  shows "collect (hm_file_next_line f) k cur =
         map (strip_indent (ef_content_indent f)) (text_lines (drop cur (ef_content f)))"
  using assms
proof (induction k arbitrary: cur)
  case 0
  then show ?case by (simp add: text_lines_def)
next
  case (Suc k)
  let ?s = "drop cur (ef_content f)"
  show ?case
  proof (cases "memchr LF ?s")
    case None
    then show ?thesis
    proof (cases "cur < length (ef_content f)")
      case True
      with None have n: "hm_file_next_line f cur = Some (strip_indent (ef_content_indent f) ?s, length (ef_content f))"
        by (auto simp: hm_file_next_line_def Let_def)
      have "?s \<noteq> []" "LF \<notin> set ?s" using True None by (auto simp: memchr_None)
      with n Suc.IH [of "length (ef_content f)"] show ?thesis
        by (simp add: text_lines_no_sep) (simp add: text_lines_def)
    next
      case False
      then show ?thesis by (simp add: hm_file_next_line_def text_lines_def)
    qed
  next
    case (Some i)
    note m = memchr_SomeD [OF Some]
    then have lt: "cur + i < length (ef_content f)" by auto
    have n: "hm_file_next_line f cur = Some (strip_indent (ef_content_indent f) (take i ?s), cur + i + 1)"
      using Some lt by (auto simp: hm_file_next_line_def Let_def)
    have "text_lines ?s = take i ?s # text_lines (drop (Suc i) ?s)"
      by (subst memchr_split [OF Some]) (rule text_lines_sep, use m in blast)
    with n Suc.IH [of "cur + i + 1"] Suc.prems lt show ?thesis
      by (simp add: add.commute)
  qed
qed

lemma collect_block_lines: "collect (hm_file_next_line f) (length (ef_content f)) 0 = block_lines f"
  by (simp add: collect_text_lines block_lines_def)

section \<open>The parser's lines\<close>

text \<open>\<^verbatim>\<open>hm_read_line\<close>: the position is the state, a line keeps its LF, the last one may lack it.\<close>

definition hm_read_line :: "string \<Rightarrow> nat \<Rightarrow> (string \<times> nat) option" where
  "hm_read_line buf pos =
     (if pos \<ge> length buf then None
      else (case memchr LF (drop pos buf) of
          None \<Rightarrow> Some (drop pos buf, length buf)
        | Some i \<Rightarrow> Some (take (i + 1) (drop pos buf), pos + (i + 1))))"

lemma read_line_progress:
  "hm_read_line buf pos = Some (l, pos') \<Longrightarrow> pos < pos' \<and> pos' \<le> length buf"
  by (auto simp: hm_read_line_def dest: memchr_SomeD split: if_split_asm option.split_asm)

interpretation read_line: chunk_source "hm_read_line buf" "length buf" for buf
  by unfold_locales (auto dest: read_line_progress)

lemma read_line_split: "hm_read_line buf pos = Some (l, pos') \<Longrightarrow> drop pos buf = l @ drop pos' buf"
proof -
  have "drop pos buf = take n (drop pos buf) @ drop (pos + n) buf" for n
    by (metis append_take_drop_id drop_drop add.commute)
  then show "hm_read_line buf pos = Some (l, pos') \<Longrightarrow> ?thesis"
    by (auto simp del: take_Suc_conv_app_nth add_Suc_right simp: hm_read_line_def
        split: if_split_asm option.split_asm)
qed

lemma collect_read_line:
  "length buf - pos \<le> k \<Longrightarrow> concat (collect (hm_read_line buf) k pos) = drop pos buf"
proof (induction k arbitrary: pos)
  case (Suc k)
  show ?case
  proof (cases "hm_read_line buf pos")
    case None
    then show ?thesis by (auto simp: hm_read_line_def split: if_split_asm option.split_asm)
  next
    case (Some x)
    then obtain l pos' where x: "hm_read_line buf pos = Some (l, pos')" by (cases x) auto
    have "length buf - pos' \<le> k" using read_line_progress [OF x] Suc.prems by auto
    with x read_line_split [OF x] Suc.IH show ?thesis by simp
  qed
qed simp

section \<open>Writing a block and reading it back\<close>

definition indent_line :: "nat \<Rightarrow> string \<Rightarrow> string" where
  "indent_line n l = (if l = [] then [] else replicate n (CHR '' '') @ l)"

fun join_lines :: "string list \<Rightarrow> string" where
  "join_lines [] = []"
| "join_lines [l] = l"
| "join_lines (l # ls) = l @ LF # join_lines ls"

lemma strip_indent_line: "strip_indent n (indent_line n l) = l"
proof -
  have "strip_indent n (replicate n (CHR '' '') @ l) = l" by (induction n) simp_all
  moreover have "strip_indent n [] = []" by (cases n) simp_all
  ultimately show ?thesis by (simp add: indent_line_def)
qed

lemma set_indent_line: "set (indent_line n l) \<subseteq> insert (CHR '' '') (set l)"
  by (auto simp: indent_line_def)

lemma text_lines_join:
  "list_all (\<lambda>l. LF \<notin> set l) ls \<Longrightarrow> ls \<noteq> [] \<Longrightarrow> last ls \<noteq> [] \<Longrightarrow> text_lines (join_lines ls) = ls"
  by (induction ls rule: join_lines.induct) (simp_all add: text_lines_no_sep text_lines_sep)

section \<open>Properties\<close>

text \<open>
  The line iterator undoes the block's indentation exactly. A script or file whose non-empty
  lines were each indented by the block's indentation and joined by newlines is read back, line by
  line, as it was written, lines with further indentation of their own and blank lines included.
\<close>
theorem block_lines_round_trip:
  assumes "list_all (\<lambda>l. LF \<notin> set l) ls" "ls \<noteq> []" "last ls \<noteq> []"
    and "ef_content f = join_lines (map (indent_line (ef_content_indent f)) ls)"
  shows "collect (hm_file_next_line f) (length (ef_content f)) 0 = ls"
proof -
  let ?ind = "indent_line (ef_content_indent f)"
  have "list_all (\<lambda>l. LF \<notin> set l) (map ?ind ls)"
    using assms(1) set_indent_line [of "ef_content_indent f"] by (fastforce simp: list_all_iff)
  moreover have "last (map ?ind ls) \<noteq> []" using assms(2,3) by (simp add: last_map indent_line_def)
  ultimately have "text_lines (ef_content f) = map ?ind ls"
    using assms(2,4) by (simp add: text_lines_join)
  then show ?thesis by (simp add: collect_block_lines block_lines_def strip_indent_line o_def)
qed

theorem block_lines_round_trip_witness:
  "collect (hm_file_next_line \<lparr>ef_path = ''f'', ef_content = ''  if x'' @ LF # LF # ''    y'',
      ef_content_indent = 2, ef_line = 1\<rparr>) 13 0 = [''if x'', [], ''  y'']"
  using block_lines_round_trip [of "[''if x'', [], ''  y'']"
      "\<lparr>ef_path = ''f'', ef_content = ''  if x'' @ LF # LF # ''    y'', ef_content_indent = 2, ef_line = 1\<rparr>"]
  by (simp add: indent_line_def numeral_eq_Suc del: collect.simps)

text \<open>
  The line reader that feeds the parser loses nothing: the lines it delivers, put together, are
  the whole buffer, with or without a newline at its end.
\<close>
theorem read_line_covers_buffer:
  "concat (collect (hm_read_line buf) (length buf) 0) = buf"
  by (simp add: collect_read_line)

end
