(* ===== verification/HM_Bin_Map.thy ===== *)
theory HM_Bin_Map
  imports HM_Config_Inv
begin

text \<open>
  Which path a \<open>bin-path\<close> mapping selects (\<^verbatim>\<open>add_bin_entry\<close>, \<^verbatim>\<open>finish_bin_map\<close>): the entries are
  taken one by one as their events arrive; \<open>add_entries\<close> is that sequence.
\<close>

fun add_entries :: "hm_cfg \<Rightarrow> (string \<times> string) list \<Rightarrow> int \<Rightarrow> cfg_result" where
  "add_entries c [] line = finish_bin_map c line"
| "add_entries c ((name, path) # es) line =
     (case add_bin_entry c name path line of Inl e \<Rightarrow> Inl e | Inr c' \<Rightarrow> add_entries c' es line)"

text \<open>The mapping as the code has it before its first entry.\<close>

definition fresh_map :: "hm_cfg \<Rightarrow> bool" where
  "fresh_map c \<longleftrightarrow> p_bin_names (c_out c) = [] \<and> p_bin_choice (c_out c) = HM_BIN_SINGLE"

text \<open>The entries read so far determine the state.\<close>

definition entries_state :: "(string \<times> string) list \<Rightarrow> hm_cfg \<Rightarrow> bool" where
  "entries_state es c \<longleftrightarrow>
     p_bin_names (c_out c) = map fst es \<and>
     (if es = [] then True else c_bin_default c = snd (hd es)) \<and>
     (case (if c_invoked_name c = [] then None else map_of es (c_invoked_name c)) of
        None \<Rightarrow> p_bin_choice (c_out c) = HM_BIN_SINGLE
      | Some path \<Rightarrow> p_bin_choice (c_out c) = HM_BIN_NAMED \<and> p_bin (c_out c) = path \<and>
          p_bin_name (c_out c) = c_invoked_name c)"

lemma copied_bin_name: "\<not> bad_bin_name name \<Longrightarrow> NUL \<notin> set name \<Longrightarrow> copied (HM_BIN_NAME_MAX + 1) name = name"
  by (rule copied_fits) (simp_all add: bad_bin_name_def)

lemma map_of_snoc:
  "map_of (es @ [(k, v)]) n = (case map_of es n of None \<Rightarrow> (if n = k then Some v else None) | Some w \<Rightarrow> Some w)"
  by (simp add: map_add_def split: option.split)

lemma add_bin_entry_state:
  assumes "add_bin_entry c name path line = Inr d" "entries_state es c" "NUL \<notin> set name"
  shows "entries_state (es @ [(name, path)]) d \<and> c_invoked_name d = c_invoked_name c \<and> name \<notin> fst ` set es"
proof -
  from assms(1) have ok: "\<not> bad_bin_name name" "\<not> list_ex (hm_str_eq_str name) (p_bin_names (c_out c))"
    and d: "d = (if p_bin_names (c_out c) = [] then c\<lparr>c_bin_default := path\<rparr> else c)
      \<lparr>c_out := (if length (c_invoked_name c) > 0 \<and> hm_str_eq_str name (c_invoked_name c)
         then (c_out c)\<lparr>p_bin := path, p_bin_name := c_invoked_name c, p_bin_choice := HM_BIN_NAMED\<rparr>
         else c_out c)\<lparr>p_bin_names := p_bin_names (c_out c) @ [copied (HM_BIN_NAME_MAX + 1) name]\<rparr>\<rparr>"
    by (auto simp: add_bin_entry_def Let_def cfg_fail_def split: if_split_asm)
  from ok(2) assms(2) have new: "name \<notin> fst ` set es" "map_of es name = None"
    by (auto simp: entries_state_def list_ex_iff map_of_eq_None_iff)
  show ?thesis
    using assms(2) new unfolding d
    by (simp add: entries_state_def copied_bin_name [OF ok(1) assms(3), simplified] map_of_snoc
        split: option.split option.split_asm if_split_asm) auto
qed

definition selected :: "string \<Rightarrow> (string \<times> string) list \<Rightarrow> string \<times> string \<times> hm_bin_choice" where
  "selected invoked es =
     (case (if invoked = [] then None else map_of es invoked) of
        Some path \<Rightarrow> (path, invoked, HM_BIN_NAMED)
      | None \<Rightarrow> (snd (hd es), fst (hd es), HM_BIN_DEFAULT))"

lemma finish_bin_map_state:
  assumes "finish_bin_map c line = Inr d" "entries_state es c"
  shows "es \<noteq> [] \<and> p_bin_names (c_out d) = map fst es \<and>
    (p_bin (c_out d), p_bin_name (c_out d), p_bin_choice (c_out d)) = selected (c_invoked_name c) es"
proof -
  from assms have "es \<noteq> []" by (auto simp: finish_bin_map_def entries_state_def cfg_fail_def Let_def)
  with assms show ?thesis
    by (auto simp: finish_bin_map_def entries_state_def cfg_fail_def Let_def selected_def hd_map
        split: option.split_asm if_split_asm)
qed

lemma add_entries_state:
  assumes "add_entries c es line = Inr d" "entries_state fs c" "list_all (\<lambda>(n, p). NUL \<notin> set n) es"
    "distinct (map fst fs)"
  shows "fs @ es \<noteq> [] \<and> distinct (map fst (fs @ es)) \<and> p_bin_names (c_out d) = map fst (fs @ es) \<and>
    (p_bin (c_out d), p_bin_name (c_out d), p_bin_choice (c_out d)) = selected (c_invoked_name c) (fs @ es)"
  using assms
proof (induction c es line arbitrary: fs rule: add_entries.induct)
  case (1 c line)
  then show ?case using finish_bin_map_state by simp
next
  case (2 c name path es line)
  then obtain c' where c': "add_bin_entry c name path line = Inr c'" "add_entries c' es line = Inr d"
    by (auto split: sum.split_asm)
  from 2 have "NUL \<notin> set name" by simp
  note st = add_bin_entry_state [OF c'(1) "2.prems"(2) this]
  with "2.IH" [OF c'(1) c'(2), of "fs @ [(name, path)]"] "2.prems" show ?case by simp
qed

section \<open>Properties\<close>

text \<open>
  C28: A \<open>bin-path\<close> mapping selects by name: when it is accepted, its names are distinct, and the
  entry run is the one named like the invocation, if there is one, and the first entry otherwise
  (reported as the default, so that the caller can ask before running it).
\<close>
theorem bin_map_selects_by_name:
  assumes "add_entries c es line = Inr d" "fresh_map c" "list_all (\<lambda>(n, p). NUL \<notin> set n) es"
  shows "es \<noteq> [] \<and> distinct (map fst es) \<and> p_bin_names (c_out d) = map fst es \<and>
    (p_bin (c_out d), p_bin_name (c_out d), p_bin_choice (c_out d)) = selected (c_invoked_name c) es"
proof -
  have "entries_state [] c" using assms(2) by (simp add: fresh_map_def entries_state_def)
  from add_entries_state [OF assms(1) this assms(3)] show ?thesis by simp
qed

definition sample_cfg :: hm_cfg where
  "sample_cfg = (cfg_init [] [] None (project_defaults 1) True)\<lparr>c_invoked_name := ''bb''\<rparr>"

theorem bin_map_selects_by_name_witness:
  "case add_entries sample_cfg [(''a'', ''x/a''), (''bb'', ''x/b'')] 3 of
     Inl e \<Rightarrow> False
   | Inr d \<Rightarrow> p_bin (c_out d) = ''x/b'' \<and> p_bin_names (c_out d) = [''a'', ''bb'']"
proof -
  have "isl (add_entries sample_cfg [(''a'', ''x/a''), (''bb'', ''x/b'')] 3) = False" by code_simp
  then obtain d where d: "add_entries sample_cfg [(''a'', ''x/a''), (''bb'', ''x/b'')] 3 = Inr d"
    by (cases "add_entries sample_cfg [(''a'', ''x/a''), (''bb'', ''x/b'')] 3") simp_all
  from bin_map_selects_by_name [OF this] show ?thesis
    by (simp only: d sum.case)
      (simp add: fresh_map_def sample_cfg_def cfg_init_def project_defaults_def selected_def)
qed

end
