(* ===== verification/HM_Identity.thy ===== *)
theory HM_Identity
  imports HM_Util
begin

text \<open>
  \<^verbatim>\<open>src/version.c\<close> and \<^verbatim>\<open>src/identity.c\<close>: the version of the running binary and the identity a
  cache record stands for. Parameters: the digest \<open>xxh3\<close> (third-party code), the project version
  string of the build configuration and the value of the self-hash slot (written into the binary
  after linking).
\<close>

section \<open>Definitions\<close>

definition hm_version :: "string \<Rightarrow> ulong \<Rightarrow> string" where
  "hm_version project_version self_hash =
     project_version @ [CHR ''+''] @
     map (\<lambda>i. hex_chars ! unat (drop_bit (60 - 4 * i) self_hash AND 0xF)) [0..<16]"

definition hm_identity_build :: "(string \<Rightarrow> ulong) \<Rightarrow> string \<Rightarrow> string \<Rightarrow> nat \<Rightarrow> string" where
  "hm_identity_build xxh3 version siml cap =
     (if cap < length ''siml:'' + 16 + length '' hacman:'' + length version + 1 then []
      else ''siml:'' @ hm_hash_hex xxh3 siml @ '' hacman:'' @ version)"

section \<open>What an identity determines\<close>

lemma hm_version_eq: "hm_version v h = v @ ''+'' @ hex64 h"
  by (simp add: hm_version_def hex64_def)

lemma length_hm_version: "length (hm_version v h) = length v + 17"
  by (simp add: hm_version_eq)

lemma hm_version_inj: "hm_version v g = hm_version w h \<Longrightarrow> v = w \<and> g = h"
  by (auto simp: hm_version_eq dest: hex64_inj)

lemma hex_chars_plain: "c \<in> set hex_chars \<Longrightarrow> c \<noteq> NUL \<and> c \<noteq> LF \<and> c \<noteq> TAB \<and> c \<noteq> CR"
  by (auto simp: hex_chars_def)

lemma hex64_plain: "c \<in> {NUL, LF, TAB, CR} \<Longrightarrow> c \<notin> set (hex64 h)"
  using set_hex64 [of h] hex_chars_plain by blast

lemma identity_fits:
  assumes "length version + 29 < cap"
  shows "hm_identity_build xxh3 version siml cap = ''siml:'' @ hex64 (xxh3 siml) @ '' hacman:'' @ version"
  using assms by (simp add: hm_identity_build_def hm_hash_hex_def)

text \<open>An identity is one line of at most \<open>cap - 1\<close> bytes: it fits the record's first line.\<close>

lemma length_identity: "0 < cap \<Longrightarrow> length (hm_identity_build xxh3 version siml cap) < cap"
  by (auto simp: hm_identity_build_def hm_hash_hex_def)

lemma identity_one_line:
  assumes "NUL \<notin> set version" "LF \<notin> set version"
  shows "NUL \<notin> set (hm_identity_build xxh3 version siml cap)"
    and "LF \<notin> set (hm_identity_build xxh3 version siml cap)"
  using assms by (auto simp: hm_identity_build_def hm_hash_hex_def hex64_plain)

section \<open>Properties\<close>

text \<open>
  An identity is never shortened: two identities built into a buffer that holds them are equal
  only if the digests of the two project files are equal, the project versions are equal and the
  two binaries have the same self digest.
\<close>
theorem identity_separates_files_and_builds:
  assumes "length v + 46 < cap" "length w + 46 < cap"
  shows "hm_identity_build xxh3 (hm_version v g) siml cap = hm_identity_build xxh3 (hm_version w h) siml' cap
           \<longleftrightarrow> xxh3 siml = xxh3 siml' \<and> v = w \<and> g = h"
proof -
  have "hm_identity_build xxh3 (hm_version v g) siml cap =
      ''siml:'' @ hex64 (xxh3 siml) @ '' hacman:'' @ hm_version v g"
    "hm_identity_build xxh3 (hm_version w h) siml' cap =
      ''siml:'' @ hex64 (xxh3 siml') @ '' hacman:'' @ hm_version w h"
    using assms by (simp_all add: identity_fits length_hm_version)
  then show ?thesis by (auto dest: hex64_inj hm_version_inj)
qed

theorem identity_separates_files_and_builds_witness:
  "hm_identity_build (\<lambda>s. of_nat (length s)) (hm_version ''1.0'' 7) ''a'' 128 \<noteq>
   hm_identity_build (\<lambda>s. of_nat (length s)) (hm_version ''1.0'' 7) ''ab'' 128"
  by (subst identity_separates_files_and_builds) simp_all

end
