(* ===== verification/HM_Record.thy ===== *)
theory HM_Record
  imports HM_Output HM_Project HM_Env HM_Identity
begin

text \<open>
  The record half of \<^verbatim>\<open>src/cache.c\<close>: where a project's record lives, what it looks like, and
  reading it back. \<open>hm_cache\<close> is the structure of the same name with its \<open>char\<close> arrays as C
  strings. A record file is its bytes; how \<open>read(2)\<close> chunks them is a schedule.
\<close>

record hm_cache =
  k_key :: string
  k_identity :: string
  k_path :: string
  k_workdir :: string
  k_mark :: string
  k_last_check :: int
  k_last_change :: int
  k_known :: bool

definition cache_magic :: string where
  "cache_magic = ''#hacman-cache 1 ''"

section \<open>Bounded appending\<close>

text \<open>The three loops leave room for a terminating NUL: they stop at \<open>cap - 1\<close> bytes.\<close>

fun append_clean :: "nat \<Rightarrow> string \<Rightarrow> string \<Rightarrow> string" where
  "append_clean cap dst [] = dst"
| "append_clean cap dst (c # s) =
     (if length dst + 1 < cap
      then append_clean cap (dst @ [if c = TAB \<or> c = LF \<or> c = CR then CHR '' '' else c]) s
      else dst)"

fun append_str :: "nat \<Rightarrow> string \<Rightarrow> string \<Rightarrow> string" where
  "append_str cap dst [] = dst"
| "append_str cap dst (c # s) =
     (if c \<noteq> NUL \<and> length dst + 1 < cap then append_str cap (dst @ [c]) s else dst)"

definition append_long :: "nat \<Rightarrow> string \<Rightarrow> int \<Rightarrow> string" where
  "append_long cap dst v =
     dst @ take (cap - 1 - length dst) (rev (digits_rev 24 (if v < 0 then 0 else nat v)))"

definition clean :: "string \<Rightarrow> string" where
  "clean s = map (\<lambda>c. if c = TAB \<or> c = LF \<or> c = CR then CHR '' '' else c) s"

lemma append_str_eq: "append_str cap dst s = dst @ take (cap - 1 - length dst) (cstr s)"
proof (induction cap dst s rule: append_str.induct)
  case (1 cap dst)
  then show ?case by simp
next
  case (2 cap dst c s)
  show ?case
  proof (cases "c \<noteq> NUL \<and> length dst + 1 < cap")
    case True
    then obtain n where "cap - 1 - length dst = Suc n" "cap - 1 - Suc (length dst) = n"
      by (cases "cap - 1 - length dst") auto
    with 2 True show ?thesis by (simp add: cstr_Cons)
  next
    case False
    then show ?thesis by (auto simp: cstr_Cons)
  qed
qed

lemma append_clean_eq: "append_clean cap dst s = dst @ take (cap - 1 - length dst) (clean s)"
proof (induction cap dst s rule: append_clean.induct)
  case (1 cap dst)
  then show ?case by (simp add: clean_def)
next
  case (2 cap dst c s)
  show ?case
  proof (cases "length dst + 1 < cap")
    case True
    then obtain n where "cap - 1 - length dst = Suc n" "cap - 1 - Suc (length dst) = n"
      by (cases "cap - 1 - length dst") auto
    with 2 True show ?thesis by (simp add: clean_def)
  next
    case False
    then show ?thesis by simp
  qed
qed

lemma append_str_fits: "length dst + length s < cap \<Longrightarrow> NUL \<notin> set s \<Longrightarrow> append_str cap dst s = dst @ s"
  by (simp add: append_str_eq)

lemma length_append_str: "length dst < cap \<Longrightarrow> length (append_str cap dst s) < cap"
  by (auto simp: append_str_eq)

text \<open>\<open>append_long\<close> is a decimal printer; negative times print as 0.\<close>

interpretation append_long: decimal_printer "\<lambda>v. append_long 32 [] (int v)" "2 ^ 64"
proof unfold_locales
  fix v :: nat
  assume v: "v < 2 ^ 64"
  then have "length (dec v) \<le> 20" by (rule length_dec_20)
  with v show "append_long 32 [] (int v) = dec v" by (simp add: append_long_def digits24_dec)
qed

lemma append_long_fits:
  assumes "0 \<le> v" "v < 2 ^ 63" "length dst + 20 < cap"
  shows "append_long cap dst v = dst @ dec (nat v)"
proof -
  have "nat v < 2 ^ 64" using assms(1,2) by simp
  moreover from this have "length (dec (nat v)) \<le> 20" by (rule length_dec_20)
  ultimately show ?thesis using assms(1,3) by (simp add: append_long_def digits24_dec)
qed

section \<open>Where the cache is\<close>

text \<open>\<open>cwd\<close> is what \<open>getcwd\<close> gives: \<open>None\<close> when it fails or does not fit its buffer.\<close>

definition absolute_cache_dir :: "string option \<Rightarrow> string \<Rightarrow> string" where
  "absolute_cache_dir cwd dir =
     (if dir \<noteq> [] \<and> dir ! 0 = SLASH then dir
      else (case cwd of
          None \<Rightarrow> dir
        | Some w \<Rightarrow>
            if length w + 1 + length dir > HM_PATH_MAX then dir
            else append_str (HM_PATH_MAX + 1) (append_str (HM_PATH_MAX + 1)
                   (append_str (HM_PATH_MAX + 1) [] w) ''/'') dir))"

definition hm_cache_dir :: "string option \<Rightarrow> string list \<Rightarrow> string option \<Rightarrow> string option" where
  "hm_cache_dir cwd environ override =
     (case override of
        Some (c # cs) \<Rightarrow> Some (absolute_cache_dir cwd (c # cs))
      | _ \<Rightarrow>
        (case env_cache (hm_env_get environ) of
           Some (c # cs) \<Rightarrow> Some (absolute_cache_dir cwd (c # cs))
         | _ \<Rightarrow>
           (case env_home (hm_env_get environ) of
              Some (c # cs) \<Rightarrow>
                Some (absolute_cache_dir cwd
                  (append_str (HM_PATH_MAX + 1) (append_str (HM_PATH_MAX + 1) [] (c # cs)) ''/.cache/hacman''))
            | _ \<Rightarrow> None)))"

definition hm_cache_init ::
  "(string \<Rightarrow> ulong) \<Rightarrow> hm_project \<Rightarrow> string \<Rightarrow> string option \<Rightarrow> string \<Rightarrow> hm_cache" where
  "hm_cache_init xxh3 p dir source_path identity =
     (let app = (\<lambda>cap parts. foldl (append_str cap) [] parts);
          ident = app (HM_IDENTITY_MAX + 1) [identity];
          hash = (case source_path of
              Some sp \<Rightarrow> if length (p_files p) > 0 then hm_hash_hex xxh3 sp else hm_hash_hex xxh3 ident
            | None \<Rightarrow> hm_hash_hex xxh3 ident);
          key = app (HM_KEY_MAX + 1) [if p_kind p = HM_KIND_COMMAND then ''cmd-'' else ''url-'', hash]
      in \<lparr>k_key = key, k_identity = ident, k_path = app (HM_PATH_MAX + 1) [dir, ''/'', key],
          k_workdir = app (HM_PATH_MAX + 1) [dir, ''/'', key, ''.work''], k_mark = [],
          k_last_check = 0, k_last_change = 0, k_known = False\<rparr>)"

definition address :: "(string \<Rightarrow> ulong) \<Rightarrow> hm_project \<Rightarrow> string option \<Rightarrow> string \<Rightarrow> ulong" where
  "address xxh3 p source_path identity =
     (case source_path of
        Some sp \<Rightarrow> if p_files p \<noteq> [] then xxh3 sp else xxh3 identity
      | None \<Rightarrow> xxh3 identity)"

lemma cache_init_identity:
  assumes "NUL \<notin> set identity" "length identity \<le> HM_IDENTITY_MAX"
  shows "k_identity (hm_cache_init xxh3 p dir source_path identity) = identity"
  using assms by (simp add: hm_cache_init_def Let_def append_str_fits)

lemma cache_init_key:
  assumes "NUL \<notin> set identity" "length identity \<le> HM_IDENTITY_MAX"
  shows "k_key (hm_cache_init xxh3 p dir source_path identity) =
    (if p_kind p = HM_KIND_COMMAND then ''cmd-'' else ''url-'') @ hex64 (address xxh3 p source_path identity)"
proof -
  have "NUL \<notin> set (hex64 h)" for h by (simp add: hex64_plain)
  with assms show ?thesis
    by (auto simp: hm_cache_init_def Let_def append_str_fits hm_hash_hex_def address_def hm_limits
        split: option.split)
qed

lemma cache_init_paths:
  fixes xxh3 p dir source_path identity
  defines "c \<equiv> hm_cache_init xxh3 p dir source_path identity"
  assumes "NUL \<notin> set identity" "length identity \<le> HM_IDENTITY_MAX" "NUL \<notin> set dir"
    and "length dir + 26 \<le> HM_PATH_MAX"
  shows "k_path c = dir @ ''/'' @ k_key c" "k_workdir c = dir @ ''/'' @ k_key c @ ''.work''"
proof -
  have key: "length (k_key c) = 20" "NUL \<notin> set (k_key c)"
    using cache_init_key [OF assms(2,3)] by (auto simp: c_def hex64_plain)
  have "k_path c = foldl (append_str (HM_PATH_MAX + 1)) [] [dir, ''/'', k_key c]"
    "k_workdir c = foldl (append_str (HM_PATH_MAX + 1)) [] [dir, ''/'', k_key c, ''.work'']"
    by (simp_all add: c_def hm_cache_init_def Let_def)
  with key assms(4,5) show "k_path c = dir @ ''/'' @ k_key c" "k_workdir c = dir @ ''/'' @ k_key c @ ''.work''"
    by (simp_all add: append_str_fits)
qed

section \<open>Reading a record\<close>

definition next_field :: "string \<Rightarrow> string \<times> string" where
  "next_field s = (takeWhile (\<lambda>c. c \<noteq> TAB) s, drop 1 (dropWhile (\<lambda>c. c \<noteq> TAB) s))"

definition parse_epoch :: "string \<Rightarrow> int" where
  "parse_epoch s = (case hm_parse_ulong s of None \<Rightarrow> 0 | Some v \<Rightarrow> sint v)"

definition two_lines :: "string \<Rightarrow> bool" where
  "two_lines buf =
     (case memchr LF buf of None \<Rightarrow> False | Some i \<Rightarrow> memchr LF (drop (Suc i) buf) \<noteq> None)"

text \<open>The read loop: it also stops early, once two complete lines are there.\<close>

function load_loop :: "read_choice list \<Rightarrow> string \<Rightarrow> string \<Rightarrow> string option" where
  "load_loop sched data buf =
     (case kernel_read sched (HM_RECORD_MAX - length buf - 1) data of
        (RFail, r) \<Rightarrow> None
      | (RIntr, r) \<Rightarrow> load_loop r data buf
      | (RGot n, r) \<Rightarrow>
          (if n = 0 then Some buf
           else (let buf' = buf @ take n data
                 in if length buf' + 1 \<ge> HM_RECORD_MAX then Some buf'
                    else if two_lines buf' then Some buf'
                    else load_loop r (drop n data) buf')))"
  by pat_completeness auto
termination
  by (relation "measure (\<lambda>(sched, data, buf). length sched + length data)")
     (auto dest: kernel_read_intr [OF sym] kernel_read_got [OF sym])

declare load_loop.simps [simp del]

text \<open>What the buffer says about a record of this identity: times and mark, or nothing.\<close>

definition parse_record :: "string \<Rightarrow> string \<Rightarrow> (int \<times> int \<times> string) option" where
  "parse_record identity buf =
     (case memchr LF buf of
        None \<Rightarrow> None
      | Some i \<Rightarrow>
          (let line = take i buf
           in if length line < length cache_magic \<or> take (length cache_magic) line \<noteq> cache_magic then None
              else if drop (length cache_magic) line \<noteq> identity then None
              else
                (let rest = drop (Suc i) buf;
                     line2 = (case memchr LF rest of None \<Rightarrow> rest | Some j \<Rightarrow> take j rest);
                     (checked, r1) = next_field line2;
                     (changed, r2) = next_field r1;
                     (mark, r3) = next_field r2
                 in Some (parse_epoch checked, parse_epoch changed, copied (HM_MARK_MAX + 1) mark))))"

datatype open_result = Opened string | OpenNoEnt | OpenError

text \<open>\<open>None\<close> is the error return; an absent or foreign record leaves the cleared state.\<close>

definition clear_record :: "hm_cache \<Rightarrow> hm_cache" where
  "clear_record c = c\<lparr>k_mark := [], k_last_check := 0, k_last_change := 0, k_known := False\<rparr>"

definition set_record :: "hm_cache \<Rightarrow> (int \<times> int \<times> string) option \<Rightarrow> hm_cache" where
  "set_record c r =
     (case r of
        None \<Rightarrow> clear_record c
      | Some (checked, changed, mark) \<Rightarrow>
          (clear_record c)\<lparr>k_last_check := checked, k_last_change := changed, k_mark := mark, k_known := True\<rparr>)"

definition hm_cache_load :: "open_result \<Rightarrow> read_choice list \<Rightarrow> hm_cache \<Rightarrow> hm_cache option" where
  "hm_cache_load opened sched c =
     (case opened of
        OpenNoEnt \<Rightarrow> Some (clear_record c)
      | OpenError \<Rightarrow> None
      | Opened data \<Rightarrow>
          (case load_loop sched data [] of
             None \<Rightarrow> None
           | Some buf \<Rightarrow> Some (set_record c (parse_record (k_identity c) buf))))"

lemma memchr_append_Some: "memchr c a = Some i \<Longrightarrow> memchr c (a @ b) = Some i"
  by (induction a arbitrary: i) (auto split: if_split_asm)

lemma parse_record_prefix:
  assumes "two_lines a"
  shows "parse_record identity (a @ b) = parse_record identity a"
proof -
  from assms obtain i j where i: "memchr LF a = Some i" and j: "memchr LF (drop (Suc i) a) = Some j"
    by (auto simp: two_lines_def split: option.split_asm)
  from memchr_SomeD [OF i] have "i < length a" by simp
  then have d: "drop (Suc i) (a @ b) = drop (Suc i) a @ b" "take i (a @ b) = take i a" by simp_all
  from memchr_SomeD [OF j] have "j < length (drop (Suc i) a)" by simp
  then have "take j (drop (Suc i) a @ b) = take j (drop (Suc i) a)" by simp
  then show ?thesis
    by (simp only: parse_record_def Let_def memchr_append_Some [OF i] memchr_append_Some [OF j] i j d option.case)
qed

text \<open>However the kernel chunks the reads, the loop's buffer parses like the (bounded) file.\<close>

lemma load_loop_parse:
  "RdErr \<notin> set sched \<Longrightarrow> length buf + 1 < HM_RECORD_MAX \<Longrightarrow>
   \<exists>buf'. load_loop sched data buf = Some buf' \<and>
     parse_record identity buf' = parse_record identity (buf @ take (HM_RECORD_MAX - 1 - length buf) data)"
proof (induction sched data buf rule: load_loop.induct)
  case (1 sched data buf)
  let ?room = "HM_RECORD_MAX - length buf - 1"
  obtain res r where k: "kernel_read sched ?room data = (res, r)" by fastforce
  note ok = kernel_read_no_err [OF k "1.prems"(1)]
  show ?case
  proof (cases res)
    case RFail
    with ok show ?thesis by simp
  next
    case RIntr
    then show ?thesis
      using 1 k ok by (simp add: load_loop.simps [of sched])
  next
    case (RGot n)
    note n = kernel_read_got [OF k [unfolded RGot]]
    have whole: "buf @ take (HM_RECORD_MAX - 1 - length buf) data =
        (buf @ take n data) @ take (HM_RECORD_MAX - 1 - length (buf @ take n data)) (drop n data)"
    proof -
      have "take ?room data = take n data @ take (?room - n) (drop n data)"
        using n by (metis le_add_diff_inverse take_add)
      moreover have "length (take n data) = n" using n by simp
      ultimately show ?thesis by (simp add: diff_commute)
    qed
    show ?thesis
    proof (cases "n = 0")
      case True
      with n "1.prems"(2) have "data = []" by auto
      with k RGot True show ?thesis by (simp add: load_loop.simps [of sched])
    next
      case False
      show ?thesis
      proof (cases "length (buf @ take n data) + 1 \<ge> HM_RECORD_MAX")
        case True
        with k RGot False n have "load_loop sched data buf = Some (buf @ take n data)"
          by (simp add: load_loop.simps [of sched] Let_def)
        moreover have "HM_RECORD_MAX - 1 - length (buf @ take n data) = 0" using True by linarith
        ultimately show ?thesis unfolding whole by simp
      next
        case room: False
        show ?thesis
        proof (cases "two_lines (buf @ take n data)")
          case True
          with k RGot False room n have "load_loop sched data buf = Some (buf @ take n data)"
            by (simp add: load_loop.simps [of sched] Let_def)
          then show ?thesis unfolding whole by (simp only: parse_record_prefix [OF True]) blast
        next
          case two: False
          have "load_loop sched data buf = load_loop r (drop n data) (buf @ take n data)"
            using k RGot False room n two by (simp add: load_loop.simps [of sched] Let_def)
          moreover have "\<exists>buf'. load_loop r (drop n data) (buf @ take n data) = Some buf' \<and>
              parse_record identity buf' = parse_record identity ((buf @ take n data) @
                take (HM_RECORD_MAX - 1 - length (buf @ take n data)) (drop n data))"
            by (rule "1.IH"(1) [OF k [symmetric] RGot False refl]) (use ok room two in auto)
          ultimately show ?thesis unfolding whole by simp
        qed
      qed
    qed
  qed
qed

section \<open>Properties\<close>

text \<open>
  C33: Where a record lives is decided by the kind of project and one digest: of the input path for
  a project with embedded files read from a file, of the identity otherwise. Two projects share a
  record exactly when they agree on both, and the record and work directory are the siblings
  \<open>DIR/KEY\<close> and \<open>DIR/KEY.work\<close> when the cache directory leaves room for the names.
\<close>
theorem cache_address_separates:
  assumes "NUL \<notin> set i" "length i \<le> HM_IDENTITY_MAX" "NUL \<notin> set j" "length j \<le> HM_IDENTITY_MAX"
    and "NUL \<notin> set dir" "length dir + 26 \<le> HM_PATH_MAX"
  shows "(k_path (hm_cache_init xxh3 p dir sp i) = k_path (hm_cache_init xxh3 q dir sq j) \<longleftrightarrow>
           p_kind p = p_kind q \<and> address xxh3 p sp i = address xxh3 q sq j) \<and>
    k_path (hm_cache_init xxh3 p dir sp i) = dir @ ''/'' @ k_key (hm_cache_init xxh3 p dir sp i) \<and>
    k_workdir (hm_cache_init xxh3 p dir sp i) =
      dir @ ''/'' @ k_key (hm_cache_init xxh3 p dir sp i) @ ''.work''"
proof -
  note pi = cache_init_paths [OF assms(1,2,5,6), of xxh3 p sp]
    and qj = cache_init_paths [OF assms(3,4,5,6), of xxh3 q sq]
  have "k_path (hm_cache_init xxh3 p dir sp i) = k_path (hm_cache_init xxh3 q dir sq j) \<longleftrightarrow>
      k_key (hm_cache_init xxh3 p dir sp i) = k_key (hm_cache_init xxh3 q dir sq j)"
    by (simp add: pi qj)
  moreover have "p_kind p = p_kind q \<longleftrightarrow> (p_kind p = HM_KIND_COMMAND) = (p_kind q = HM_KIND_COMMAND)"
    by (cases "p_kind p"; cases "p_kind q") simp_all
  ultimately have "k_path (hm_cache_init xxh3 p dir sp i) = k_path (hm_cache_init xxh3 q dir sq j) \<longleftrightarrow>
      p_kind p = p_kind q \<and> address xxh3 p sp i = address xxh3 q sq j"
    by (auto simp: cache_init_key [OF assms(1,2)] cache_init_key [OF assms(3,4)] dest: hex64_inj)
  with pi show ?thesis by simp
qed

theorem cache_address_separates_witness:
  "k_path (hm_cache_init (\<lambda>s. of_nat (length s)) (project_defaults 1) ''/c'' None ''ab'') \<noteq>
   k_path (hm_cache_init (\<lambda>s. of_nat (length s)) (project_defaults 1) ''/c'' None ''abc'')"
  using cache_address_separates [of "''ab''" "''abc''" "''/c''" "\<lambda>s. of_nat (length s)"
      "project_defaults 1" None "project_defaults 1" None]
  by (auto simp: hm_limits address_def)

text \<open>
  C34: A cache directory name of 1023 bytes or more leaves no room for the key: the record path and
  the work directory both become the first 1023 bytes of the directory name, whatever the project.
  Every project then has one record file and one work directory, which is a prefix of the name of
  the cache directory itself, and resetting the work directory would remove that tree.
\<close>
theorem long_cache_dir_loses_key:
  assumes "NUL \<notin> set dir" "HM_PATH_MAX \<le> length dir"
  shows "k_path (hm_cache_init xxh3 p dir sp i) = take HM_PATH_MAX dir \<and>
    k_workdir (hm_cache_init xxh3 p dir sp i) = take HM_PATH_MAX dir"
proof -
  have 1: "append_str (Suc HM_PATH_MAX) [] dir = take HM_PATH_MAX dir" using assms by (simp add: append_str_eq)
  have 2: "append_str (Suc HM_PATH_MAX) (take HM_PATH_MAX dir) s = take HM_PATH_MAX dir" for s
    using assms(2) by (simp add: append_str_eq)
  show ?thesis unfolding hm_cache_init_def Let_def by (simp add: 1 2 del: append_str.simps)
qed

theorem long_cache_dir_loses_key_witness:
  "k_workdir (hm_cache_init (\<lambda>_. 0) (project_defaults 1) (SLASH # replicate 1100 (CHR ''d'')) None ''i'') = SLASH # replicate 1022 (CHR ''d'')"
  using long_cache_dir_loses_key [of "SLASH # replicate 1100 (CHR ''d'')" "\<lambda>_. 0" "project_defaults 1" None "''i''"]
  by (simp add: hm_limits take_Cons' del: replicate.simps)

end
