(* ===== verification/HM_Store.thy ===== *)
theory HM_Store
  imports HM_Record
begin

text \<open>
  Saving records (\<^verbatim>\<open>hm_cache_save\<close> of \<^verbatim>\<open>src/cache.c\<close>) on the part of the file system it touches:
  \<open>cf_files\<close> maps paths to contents, \<open>cf_mkdirs\<close> is the sequence of \<open>mkdir\<close> calls issued (their
  results are ignored by the code). What the kernel does at each call is a \<open>save_env\<close>. The locale
  \<open>atomic_store\<close> is what the rest of the program relies on; the record store is its instance.
\<close>

record cache_fs =
  cf_files :: "string \<Rightarrow> string option"
  cf_mkdirs :: "string list"

record save_env =
  sv_pid :: int
  sv_open_ok :: bool
  sv_writes :: "write_choice list"
  sv_rename_ok :: bool

section \<open>Directories\<close>

fun last_slash :: "string \<Rightarrow> nat \<Rightarrow> nat" where
  "last_slash path 0 = 0"
| "last_slash path (Suc n) = (if path ! n \<noteq> SLASH then last_slash path n else Suc n)"

text \<open>The directory portion of a path, without its slash.\<close>

definition cache_parent :: "string \<Rightarrow> string" where
  "cache_parent path = take (min (last_slash path (length path) - 1) HM_PATH_MAX) path"

text \<open>\<^verbatim>\<open>mkdir_p\<close>: the paths it calls \<open>mkdir\<close> with, in order.\<close>

definition mkdir_p :: "string \<Rightarrow> string list" where
  "mkdir_p path =
     (let tmp = take HM_PATH_MAX path
      in map (\<lambda>i. take i tmp) (filter (\<lambda>i. tmp ! i = SLASH) [1..<length tmp]) @ [tmp])"

section \<open>Writing a record\<close>

definition record_text :: "hm_cache \<Rightarrow> string" where
  "record_text c =
     (let cap = HM_RECORD_MAX;
          o1 = append_str cap [] cache_magic;
          o2 = append_str cap o1 (k_identity c);
          o3 = append_str cap o2 [LF];
          o4 = append_long cap o3 (k_last_check c);
          o5 = append_str cap o4 [TAB];
          o6 = append_long cap o5 (k_last_change c);
          o7 = append_str cap o6 [TAB];
          o8 = append_clean cap o7 (cstr (k_mark c))
      in append_str cap o8 [LF])"

definition tmp_path :: "save_env \<Rightarrow> string \<Rightarrow> string" where
  "tmp_path e path =
     append_long (HM_PATH_MAX + 32) (append_str (HM_PATH_MAX + 32)
       (append_str (HM_PATH_MAX + 32) [] path) ''.tmp.'') (sv_pid e)"

text \<open>The write loop: what is in the file when it ends, and whether it got everything there.\<close>

fun save_write :: "write_choice list \<Rightarrow> string \<Rightarrow> string \<Rightarrow> bool \<times> string" where
  "save_write [] rest content = (True, content @ rest)"
| "save_write (WrUpTo n # r) rest content =
     (if rest = [] then (True, content)
      else save_write r (drop (Suc n) rest) (content @ take (Suc n) rest))"
| "save_write (WrIntr # r) rest content =
     (if rest = [] then (True, content) else save_write r rest content)"
| "save_write (WrErr # r) rest content = (rest = [], content)"

definition hm_cache_save :: "save_env \<Rightarrow> hm_cache \<Rightarrow> cache_fs \<Rightarrow> bool \<times> cache_fs" where
  "hm_cache_save e c fs =
     (let tmp = tmp_path e (k_path c);
          fs1 = (if length (k_path c) > 1
                 then fs\<lparr>cf_mkdirs := cf_mkdirs fs @ mkdir_p (cache_parent (k_path c))\<rparr> else fs)
      in if \<not> sv_open_ok e then (False, fs1)
         else
           (let (ok, content) = save_write (sv_writes e) (record_text c) [];
                fs2 = fs1\<lparr>cf_files := (cf_files fs1)(tmp \<mapsto> content)\<rparr>
            in if \<not> ok then (False, fs2\<lparr>cf_files := (cf_files fs2)(tmp := None)\<rparr>)
               else if \<not> sv_rename_ok e then (False, fs2\<lparr>cf_files := (cf_files fs2)(tmp := None)\<rparr>)
               else (True, fs2\<lparr>cf_files := (cf_files fs2)(k_path c := cf_files fs2 tmp, tmp := None)\<rparr>)))"

section \<open>The record's text\<close>

text \<open>What a record in memory has to satisfy to be representable.\<close>

definition cache_wf :: "hm_cache \<Rightarrow> bool" where
  "cache_wf c \<longleftrightarrow>
     NUL \<notin> set (k_identity c) \<and> LF \<notin> set (k_identity c) \<and> length (k_identity c) \<le> HM_IDENTITY_MAX \<and>
     NUL \<notin> set (k_mark c) \<and> length (k_mark c) \<le> HM_MARK_MAX \<and>
     0 \<le> k_last_check c \<and> k_last_check c < 2 ^ 63 \<and> 0 \<le> k_last_change c \<and> k_last_change c < 2 ^ 63 \<and>
     NUL \<notin> set (k_path c) \<and> length (k_path c) \<le> HM_PATH_MAX"

lemma clean_plain: "c \<in> {TAB, LF, CR} \<Longrightarrow> c \<notin> set (clean s)"
  by (auto simp: clean_def)

lemma length_clean [simp]: "length (clean s) = length s"
  by (simp add: clean_def)

lemma clean_id: "set s \<inter> {TAB, LF, CR} = {} \<Longrightarrow> clean s = s"
  by (induction s) (auto simp: clean_def)

lemma length_dec_time: "0 \<le> v \<Longrightarrow> v < 2 ^ 63 \<Longrightarrow> length (dec (nat v)) \<le> 20"
  by (rule length_dec_20) simp

lemma record_text_eq:
  assumes "cache_wf c"
  shows "record_text c = cache_magic @ k_identity c @ LF # dec (nat (k_last_check c)) @
           TAB # dec (nat (k_last_change c)) @ TAB # clean (k_mark c) @ [LF]"
proof -
  note wf = assms [unfolded cache_wf_def hm_limits]
  let ?d1 = "dec (nat (k_last_check c))" and ?d2 = "dec (nat (k_last_change c))"
  have len: "length ?d1 \<le> 20" "length ?d2 \<le> 20" using wf by (simp_all add: length_dec_time)
  have m: "length cache_magic = 16" "NUL \<notin> set cache_magic" by (simp_all add: cache_magic_def)
  have 1: "append_str 4096 [] cache_magic = cache_magic"
    using m by (simp add: append_str_fits)
  have 2: "append_str 4096 cache_magic (k_identity c) = cache_magic @ k_identity c"
    by (rule append_str_fits) (use wf m in auto)
  have 3: "append_str 4096 (cache_magic @ k_identity c) [LF] = cache_magic @ k_identity c @ [LF]"
    by (subst append_str_fits) (use wf m in auto)
  have 4: "append_long 4096 (cache_magic @ k_identity c @ [LF]) (k_last_check c) =
      cache_magic @ k_identity c @ [LF] @ ?d1"
    by (subst append_long_fits) (use wf m in auto)
  have 5: "append_str 4096 (cache_magic @ k_identity c @ [LF] @ ?d1) [TAB] =
      cache_magic @ k_identity c @ [LF] @ ?d1 @ [TAB]"
    by (subst append_str_fits) (use wf m len in auto)
  have 6: "append_long 4096 (cache_magic @ k_identity c @ [LF] @ ?d1 @ [TAB]) (k_last_change c) =
      cache_magic @ k_identity c @ [LF] @ ?d1 @ [TAB] @ ?d2"
    by (subst append_long_fits) (use wf m len in auto)
  have 7: "append_str 4096 (cache_magic @ k_identity c @ [LF] @ ?d1 @ [TAB] @ ?d2) [TAB] =
      cache_magic @ k_identity c @ [LF] @ ?d1 @ [TAB] @ ?d2 @ [TAB]"
    by (subst append_str_fits) (use wf m len in auto)
  have 8: "append_clean 4096 (cache_magic @ k_identity c @ [LF] @ ?d1 @ [TAB] @ ?d2 @ [TAB]) (k_mark c) =
      cache_magic @ k_identity c @ [LF] @ ?d1 @ [TAB] @ ?d2 @ [TAB] @ clean (k_mark c)"
    using wf m len by (auto simp: append_clean_eq)
  have 9: "append_str 4096 (cache_magic @ k_identity c @ [LF] @ ?d1 @ [TAB] @ ?d2 @ [TAB] @ clean (k_mark c)) [LF] =
      cache_magic @ k_identity c @ [LF] @ ?d1 @ [TAB] @ ?d2 @ [TAB] @ clean (k_mark c) @ [LF]"
    by (subst append_str_fits) (use wf m len in auto)
  have "cstr (k_mark c) = k_mark c" using wf by simp
  then show ?thesis
    unfolding record_text_def Let_def hm_limits by (simp only: 1 2 3 4 5 6 7 8 9) simp
qed

lemma takeWhile_TAB: "TAB \<notin> set a \<Longrightarrow> next_field (a @ TAB # b) = (a, b)"
  by (induction a) (auto simp: next_field_def)

lemma next_field_last: "TAB \<notin> set a \<Longrightarrow> next_field a = (a, [])"
  by (induction a) (auto simp: next_field_def)

lemma digits_no_sep: "TAB \<notin> set (dec v)" "LF \<notin> set (dec v)" "NUL \<notin> set (dec v)"
  using dec_digits by fastforce+

lemma parse_epoch_dec: "0 \<le> v \<Longrightarrow> v < 2 ^ 63 \<Longrightarrow> parse_epoch (dec (nat v)) = v"
  using sint_of_nat_small [of "nat v"] by (simp add: parse_epoch_def)

lemma parse_record_text:
  assumes "cache_wf c"
  shows "parse_record identity (record_text c) =
    (if identity = k_identity c then Some (k_last_check c, k_last_change c, clean (k_mark c)) else None)"
proof -
  note wf = assms [unfolded cache_wf_def]
  let ?l1 = "cache_magic @ k_identity c"
  let ?l2 = "dec (nat (k_last_check c)) @ TAB # dec (nat (k_last_change c)) @ TAB # clean (k_mark c)"
  have t: "record_text c = ?l1 @ LF # ?l2 @ [LF]" by (simp add: record_text_eq [OF assms])
  have l1: "LF \<notin> set ?l1" using wf by (simp add: cache_magic_def)
  have l2: "LF \<notin> set ?l2" by (simp add: digits_no_sep clean_plain)
  have m: "memchr LF (record_text c) = Some (length ?l1)" unfolding t by (rule memchr_append_sep [OF l1])
  have m2: "memchr LF (?l2 @ [LF]) = Some (length ?l2)" using memchr_append_sep [OF l2, of "[]"] by simp
  have "drop (Suc (length ?l1)) (record_text c) = ?l2 @ [LF]" "take (length ?l1) (record_text c) = ?l1"
    unfolding t by simp_all
  moreover have "next_field ?l2 = (dec (nat (k_last_check c)), dec (nat (k_last_change c)) @ TAB # clean (k_mark c))"
    "next_field (dec (nat (k_last_change c)) @ TAB # clean (k_mark c)) = (dec (nat (k_last_change c)), clean (k_mark c))"
    "next_field (clean (k_mark c)) = (clean (k_mark c), [])"
    by (simp_all only: takeWhile_TAB next_field_last digits_no_sep clean_plain insertI1 not_False_eq_True)
  moreover have "copied (HM_MARK_MAX + 1) (clean (k_mark c)) = clean (k_mark c)"
    by (rule copied_fits) (use wf in \<open>auto simp: clean_def\<close>)
  ultimately show ?thesis
    using wf m m2 unfolding parse_record_def Let_def
    by (simp add: parse_epoch_dec del: append_assoc)
qed

lemma clean_fixed: "clean s = s \<longleftrightarrow> set s \<inter> {TAB, LF, CR} = {}"
  by (induction s) (auto simp: clean_def)

section \<open>Saving and loading\<close>

definition file_open :: "cache_fs \<Rightarrow> string \<Rightarrow> open_result" where
  "file_open fs path = (case cf_files fs path of None \<Rightarrow> OpenNoEnt | Some d \<Rightarrow> Opened d)"

lemma save_write_ok: "save_write ws rest content = (True, d) \<Longrightarrow> d = content @ rest"
  by (induction ws rest content rule: save_write.induct) (auto split: if_split_asm)

lemma save_write_no_err: "WrErr \<notin> set ws \<Longrightarrow> fst (save_write ws rest content)"
  by (induction ws rest content rule: save_write.induct) auto

lemma tmp_path_neq:
  assumes "NUL \<notin> set path" "length path \<le> HM_PATH_MAX"
  shows "tmp_path e path \<noteq> path"
proof -
  have "length (append_str (HM_PATH_MAX + 32) (append_str (HM_PATH_MAX + 32) [] path) ''.tmp.'') = length path + 5"
    using assms by (simp add: append_str_fits)
  then have "length (tmp_path e path) \<ge> length path + 5" by (simp add: tmp_path_def append_long_def)
  then show ?thesis by auto
qed

lemma cache_save_ok:
  assumes "hm_cache_save e c fs = (True, fs')" "cache_wf c"
  shows "cf_files fs' = (cf_files fs)(k_path c \<mapsto> record_text c, tmp_path e (k_path c) := None)"
proof -
  have ne: "tmp_path e (k_path c) \<noteq> k_path c" using assms(2) by (simp add: cache_wf_def tmp_path_neq)
  obtain ok d where w: "save_write (sv_writes e) (record_text c) [] = (ok, d)" by fastforce
  with assms(1) have "ok" by (auto simp: hm_cache_save_def Let_def split: if_split_asm)
  with w have "d = record_text c" using save_write_ok by fastforce
  with assms(1) w ne show ?thesis
    by (auto simp: hm_cache_save_def Let_def fun_eq_iff split: if_split_asm)
qed

lemma cache_save_fail:
  assumes "hm_cache_save e c fs = (False, fs')" "path \<noteq> tmp_path e (k_path c)"
  shows "cf_files fs' path = cf_files fs path"
  using assms by (auto simp: hm_cache_save_def Let_def split: if_split_asm prod.split_asm)

text \<open>What a load of a record file sees, without the chunking of the reads.\<close>

definition stored :: "string \<Rightarrow> string \<Rightarrow> cache_fs \<Rightarrow> (int \<times> int \<times> string) option" where
  "stored path identity fs =
     (case cf_files fs path of
        None \<Rightarrow> None
      | Some d \<Rightarrow> parse_record identity (take (HM_RECORD_MAX - 1) d))"

lemma cache_load_stored:
  assumes "RdErr \<notin> set sched"
  shows "hm_cache_load (file_open fs (k_path c)) sched c =
           Some (set_record c (stored (k_path c) (k_identity c) fs))"
proof (cases "cf_files fs (k_path c)")
  case None
  then show ?thesis by (simp add: hm_cache_load_def file_open_def stored_def set_record_def)
next
  case (Some d)
  have "length ([] :: string) + 1 < HM_RECORD_MAX" by (simp add: hm_limits)
  from load_loop_parse [OF assms this, of d "k_identity c"] Some show ?thesis
    by (auto simp: hm_cache_load_def file_open_def stored_def)
qed

lemma length_append_long: "length dst < cap \<Longrightarrow> length (append_long cap dst v) < cap"
  by (auto simp: append_long_def)

lemma length_append_clean: "length dst < cap \<Longrightarrow> length (append_clean cap dst s) < cap"
  by (auto simp: append_clean_eq)

lemma length_record_text: "length (record_text c) < HM_RECORD_MAX"
  unfolding record_text_def Let_def
  by (intro length_append_str length_append_long length_append_clean) (simp add: hm_limits)

lemma stored_save:
  assumes "hm_cache_save e c fs = (True, fs')" "cache_wf c"
  shows "stored (k_path c) identity fs' =
    (if identity = k_identity c then Some (k_last_check c, k_last_change c, clean (k_mark c)) else None)"
proof -
  have "tmp_path e (k_path c) \<noteq> k_path c" using assms(2) by (simp add: cache_wf_def tmp_path_neq)
  then have "cf_files fs' (k_path c) = Some (record_text c)" by (simp add: cache_save_ok [OF assms])
  moreover have "take (HM_RECORD_MAX - 1) (record_text c) = record_text c"
    using length_record_text [of c] by simp
  ultimately show ?thesis by (simp add: stored_def parse_record_text [OF assms(2)])
qed

section \<open>The store as an interface\<close>

text \<open>
  A store that a client writes values to and reads them back from: a write commits the value or
  leaves what was stored. \<open>writes\<close> is a history of attempts, each under its own conditions.
\<close>

fun writes :: "('e \<Rightarrow> 'r \<Rightarrow> 's \<Rightarrow> bool \<times> 's) \<Rightarrow> ('e \<times> 'r) list \<Rightarrow> 's \<Rightarrow> bool list \<times> 's" where
  "writes wr [] s = ([], s)"
| "writes wr ((e, r) # ers) s =
     (case wr e r s of (ok, s') \<Rightarrow> (case writes wr ers s' of (oks, s'') \<Rightarrow> (ok # oks, s'')))"

fun last_committed :: "'v \<Rightarrow> ('r \<Rightarrow> 'v) \<Rightarrow> bool list \<Rightarrow> ('e \<times> 'r) list \<Rightarrow> 'v" where
  "last_committed v val (ok # oks) ((e, r) # ers) = last_committed (if ok then val r else v) val oks ers"
| "last_committed v val _ _ = v"

locale atomic_store =
  fixes wr :: "'e \<Rightarrow> 'r \<Rightarrow> 's \<Rightarrow> bool \<times> 's"
    and rd :: "'s \<Rightarrow> 'v"
    and val :: "'r \<Rightarrow> 'v"
    and fine :: "'r \<Rightarrow> bool"
  assumes committed: "fine r \<Longrightarrow> wr e r s = (True, s') \<Longrightarrow> rd s' = val r"
    and kept: "fine r \<Longrightarrow> wr e r s = (False, s') \<Longrightarrow> rd s' = rd s"
begin

lemma rd_wr: "fine r \<Longrightarrow> wr e r s = (ok, s') \<Longrightarrow> rd s' = (if ok then val r else rd s)"
  using committed kept by (cases ok) auto

lemma rd_writes:
  "list_all (\<lambda>(e, r). fine r) ers \<Longrightarrow> writes wr ers s = (oks, s') \<Longrightarrow>
   rd s' = last_committed (rd s) val oks ers"
proof (induction ers arbitrary: s oks s')
  case Nil
  then show ?case by simp
next
  case (Cons er ers)
  obtain e r where er: "er = (e, r)" by fastforce
  obtain ok s1 where w: "wr e r s = (ok, s1)" by fastforce
  obtain oks1 s2 where ws: "writes wr ers s1 = (oks1, s2)" by fastforce
  have "rd s2 = last_committed (rd s1) val oks1 ers" using Cons.prems(1) by (intro Cons.IH ws) simp
  moreover have "rd s1 = (if ok then val r else rd s)" using Cons.prems(1) er by (intro rd_wr [OF _ w]) simp
  ultimately show ?case using Cons.prems(2) by (auto simp: er w ws)
qed

end

text \<open>The records of one project (one path, one identity) are such a store.\<close>

definition record_of :: "string \<Rightarrow> string \<Rightarrow> hm_cache \<Rightarrow> bool" where
  "record_of path identity c \<longleftrightarrow> cache_wf c \<and> k_path c = path \<and> k_identity c = identity"

definition record_value :: "hm_cache \<Rightarrow> (int \<times> int \<times> string) option" where
  "record_value c = Some (k_last_check c, k_last_change c, clean (k_mark c))"

lemma stored_save_fail:
  assumes "hm_cache_save e c fs = (False, fs')" "cache_wf c"
  shows "stored (k_path c) identity fs' = stored (k_path c) identity fs"
proof -
  have "k_path c \<noteq> tmp_path e (k_path c)" using assms(2) tmp_path_neq [of "k_path c" e] by (simp add: cache_wf_def)
  from cache_save_fail [OF assms(1) this] show ?thesis by (simp add: stored_def)
qed

interpretation record_store: atomic_store hm_cache_save "stored path identity" record_value "record_of path identity"
  for path identity
proof unfold_locales
  fix c e s s'
  assume "record_of path identity c" "hm_cache_save e c s = (True, s')"
  then show "stored path identity s' = record_value c"
    using stored_save [of e c s s' identity] by (auto simp: record_of_def record_value_def)
next
  fix c e s s'
  assume "record_of path identity c" "hm_cache_save e c s = (False, s')"
  then show "stored path identity s' = stored path identity s"
    using stored_save_fail [of e c s s' identity] by (auto simp: record_of_def)
qed

section \<open>Properties\<close>

text \<open>
  C35: A cache record survives being saved and loaded: whatever chunks the kernel delivers and
  however often it interrupts, loading what was saved gives back both times and the mark with its
  tabs and line ends turned into blanks, and the record counts as known.
\<close>
theorem cache_save_load_round_trip:
  assumes "hm_cache_save e c fs = (True, fs')" "cache_wf c" "RdErr \<notin> set sched"
    and "k_path d = k_path c" "k_identity d = k_identity c"
  shows "hm_cache_load (file_open fs' (k_path d)) sched d =
           Some (d\<lparr>k_last_check := k_last_check c, k_last_change := k_last_change c,
                   k_mark := clean (k_mark c), k_known := True\<rparr>)"
  using cache_load_stored [OF assms(3), of fs' d] stored_save [OF assms(1,2), of "k_identity d"] assms(4,5)
  by (simp add: set_record_def clear_record_def)

definition sample_cache :: hm_cache where
  "sample_cache = \<lparr>k_key = ''url-1'', k_identity = ''siml:1 hacman:2'', k_path = ''/c/url-1'',
     k_workdir = ''/c/url-1.work'', k_mark = ''v'' @ [TAB] @ ''1'', k_last_check = 100,
     k_last_change = 42, k_known = False\<rparr>"

definition sample_save_env :: save_env where
  "sample_save_env = \<lparr>sv_pid = 7, sv_open_ok = True, sv_writes = [WrIntr, WrUpTo 2], sv_rename_ok = True\<rparr>"

definition empty_fs :: cache_fs where
  "empty_fs = \<lparr>cf_files = (\<lambda>_. None), cf_mkdirs = []\<rparr>"

lemma sample_cache_wf: "cache_wf sample_cache"
  by (simp add: cache_wf_def sample_cache_def hm_limits)

lemma sample_save: "fst (hm_cache_save sample_save_env sample_cache fs)"
proof -
  have "fst (save_write (sv_writes sample_save_env) rest content)" for rest content
    by (rule save_write_no_err) (simp add: sample_save_env_def)
  then show ?thesis by (auto simp: hm_cache_save_def Let_def sample_save_env_def split: prod.split)
qed

theorem cache_save_load_round_trip_witness:
  "hm_cache_load (file_open (snd (hm_cache_save sample_save_env sample_cache empty_fs)) ''/c/url-1'')
      [RdUpTo 0, RdIntr, RdUpTo 20] sample_cache =
     Some (sample_cache\<lparr>k_mark := ''v 1'', k_known := True\<rparr>)"
proof -
  have s: "hm_cache_save sample_save_env sample_cache empty_fs =
      (True, snd (hm_cache_save sample_save_env sample_cache empty_fs))"
    using sample_save [of empty_fs] by (metis prod.collapse)
  have "RdErr \<notin> set [RdUpTo 0, RdIntr, RdUpTo 20]" by simp
  from cache_save_load_round_trip [OF s sample_cache_wf this refl refl] show ?thesis
    by (simp add: sample_cache_def clean_def)
qed

text \<open>
  A record is only ever trusted for its own identity: loading a record that was written for
  another identity (an edited project file, another build of the program) gives the state of a
  project never set up, with no times and no mark, and is not an error.
\<close>
theorem cache_record_of_other_identity_ignored:
  assumes "hm_cache_save e c fs = (True, fs')" "cache_wf c" "RdErr \<notin> set sched"
    and "k_path d = k_path c" "k_identity d \<noteq> k_identity c"
  shows "hm_cache_load (file_open fs' (k_path d)) sched d = Some (clear_record d)"
  using cache_load_stored [OF assms(3), of fs' d] stored_save [OF assms(1,2), of "k_identity d"] assms(4,5)
  by (simp add: set_record_def)

theorem cache_record_of_other_identity_ignored_witness:
  "\<exists>fs. hm_cache_load (file_open fs ''/c/url-1'') [] (sample_cache\<lparr>k_identity := ''siml:3 hacman:2''\<rparr>) =
     Some (clear_record (sample_cache\<lparr>k_identity := ''siml:3 hacman:2''\<rparr>)) \<and>
   cf_files fs ''/c/url-1'' = Some (record_text sample_cache)"
proof -
  obtain fs' where s: "hm_cache_save sample_save_env sample_cache empty_fs = (True, fs')"
    using sample_save [of empty_fs] by (metis prod.collapse)
  have "tmp_path sample_save_env (k_path sample_cache) \<noteq> k_path sample_cache"
    using sample_cache_wf by (simp add: cache_wf_def tmp_path_neq)
  then have "cf_files fs' ''/c/url-1'' = Some (record_text sample_cache)"
    using cache_save_ok [OF s sample_cache_wf] by (simp add: sample_cache_def)
  with cache_record_of_other_identity_ignored [OF s sample_cache_wf, of "[]"
      "sample_cache\<lparr>k_identity := ''siml:3 hacman:2''\<rparr>"]
  show ?thesis by (auto simp: sample_cache_def)
qed

text \<open>
  C36: Saving is atomic: whichever call fails, no file but the record and the process's own
  temporary sibling changes, the record is afterwards either exactly as before (when the save
  reports failure) or the complete new text (when it reports success), and a temporary file that
  was created is gone.
\<close>
theorem cache_save_is_atomic:
  assumes "cache_wf c"
  shows "case hm_cache_save e c fs of (ok, fs') \<Rightarrow>
    cf_files fs' (k_path c) = (if ok then Some (record_text c) else cf_files fs (k_path c)) \<and>
    cf_files fs' (tmp_path e (k_path c)) = (if sv_open_ok e then None else cf_files fs (tmp_path e (k_path c))) \<and>
    {path. cf_files fs' path \<noteq> cf_files fs path} \<subseteq> {k_path c, tmp_path e (k_path c)}"
proof -
  obtain ok fs' where s: "hm_cache_save e c fs = (ok, fs')" by fastforce
  have ne: "tmp_path e (k_path c) \<noteq> k_path c" using assms by (simp add: cache_wf_def tmp_path_neq)
  have tmp: "cf_files fs' (tmp_path e (k_path c)) =
      (if sv_open_ok e then None else cf_files fs (tmp_path e (k_path c)))"
    using s by (auto simp: hm_cache_save_def Let_def split: if_split_asm prod.split_asm)
  show ?thesis
  proof (cases ok)
    case True
    have "cf_files fs' = (cf_files fs)(k_path c \<mapsto> record_text c, tmp_path e (k_path c) := None)"
      by (rule cache_save_ok [OF _ assms]) (use s True in simp)
    with tmp s True ne show ?thesis by auto
  next
    case False
    with s have f: "hm_cache_save e c fs = (False, fs')" by simp
    from cache_save_fail [OF f] ne have "cf_files fs' (k_path c) = cf_files fs (k_path c)" by metis
    moreover have "{path. cf_files fs' path \<noteq> cf_files fs path} \<subseteq> {tmp_path e (k_path c)}"
      using cache_save_fail [OF f] by blast
    ultimately show ?thesis using tmp s False by auto
  qed
qed

theorem cache_save_is_atomic_witness:
  "case hm_cache_save (sample_save_env\<lparr>sv_rename_ok := False\<rparr>) sample_cache empty_fs of (ok, fs') \<Rightarrow>
     cf_files fs' ''/c/url-1'' = (if ok then Some (record_text sample_cache) else None)"
  using cache_save_is_atomic [OF sample_cache_wf, where e = "sample_save_env\<lparr>sv_rename_ok := False\<rparr>" and fs = empty_fs]
  by (auto simp: sample_cache_def empty_fs_def split: prod.splits)

text \<open>
  After any history of saves of one project's record, some of them failing, the stored record
  is the one of the last save that reported success, or the original one if none did.
\<close>
theorem record_history_keeps_last_success:
  assumes "list_all (\<lambda>(e, c). record_of path identity c) ers" "writes hm_cache_save ers fs = (oks, fs')"
  shows "stored path identity fs' = last_committed (stored path identity fs) record_value oks ers"
  using assms by (rule record_store.rd_writes)

theorem record_history_keeps_last_success_witness:
  "stored ''/c/url-1'' ''siml:1 hacman:2'' (snd (writes hm_cache_save
      [(sample_save_env\<lparr>sv_open_ok := False\<rparr>, sample_cache\<lparr>k_last_check := 7\<rparr>)] empty_fs)) = None"
proof -
  let ?ers = "[(sample_save_env\<lparr>sv_open_ok := False\<rparr>, sample_cache\<lparr>k_last_check := 7\<rparr>)]"
  have ok: "list_all (\<lambda>(e, c). record_of ''/c/url-1'' ''siml:1 hacman:2'' c) ?ers"
    using sample_cache_wf by (simp add: record_of_def cache_wf_def sample_cache_def)
  have w: "writes hm_cache_save ?ers empty_fs = ([False], snd (writes hm_cache_save ?ers empty_fs))"
    by (simp add: hm_cache_save_def Let_def split: prod.split)
  show ?thesis
    by (subst record_history_keeps_last_success [OF ok w]) (simp add: stored_def empty_fs_def)
qed

text \<open>
  C37: The mark read back from the cache equals the mark that was recorded exactly when it holds no
  tab, line feed or carriage return. A mark with one of those (an \<open>ETag\<close> with a tab, a version cut
  out across a line end) is stored changed, so the next comparison with the observed mark fails
  although nothing changed.
\<close>
theorem recorded_mark_matches_iff_plain:
  assumes "hm_cache_save e c fs = (True, fs')" "cache_wf c"
  shows "stored (k_path c) (k_identity c) fs' = Some (k_last_check c, k_last_change c, k_mark c)
           \<longleftrightarrow> set (k_mark c) \<inter> {TAB, LF, CR} = {}"
  using stored_save [OF assms, of "k_identity c"] by (simp add: clean_fixed)

theorem recorded_mark_matches_iff_plain_witness:
  "stored ''/c/url-1'' ''siml:1 hacman:2'' (snd (hm_cache_save sample_save_env sample_cache empty_fs)) \<noteq>
     Some (100, 42, k_mark sample_cache)"
proof -
  have s: "hm_cache_save sample_save_env sample_cache empty_fs =
      (True, snd (hm_cache_save sample_save_env sample_cache empty_fs))"
    using sample_save [of empty_fs] by (metis prod.collapse)
  from recorded_mark_matches_iff_plain [OF s sample_cache_wf] show ?thesis by (simp add: sample_cache_def)
qed

end
