(* ===== verification/HM_Lock.thy ===== *)
theory HM_Lock
  imports HM_Store
begin

text \<open>
  The lock half of \<^verbatim>\<open>src/cache.c\<close>: acquiring a project's update lock, and the walk up the process
  tree that refuses to wait for an ancestor. The kernel's answers are parameters: the contents of
  \<^verbatim>\<open>/proc\<close> and what \<open>open\<close> and the \<open>fcntl\<close> calls return (record \<open>lock_env\<close>).
\<close>

section \<open>The process tree\<close>

text \<open>\<open>strrchr\<close>: the rest of the string from the last occurrence on.\<close>

fun strrchr :: "char \<Rightarrow> string \<Rightarrow> string option" where
  "strrchr c [] = None"
| "strrchr c (x # s) =
     (case strrchr c s of Some t \<Rightarrow> Some t | None \<Rightarrow> if x = c then Some (x # s) else None)"

fun ppid_digits :: "int \<Rightarrow> string \<Rightarrow> int" where
  "ppid_digits v [] = v"
| "ppid_digits v (c # s) = (if is_digit c then ppid_digits (to_long (v * 10 + int (digit_val c))) s else v)"

definition parse_stat :: "string \<Rightarrow> int" where
  "parse_stat buf =
     (case strrchr (CHR '')'') buf of
        None \<Rightarrow> - 1
      | Some p \<Rightarrow>
          (if length p > 3 \<and> p ! 1 = CHR '' '' \<and> p ! 3 = CHR '' '' then ppid_digits 0 (drop 4 p) else - 1))"

definition stat_path :: "int \<Rightarrow> string" where
  "stat_path pid = append_str 48 (append_long 48 (append_str 48 [] ''/proc/'') pid) ''/stat''"

text \<open>\<open>procfs\<close>: what one \<open>read\<close> of a process file delivers; \<open>None\<close> if it cannot be opened or read.\<close>

definition parent_pid :: "(string \<Rightarrow> string option) \<Rightarrow> int \<Rightarrow> int" where
  "parent_pid procfs pid =
     (case procfs (stat_path pid) of
        None \<Rightarrow> - 1
      | Some d \<Rightarrow> if d = [] then - 1 else parse_stat (cstr (take 511 d)))"

fun ancestor_loop :: "(string \<Rightarrow> string option) \<Rightarrow> int \<Rightarrow> nat \<Rightarrow> int \<Rightarrow> bool" where
  "ancestor_loop procfs pid 0 cur = False"
| "ancestor_loop procfs pid (Suc n) cur =
     (if cur \<le> 0 then False
      else if cur = pid then True
      else if cur = 1 then False
      else ancestor_loop procfs pid n (parent_pid procfs cur))"

definition is_ancestor :: "(string \<Rightarrow> string option) \<Rightarrow> int \<Rightarrow> int \<Rightarrow> bool" where
  "is_ancestor procfs ppid pid = ancestor_loop procfs pid 256 ppid"

section \<open>Acquiring the lock\<close>

datatype lock_open = LkFd | LkNoEnt | LkErr
datatype setlk = SetGranted | SetBusy | SetError
datatype getlk = GetError | GetUnlocked | GetHeldBy int
datatype setlkw = WaitGranted | WaitIntr | WaitError

record lock_env =
  lk_open :: lock_open
  lk_reopen :: lock_open
  lk_set :: setlk
  lk_get :: getlk
  lk_wait :: "setlkw list"
  lk_ppid :: int
  lk_procfs :: "string \<Rightarrow> string option"

text \<open>\<open>LockWaiting\<close>: the process is still blocked in \<open>F_SETLKW\<close> when its schedule ends.\<close>

datatype lock_result = Locked | CannotOpenLock | HeldByParent int | CannotAcquire | LockWaiting

definition held_by_ancestor :: "lock_env \<Rightarrow> int option" where
  "held_by_ancestor e =
     (case lk_get e of
        GetHeldBy holder \<Rightarrow> if is_ancestor (lk_procfs e) (lk_ppid e) holder then Some holder else None
      | _ \<Rightarrow> None)"

fun wait_lock :: "setlkw list \<Rightarrow> lock_result" where
  "wait_lock [] = LockWaiting"
| "wait_lock (WaitGranted # r) = Locked"
| "wait_lock (WaitIntr # r) = wait_lock r"
| "wait_lock (WaitError # r) = CannotAcquire"

text \<open>The result and the \<open>mkdir\<close> calls made on the way.\<close>

definition lock_path :: "string \<Rightarrow> string" where
  "lock_path path = append_str (HM_PATH_MAX + 6) (append_str (HM_PATH_MAX + 6) [] path) ''.lock''"

definition hm_cache_lock :: "lock_env \<Rightarrow> hm_cache \<Rightarrow> lock_result \<times> string list" where
  "hm_cache_lock e c =
     (let (opened, mk) =
        (if lk_open e = LkNoEnt then (lk_reopen e, mkdir_p (cache_parent (k_path c))) else (lk_open e, []))
      in if opened \<noteq> LkFd then (CannotOpenLock, mk)
         else if lk_set e = SetGranted then (Locked, mk)
         else
           (case (if lk_set e = SetBusy then held_by_ancestor e else None) of
              Some holder \<Rightarrow> (HeldByParent holder, mk)
            | None \<Rightarrow> (wait_lock (lk_wait e), mk)))"

section \<open>Reading a parent from \<^verbatim>\<open>/proc\<close>\<close>

lemma strrchr_None: "c \<notin> set s \<Longrightarrow> strrchr c s = None"
  by (induction s) auto

lemma strrchr_last: "c \<notin> set t \<Longrightarrow> strrchr c (s @ c # t) = Some (c # t)"
  by (induction s) (auto simp: strrchr_None)

lemma ppid_digits_eq:
  "list_all is_digit s \<Longrightarrow> foldl (\<lambda>v c. v * 10 + digit_val c) v s < 2 ^ 63 \<Longrightarrow>
   ppid_digits (int v) s = int (foldl (\<lambda>v c. v * 10 + digit_val c) v s)"
proof (induction s arbitrary: v)
  case Nil
  then show ?case by simp
next
  case (Cons c s)
  have mono: "v \<le> foldl (\<lambda>v c. v * 10 + digit_val c) v s" for v :: nat and s
  proof (induction s arbitrary: v)
    case (Cons d s)
    from Cons.IH [of "v * 10 + digit_val d"] show ?case by simp
  qed simp
  let ?w = "v * 10 + digit_val c"
  have "?w < 2 ^ 63" using mono [of ?w s] Cons.prems(2) by simp
  then have "to_long (int v * 10 + int (digit_val c)) = int ?w" by (simp add: to_long_id)
  with Cons.IH [of ?w] Cons.prems show ?case by simp
qed

lemma ppid_digits_stop:
  "list_all is_digit s \<Longrightarrow> \<not> is_digit d \<Longrightarrow> ppid_digits v (s @ d # t) = ppid_digits v s"
  by (induction s arbitrary: v) simp_all

lemma ppid_digits_dec:
  assumes "v < 2 ^ 63"
  shows "ppid_digits 0 (dec v @ CHR '' '' # t) = int v"
proof -
  have d: "list_all is_digit (dec v)" by (auto simp: list_all_iff dest: dec_digits)
  have "foldl (\<lambda>v c. v * 10 + digit_val c) 0 (dec v) = v"
    using dec_value_dec [of v] by (simp add: dec_value_def)
  with ppid_digits_eq [OF d, of 0] assms ppid_digits_stop [OF d, of "CHR '' ''" 0 t] show ?thesis by simp
qed

definition stat_text :: "nat \<Rightarrow> string \<Rightarrow> char \<Rightarrow> nat \<Rightarrow> string \<Rightarrow> string" where
  "stat_text pid comm st ppid rest =
     dec pid @ '' ('' @ comm @ '') '' @ [st] @ '' '' @ dec ppid @ '' '' @ rest"

lemma parse_stat_text:
  assumes "CHR '')'' \<notin> set rest" "st \<noteq> CHR '')''" "ppid < 2 ^ 63"
  shows "parse_stat (stat_text pid comm st ppid rest) = int ppid"
proof -
  let ?t = "CHR '' '' # st # CHR '' '' # dec ppid @ CHR '' '' # rest"
  have "is_digit (CHR '')'') = False" by (simp add: is_digit_def)
  then have "CHR '')'' \<notin> set (dec ppid)" using dec_digits by blast
  with assms have "strrchr (CHR '')'') ((dec pid @ '' ('' @ comm) @ CHR '')'' # ?t) = Some (CHR '')'' # ?t)"
    by (intro strrchr_last) auto
  then show ?thesis
    using ppid_digits_dec [OF assms(3), of rest] by (simp add: parse_stat_def stat_text_def numeral_eq_Suc)
qed

section \<open>The bounded walk\<close>

definition chain :: "(string \<Rightarrow> string option) \<Rightarrow> int \<Rightarrow> nat \<Rightarrow> int" where
  "chain procfs ppid k = (parent_pid procfs ^^ k) ppid"

lemma ancestor_loop_iff:
  "ancestor_loop procfs pid n cur \<longleftrightarrow>
     (\<exists>k<n. chain procfs cur k = pid \<and> 0 < pid \<and> (\<forall>j<k. 1 < chain procfs cur j))"
proof (induction n arbitrary: cur)
  case 0
  then show ?case by simp
next
  case (Suc n)
  have shift: "chain procfs cur (Suc k) = chain procfs (parent_pid procfs cur) k" for k
    by (simp add: chain_def funpow_swap1)
  have zero: "chain procfs cur 0 = cur" by (simp add: chain_def)
  have split: "(\<exists>k<Suc n. P k) \<longleftrightarrow> P 0 \<or> (\<exists>k<n. P (Suc k))" for P
    by (metis less_Suc_eq_0_disj not0_implies_Suc zero_less_Suc Suc_less_eq)
  have all: "(\<forall>j<Suc k. Q j) \<longleftrightarrow> Q 0 \<and> (\<forall>j<k. Q (Suc j))" for Q k
    by (metis less_Suc_eq_0_disj zero_less_Suc Suc_less_eq)
  show ?case
    unfolding split all shift zero ancestor_loop.simps Suc.IH by auto
qed

section \<open>Properties\<close>

text \<open>
  Reading the parent of a process is not fooled by its name: whatever the command name holds
  (blanks, parentheses, digits), the parent found in \<^verbatim>\<open>/proc/PID/stat\<close> is the field behind the
  state, as long as what follows has no closing parenthesis and the text fits the buffer.
\<close>
theorem parent_pid_ignores_command_name:
  assumes "CHR '')'' \<notin> set rest" "st \<noteq> CHR '')''" "ppid < 2 ^ 63"
    and "procfs (stat_path p) = Some (stat_text pid comm st ppid rest)"
    and "NUL \<notin> set (stat_text pid comm st ppid rest)" "length (stat_text pid comm st ppid rest) \<le> 511"
  shows "parent_pid procfs p = int ppid"
  using assms parse_stat_text [OF assms(1-3)]
  by (simp add: parent_pid_def) (auto simp: stat_text_def)

theorem parent_pid_ignores_command_name_witness:
  "parent_pid (\<lambda>_. Some (stat_text 12 ''a) R 1 (b'' CHR ''S'' 34 ''0 0'')) 12 = 34"
  by (rule parent_pid_ignores_command_name
        [of "''0 0''" "CHR ''S''" 34 "\<lambda>_. Some (stat_text 12 ''a) R 1 (b'' CHR ''S'' 34 ''0 0'')" 12 12
          "''a) R 1 (b''", simplified])
    (use length_dec_20 [of 12] length_dec_20 [of 34] in \<open>simp_all add: stat_text_def digits_no_sep\<close>)

text \<open>
  C38: Waiting for the update lock cannot deadlock on the process's own ancestors: when the lock is
  busy and its holder is found among the first 256 processes up the tree, the lock is refused with
  that holder named, and \<open>F_SETLKW\<close> is not reached, whatever it would answer.
\<close>
theorem lock_never_waits_for_ancestor:
  assumes "lk_open e = LkFd" "lk_set e = SetBusy" "lk_get e = GetHeldBy holder" "0 < holder"
    and "k < 256" "chain (lk_procfs e) (lk_ppid e) k = holder"
    and "\<forall>j<k. 1 < chain (lk_procfs e) (lk_ppid e) j"
  shows "hm_cache_lock (e\<lparr>lk_wait := ws\<rparr>) c = (HeldByParent holder, [])"
proof -
  have "is_ancestor (lk_procfs e) (lk_ppid e) holder"
    unfolding is_ancestor_def ancestor_loop_iff using assms(4-) by blast
  then show ?thesis using assms(1-3) by (simp add: hm_cache_lock_def held_by_ancestor_def)
qed

theorem lock_never_waits_for_ancestor_witness:
  "hm_cache_lock \<lparr>lk_open = LkFd, lk_reopen = LkErr, lk_set = SetBusy, lk_get = GetHeldBy 9,
      lk_wait = [WaitGranted], lk_ppid = 9, lk_procfs = (\<lambda>_. None)\<rparr> sample_cache = (HeldByParent 9, [])"
  using lock_never_waits_for_ancestor [of "\<lparr>lk_open = LkFd, lk_reopen = LkErr, lk_set = SetBusy,
      lk_get = GetHeldBy 9, lk_wait = [], lk_ppid = 9, lk_procfs = (\<lambda>_. None)\<rparr>" 9 0 "[WaitGranted]"]
  by (simp add: chain_def)

end
