(* ===== verification/HM_Check.thy ===== *)
theory HM_Check
  imports HM_Output HM_Lines
begin

text \<open>
  \<^verbatim>\<open>src/check.c\<close>: one run of \<^verbatim>\<open>curl\<close> and the mark it yields. What the child process and the kernel do
  is a \<open>curl_env\<close>: the bytes the child writes to both pipes, which calls fail, what each \<open>poll\<close>
  reports and how much each \<open>read\<close> transfers, and the exit status. Diagnostics that end the check
  are the constructors of \<open>check_error\<close>; the child's own stderr goes through \<open>hm_err_bytes\<close>.
\<close>

section \<open>The command line\<close>

definition timeout_arg :: "int \<Rightarrow> string" where
  "timeout_arg timeout = rev (digits_rev 16 (nat (if timeout > 0 then timeout else 15)))"

definition curl_argv :: "string \<Rightarrow> bool \<Rightarrow> int \<Rightarrow> string \<Rightarrow> string list" where
  "curl_argv curl head_only timeout url =
     [curl, ''--silent'', ''--show-error'', ''--location'', ''--fail'', ''--max-time'', timeout_arg timeout] @
     (if head_only then [''--head''] else []) @ [''--'', url]"

lemma timeout_arg_dec: "0 < t \<Longrightarrow> t < 2 ^ 31 \<Longrightarrow> timeout_arg t = dec (nat t)"
  unfolding timeout_arg_def by (simp, rule digits_rev_dec) auto

section \<open>Reading both pipes\<close>

text \<open>One return of \<open>poll\<close>: per slot whether it is ready, and how the read that follows goes.\<close>

datatype poll_event = PollIntr | PollFail | PollReady "read_choice option" "read_choice option"

record poll_state =
  ps_out_open :: bool
  ps_err_open :: bool
  ps_body :: string
  ps_out :: string
  ps_err :: string
  ps_log :: out_state

definition has_room :: "poll_state \<Rightarrow> bool" where
  "has_room st \<longleftrightarrow> length (ps_body st) < HM_BODY_MAX - 1"

definition out_capacity :: "poll_state \<Rightarrow> nat" where
  "out_capacity st = (if has_room st then HM_BODY_MAX - length (ps_body st) - 1 else 8192)"

definition poll_out :: "read_choice option \<Rightarrow> poll_state \<Rightarrow> poll_state" where
  "poll_out ready st =
     (case (if ps_out_open st then ready else None) of
        None \<Rightarrow> st
      | Some ch \<Rightarrow>
          (case fst (kernel_read [ch] (out_capacity st) (ps_out st)) of
             RFail \<Rightarrow> st\<lparr>ps_out_open := False\<rparr>
           | RIntr \<Rightarrow> st
           | RGot n \<Rightarrow>
               (let st1 = (if n > 0 \<and> has_room st then st\<lparr>ps_body := ps_body st @ take n (ps_out st)\<rparr> else st);
                    st2 = st1\<lparr>ps_out := drop n (ps_out st)\<rparr>
                in if n = 0 then st2\<lparr>ps_out_open := False\<rparr> else st2)))"

definition poll_err :: "read_choice option \<Rightarrow> poll_state \<Rightarrow> poll_state" where
  "poll_err ready st =
     (case (if ps_err_open st then ready else None) of
        None \<Rightarrow> st
      | Some ch \<Rightarrow>
          (case fst (kernel_read [ch] 8192 (ps_err st)) of
             RFail \<Rightarrow> st\<lparr>ps_err_open := False\<rparr>
           | RIntr \<Rightarrow> st
           | RGot n \<Rightarrow>
               (let st1 = (if n > 0 then st\<lparr>ps_log := hm_err_bytes (take n (ps_err st)) (ps_log st)\<rparr> else st);
                    st2 = st1\<lparr>ps_err := drop n (ps_err st)\<rparr>
                in if n = 0 then st2\<lparr>ps_err_open := False\<rparr> else st2)))"

text \<open>The loop; \<open>None\<close> when the events run out before it has ended.\<close>

fun poll_loop :: "poll_event list \<Rightarrow> poll_state \<Rightarrow> poll_state option" where
  "poll_loop evs st =
     (if \<not> ps_out_open st \<and> \<not> ps_err_open st then Some st
      else (case evs of
          [] \<Rightarrow> None
        | PollIntr # r \<Rightarrow> poll_loop r st
        | PollFail # r \<Rightarrow> Some st
        | PollReady o1 e1 # r \<Rightarrow> poll_loop r (poll_err e1 (poll_out o1 st))))"

declare poll_loop.simps [simp del]

section \<open>Running curl\<close>

datatype wait_result = WaitEintr | WaitFailed | Exited nat | Signaled

record curl_env =
  cu_pipe_ok :: bool
  cu_stderr_pipe_ok :: bool
  cu_fork_ok :: bool
  cu_stdout :: string
  cu_stderr :: string
  cu_polls :: "poll_event list"
  cu_waits :: "wait_result list"

datatype check_error =
    PipeFailed | StderrPipeFailed | ForkFailed | WaitpidFailed | CurlMissing | CurlFailed | StillRunning
  | UrlTooLong | NoHeader | PrefixNotFound | SuffixNotFound | EmptyVersion

fun wait_curl :: "wait_result list \<Rightarrow> check_error option" where
  "wait_curl [] = Some StillRunning"
| "wait_curl (WaitEintr # r) = wait_curl r"
| "wait_curl (WaitFailed # r) = Some WaitpidFailed"
| "wait_curl (Exited n # r) = (if n = 0 then None else if n = 127 then Some CurlMissing else Some CurlFailed)"
| "wait_curl (Signaled # r) = Some CurlFailed"

definition run_curl :: "curl_env \<Rightarrow> out_state \<Rightarrow> (check_error + string) \<times> out_state" where
  "run_curl e log =
     (if \<not> cu_pipe_ok e then (Inl PipeFailed, log)
      else if \<not> cu_stderr_pipe_ok e then (Inl StderrPipeFailed, log)
      else if \<not> cu_fork_ok e then (Inl ForkFailed, log)
      else
        (case poll_loop (cu_polls e) \<lparr>ps_out_open = True, ps_err_open = True, ps_body = [],
              ps_out = cu_stdout e, ps_err = cu_stderr e, ps_log = log\<rparr> of
           None \<Rightarrow> (Inl StillRunning, log)
         | Some st \<Rightarrow>
             (case wait_curl (cu_waits e) of
                Some err \<Rightarrow> (Inl err, hm_err_stream_end (ps_log st))
              | None \<Rightarrow> (Inr (ps_body st), hm_err_stream_end (ps_log st)))))"

section \<open>Headers\<close>

definition lower :: "char \<Rightarrow> char" where
  "lower c = (if 65 \<le> (of_char c :: nat) \<and> (of_char c :: nat) \<le> 90 then char_of (of_char c + 32 :: nat) else c)"

fun ci_prefix :: "string \<Rightarrow> string \<Rightarrow> bool" where
  "ci_prefix line [] = True"
| "ci_prefix [] (n # name) = False"
| "ci_prefix (c # line) (n # name) = (if lower c \<noteq> n then False else ci_prefix line name)"

text \<open>The trimming loops: blanks and tabs in front, and a set of bytes at the end.\<close>

definition trim_front :: "string \<Rightarrow> string" where
  "trim_front s = dropWhile (\<lambda>c. c = CHR '' '' \<or> c = TAB) s"

definition trim_back :: "char set \<Rightarrow> string \<Rightarrow> string" where
  "trim_back cs s = rev (dropWhile (\<lambda>c. c \<in> cs) (rev s))"

definition header_line :: "string \<Rightarrow> string \<Rightarrow> string option" where
  "header_line name line =
     (let l = trim_back {CR} line
      in if ci_prefix l name then Some (trim_back {CHR '' '', TAB} (trim_front (drop (length name) l))) else None)"

function header_loop :: "string \<Rightarrow> string \<Rightarrow> string option \<Rightarrow> string option" where
  "header_loop name p found =
     (if p = [] then found
      else
        (let nl = memchr LF p;
             line = (case nl of Some i \<Rightarrow> take i p | None \<Rightarrow> p);
             found' = (case header_line name line of Some v \<Rightarrow> Some v | None \<Rightarrow> found)
         in header_loop name (case nl of Some i \<Rightarrow> drop (Suc i) p | None \<Rightarrow> []) found'))"
  by pat_completeness auto
termination
  by (relation "measure (\<lambda>(name, p, found). length p)") (auto split: option.split)

declare header_loop.simps [simp del]

definition last_header :: "string \<Rightarrow> string \<Rightarrow> string option" where
  "last_header buf name = header_loop name buf None"

section \<open>Versions\<close>

text \<open>\<^verbatim>\<open>find_sub\<close>: the offset of the first occurrence.\<close>

fun find_loop :: "string \<Rightarrow> string \<Rightarrow> nat \<Rightarrow> nat option" where
  "find_loop needle [] i = None"
| "find_loop needle (c # hay) i =
     (if length needle > length (c # hay) then None
      else if take (length needle) (c # hay) = needle then Some i
      else find_loop needle hay (Suc i))"

definition find_sub :: "string \<Rightarrow> string \<Rightarrow> nat option" where
  "find_sub hay needle =
     (if needle = [] \<or> length needle > length hay then None else find_loop needle hay 0)"

definition extract_version :: "hm_project \<Rightarrow> string \<Rightarrow> nat \<Rightarrow> check_error + string" where
  "extract_version p body cap =
     (case find_sub body (p_version_prefix p) of
        None \<Rightarrow> Inl PrefixNotFound
      | Some i \<Rightarrow>
          (let rest = drop (i + length (p_version_prefix p)) body
           in case (if length (p_version_suffix p) > 0 then find_sub rest (p_version_suffix p)
                    else (case memchr LF rest of None \<Rightarrow> Some (length rest) | Some j \<Rightarrow> Some j)) of
                None \<Rightarrow> Inl SuffixNotFound
              | Some n \<Rightarrow>
                  if n = 0 then Inl EmptyVersion
                  else
                    (let v = trim_back {CR, CHR '' '', TAB} (trim_front (take n rest))
                     in if v = [] then Inl EmptyVersion else Inr (copied cap v))))"

section \<open>The check\<close>

text \<open>The result: the mark and the response body (empty for a HEAD request).\<close>

definition hm_check ::
  "(string \<Rightarrow> ulong) \<Rightarrow> curl_env \<Rightarrow> hm_project \<Rightarrow> out_state \<Rightarrow> (check_error + string \<times> string) \<times> out_state" where
  "hm_check xxh3 e p log =
     (if length (p_url p) > HM_URL_MAX then (Inl UrlTooLong, log)
      else
        (case run_curl e log of
           (Inl err, log') \<Rightarrow> (Inl err, log')
         | (Inr body, log') \<Rightarrow>
             (case p_check p of
                HM_CHECK_ETAG \<Rightarrow>
                  (case (case last_header body ''etag:'' of
                           Some v \<Rightarrow> Some v | None \<Rightarrow> last_header body ''last-modified:'') of
                     Some v \<Rightarrow> (Inr (copied (HM_MARK_MAX + 1) v, []), log')
                   | None \<Rightarrow> (Inl NoHeader, log'))
              | HM_CHECK_HASH \<Rightarrow> (Inr (hm_hash_hex xxh3 body, body), log')
              | HM_CHECK_VERSION \<Rightarrow>
                  (case extract_version p body (HM_MARK_MAX + 1) of
                     Inl err \<Rightarrow> (Inl err, log')
                   | Inr mark \<Rightarrow> (Inr (mark, body), log')))))"

definition check_argv :: "string \<Rightarrow> int \<Rightarrow> hm_project \<Rightarrow> string list" where
  "check_argv curl timeout p =
     curl_argv curl (p_check p = HM_CHECK_ETAG) timeout (copied (HM_URL_MAX + 1) (p_url p))"

section \<open>What the pipes deliver\<close>

text \<open>The body is the first \<open>HM_BODY_MAX - 1\<close> bytes of what was read; the rest was drained.\<close>

definition out_inv :: "string \<Rightarrow> poll_state \<Rightarrow> bool" where
  "out_inv stdout st \<longleftrightarrow>
     (\<exists>c. stdout = c @ ps_out st \<and> ps_body st = take (HM_BODY_MAX - 1) c) \<and>
     (ps_out_open st \<or> ps_out st = [])"

lemma kernel_read_one:
  "fst (kernel_read [ch] room data) = RGot n \<Longrightarrow> n \<le> length data \<and> n \<le> room \<and> (0 < room \<and> n = 0 \<longrightarrow> data = [])"
  using kernel_read_got [of "[ch]" room data n] by (cases "kernel_read [ch] room data") auto

lemma kernel_read_one_fail: "fst (kernel_read [ch] room data) = RFail \<Longrightarrow> ch = RdErr"
  by (cases ch) simp_all

lemma poll_out_fields [simp]:
  "ps_err_open (poll_out r st) = ps_err_open st" "ps_err (poll_out r st) = ps_err st"
  "ps_log (poll_out r st) = ps_log st"
  by (auto simp: poll_out_def Let_def split: option.split read_result.split)

lemma poll_err_fields [simp]:
  "ps_out_open (poll_err r st) = ps_out_open st" "ps_out (poll_err r st) = ps_out st"
  "ps_body (poll_err r st) = ps_body st"
  by (auto simp: poll_err_def Let_def split: option.split read_result.split)

lemma poll_out_inv:
  assumes "out_inv stdout st" "r \<noteq> Some RdErr"
  shows "out_inv stdout (poll_out r st)"
proof (cases "ps_out_open st \<and> r \<noteq> None")
  case False
  with assms(1) show ?thesis by (auto simp: poll_out_def split: option.split)
next
  case True
  then obtain ch where ch: "r = Some ch" "ps_out_open st" by auto
  from assms(1) obtain c where c: "stdout = c @ ps_out st" "ps_body st = take (HM_BODY_MAX - 1) c"
    by (auto simp: out_inv_def)
  have cap: "0 < out_capacity st" by (auto simp: out_capacity_def has_room_def)
  show ?thesis
  proof (cases "fst (kernel_read [ch] (out_capacity st) (ps_out st))")
    case RFail
    from kernel_read_one_fail [OF this] assms(2) ch show ?thesis by simp
  next
    case RIntr
    with ch assms(1) show ?thesis by (simp add: poll_out_def)
  next
    case (RGot n)
    note n = kernel_read_one [OF RGot]
    show ?thesis
    proof (cases "n = 0")
      case True
      with n cap have "ps_out st = []" by auto
      with ch RGot True c show ?thesis by (auto simp: poll_out_def Let_def out_inv_def)
    next
      case False
      have body: "(if has_room st then ps_body st @ take n (ps_out st) else ps_body st) =
          take (HM_BODY_MAX - 1) (c @ take n (ps_out st))"
      proof (cases "has_room st")
        case True
        then have "ps_body st = c" using c(2) by (auto simp: has_room_def min_def split: if_split_asm)
        with True n show ?thesis by (simp add: has_room_def out_capacity_def)
      next
        case no: False
        then have "HM_BODY_MAX - 1 \<le> length c" using c(2) by (simp add: has_room_def)
        with no c(2) show ?thesis by simp
      qed
      have "poll_out r st = st\<lparr>ps_body := (if has_room st then ps_body st @ take n (ps_out st) else ps_body st),
          ps_out := drop n (ps_out st)\<rparr>"
        using ch RGot False by (simp add: poll_out_def Let_def)
      then show ?thesis
        using ch c(1) body unfolding out_inv_def
        by (auto intro!: exI [of _ "c @ take n (ps_out st)"])
    qed
  qed
qed

definition no_poll_err :: "poll_event list \<Rightarrow> bool" where
  "no_poll_err evs \<longleftrightarrow>
     list_all (\<lambda>ev. case ev of PollFail \<Rightarrow> False | PollIntr \<Rightarrow> True | PollReady o1 e1 \<Rightarrow> o1 \<noteq> Some RdErr) evs"

lemma poll_loop_body:
  "poll_loop evs st = Some st' \<Longrightarrow> out_inv stdout st \<Longrightarrow> no_poll_err evs \<Longrightarrow>
   ps_body st' = take (HM_BODY_MAX - 1) stdout"
proof (induction evs arbitrary: st)
  case Nil
  then show ?case by (auto simp: poll_loop.simps [of "[]"] out_inv_def split: if_split_asm)
next
  case (Cons ev evs)
  show ?case
  proof (cases "\<not> ps_out_open st \<and> \<not> ps_err_open st")
    case True
    with Cons.prems show ?thesis by (auto simp: poll_loop.simps [of "_ # _"] out_inv_def)
  next
    case False
    have ok: "no_poll_err evs" using Cons.prems(3) by (simp add: no_poll_err_def)
    show ?thesis
    proof (cases ev)
      case PollIntr
      then show ?thesis
        using Cons.IH [of st] Cons.prems False ok by (simp add: poll_loop.simps [of "_ # _"])
    next
      case PollFail
      with Cons.prems(3) show ?thesis by (simp add: no_poll_err_def)
    next
      case (PollReady o1 e1)
      have "o1 \<noteq> Some RdErr" using Cons.prems(3) PollReady by (simp add: no_poll_err_def)
      then have "out_inv stdout (poll_err e1 (poll_out o1 st))"
        using poll_out_inv [OF Cons.prems(2)] by (simp add: out_inv_def)
      with Cons.IH Cons.prems(1) False ok PollReady show ?thesis
        by (simp add: poll_loop.simps [of "_ # _"])
    qed
  qed
qed

lemma run_curl_body:
  assumes "run_curl e log = (Inr body, log')" "no_poll_err (cu_polls e)"
  shows "body = take (HM_BODY_MAX - 1) (cu_stdout e)"
proof -
  from assms(1) obtain st where st: "poll_loop (cu_polls e) \<lparr>ps_out_open = True, ps_err_open = True,
      ps_body = [], ps_out = cu_stdout e, ps_err = cu_stderr e, ps_log = log\<rparr> = Some st" "body = ps_body st"
    by (auto simp: run_curl_def split: if_split_asm option.split_asm)
  from poll_loop_body [OF st(1) _ assms(2), of "cu_stdout e"] st(2) show ?thesis by (simp add: out_inv_def)
qed

text \<open>
  The loop ends: every turn that finds both pipes readable makes progress, so as many such turns as
  there are bytes, and one more for the end of file, are enough, however little each read gives.
\<close>

definition ready_both :: "poll_event \<Rightarrow> bool" where
  "ready_both ev = (case ev of PollReady (Some (RdUpTo n)) (Some (RdUpTo m)) \<Rightarrow> True | _ \<Rightarrow> False)"

definition pending :: "poll_state \<Rightarrow> nat" where
  "pending st = max (if ps_out_open st then Suc (length (ps_out st)) else 0)
                    (if ps_err_open st then Suc (length (ps_err st)) else 0)"

lemma poll_out_progress:
  assumes "ps_out_open st"
  shows "(if ps_out_open (poll_out (Some (RdUpTo n)) st) then Suc (length (ps_out (poll_out (Some (RdUpTo n)) st))) else 0)
           \<le> length (ps_out st)"
proof -
  have "0 < out_capacity st" by (auto simp: out_capacity_def has_room_def)
  with assms show ?thesis by (cases "ps_out st") (auto simp: poll_out_def Let_def)
qed

lemma poll_err_progress:
  assumes "ps_err_open st"
  shows "(if ps_err_open (poll_err (Some (RdUpTo n)) st) then Suc (length (ps_err (poll_err (Some (RdUpTo n)) st))) else 0)
           \<le> length (ps_err st)"
  using assms by (cases "ps_err st") (auto simp: poll_err_def Let_def)

lemma poll_closed:
  "\<not> ps_out_open st \<Longrightarrow> poll_out r st = st" "\<not> ps_err_open st \<Longrightarrow> poll_err r st = st"
  by (simp_all add: poll_out_def poll_err_def)

lemma pending_step:
  assumes "ps_out_open st \<or> ps_err_open st"
  shows "pending (poll_err (Some (RdUpTo m)) (poll_out (Some (RdUpTo n)) st)) < pending st"
proof -
  let ?st = "poll_err (Some (RdUpTo m)) (poll_out (Some (RdUpTo n)) st)"
  have o1: "(if ps_out_open ?st then Suc (length (ps_out ?st)) else 0) \<le>
      (if ps_out_open st then Suc (length (ps_out st)) else 0) - 1"
    using poll_out_progress [of st n] by (cases "ps_out_open st") (auto simp: poll_closed)
  have e1: "(if ps_err_open ?st then Suc (length (ps_err ?st)) else 0) \<le>
      (if ps_err_open st then Suc (length (ps_err st)) else 0) - 1"
    using poll_err_progress [of "poll_out (Some (RdUpTo n)) st" m]
    by (cases "ps_err_open st") (auto simp: poll_closed)
  show ?thesis using o1 e1 assms unfolding pending_def by (auto simp: max_def)
qed

lemma poll_loop_ends:
  "list_all ready_both evs \<Longrightarrow> pending st \<le> length evs \<Longrightarrow> poll_loop evs st \<noteq> None"
proof (induction evs arbitrary: st)
  case Nil
  then show ?case by (auto simp: poll_loop.simps pending_def split: if_split_asm)
next
  case (Cons ev evs)
  show ?case
  proof (cases "ps_out_open st \<or> ps_err_open st")
    case True
    from Cons.prems(1) obtain n m where ev: "ev = PollReady (Some (RdUpTo n)) (Some (RdUpTo m))"
      by (auto simp: ready_both_def split: poll_event.split_asm option.split_asm read_choice.split_asm)
    have "poll_loop evs (poll_err (Some (RdUpTo m)) (poll_out (Some (RdUpTo n)) st)) \<noteq> None"
      using Cons.prems pending_step [OF True, of m n] by (intro Cons.IH) auto
    with True ev show ?thesis by (simp add: poll_loop.simps [of "_ # _"])
  next
    case False
    then show ?thesis by (simp add: poll_loop.simps)
  qed
qed

section \<open>Headers: the last matching line\<close>

definition last_of :: "'a option list \<Rightarrow> 'a option \<Rightarrow> 'a option" where
  "last_of xs d = foldl (\<lambda>f x. case x of Some v \<Rightarrow> Some v | None \<Rightarrow> f) d xs"

lemma last_of_append: "last_of (xs @ ys) d = last_of ys (last_of xs d)"
  by (simp add: last_of_def)

lemma last_of_default: "last_of xs d = (case last_of xs None of Some v \<Rightarrow> Some v | None \<Rightarrow> d)"
  by (induction xs rule: rev_induct) (auto simp: last_of_def split: option.split)

lemma header_loop_lines: "header_loop name p found = last_of (map (header_line name) (text_lines p)) found"
proof (induction name p found rule: header_loop.induct)
  case (1 name p found)
  show ?case
  proof (cases "p = []")
    case True
    then show ?thesis by (simp add: header_loop.simps text_lines_def last_of_def)
  next
    case p: False
    show ?thesis
    proof (cases "memchr LF p")
      case None
      then have "text_lines p = [p]" using p by (simp add: text_lines_no_sep memchr_None)
      with None p show ?thesis
        by (simp add: header_loop.simps [of name p] header_loop.simps [of name "[]"] last_of_def Let_def)
    next
      case (Some i)
      have "text_lines p = take i p # text_lines (drop (Suc i) p)"
        by (subst memchr_split [OF Some]) (rule text_lines_sep, use memchr_SomeD [OF Some] in blast)
      moreover have "header_loop name (drop (Suc i) p)
          (case header_line name (take i p) of None \<Rightarrow> found | Some v \<Rightarrow> Some v) =
        last_of (map (header_line name) (text_lines (drop (Suc i) p)))
          (case header_line name (take i p) of None \<Rightarrow> found | Some v \<Rightarrow> Some v)"
        using 1 [OF p refl refl refl] Some by simp
      ultimately show ?thesis
        using p Some by (subst header_loop.simps) (simp add: Let_def last_of_def)
    qed
  qed
qed

lemma header_line_Nil [simp]: "header_line (n # name) [] = None"
  by (simp add: header_line_def trim_back_def)

lemma text_lines_append: "text_lines (a @ LF # b) = split_on LF a @ text_lines b"
proof (induction a rule: measure_induct_rule [where f = length])
  case (less a)
  show ?case
  proof (cases "memchr LF a")
    case None
    then show ?thesis by (simp add: memchr_None text_lines_sep split_on_no_sep)
  next
    case (Some i)
    note m = memchr_SomeD [OF Some]
    have a: "a = take i a @ LF # drop (Suc i) a" by (rule memchr_split [OF Some])
    have "split_on LF a = take i a # split_on LF (drop (Suc i) a)"
      by (subst a) (rule split_on_append_sep, use m in blast)
    moreover have "text_lines (a @ LF # b) = take i a # text_lines (drop (Suc i) a @ LF # b)"
      by (subst a) (simp, rule text_lines_sep, use m in blast)
    moreover have "text_lines (drop (Suc i) a @ LF # b) = split_on LF (drop (Suc i) a) @ text_lines b"
      using m by (intro less) auto
    ultimately show ?thesis by simp
  qed
qed

lemma last_of_split_on:
  "last_of (map (header_line (n # name)) (split_on LF a)) d =
   last_of (map (header_line (n # name)) (text_lines a)) d"
proof (cases "a = [] \<or> last (split_on LF a) = []")
  case True
  then have "last (split_on LF a) = []" by auto
  then have s: "split_on LF a = butlast (split_on LF a) @ [[]]"
    by (metis append_butlast_last_id split_on_nonempty)
  have t: "text_lines a = butlast (split_on LF a)" using True by (auto simp: text_lines_def)
  show ?thesis unfolding t by (subst s) (simp add: last_of_append last_of_def)
next
  case False
  then show ?thesis by (simp add: text_lines_def)
qed

section \<open>Versions: the first occurrence\<close>

definition occurs_at :: "string \<Rightarrow> string \<Rightarrow> nat \<Rightarrow> bool" where
  "occurs_at needle hay i \<longleftrightarrow> (\<exists>a b. hay = a @ needle @ b \<and> length a = i)"

lemma occurs_at_take: "occurs_at needle hay i \<longleftrightarrow> i + length needle \<le> length hay \<and> take (length needle) (drop i hay) = needle"
proof
  assume "occurs_at needle hay i"
  then show "i + length needle \<le> length hay \<and> take (length needle) (drop i hay) = needle"
    by (auto simp: occurs_at_def)
next
  assume a: "i + length needle \<le> length hay \<and> take (length needle) (drop i hay) = needle"
  then have "hay = take i hay @ needle @ drop (length needle) (drop i hay)"
    by (metis append_take_drop_id)
  with a show "occurs_at needle hay i"
    unfolding occurs_at_def by (intro exI [of _ "take i hay"] exI [of _ "drop (length needle) (drop i hay)"]) simp
qed

lemma find_loop_iff:
  "needle \<noteq> [] \<Longrightarrow> find_loop needle hay k = Some i \<longleftrightarrow>
     k \<le> i \<and> occurs_at needle hay (i - k) \<and> (\<forall>j < i - k. \<not> occurs_at needle hay j)"
proof (induction needle hay k rule: find_loop.induct)
  case (1 needle k)
  then show ?case by (simp add: occurs_at_take)
next
  case (2 needle c hay k)
  have suc: "occurs_at needle (c # hay) (Suc j) \<longleftrightarrow> occurs_at needle hay j" for j
    by (simp add: occurs_at_take)
  show ?case
  proof (cases "length needle > length (c # hay)")
    case True
    then show ?thesis by (auto simp: occurs_at_take)
  next
    case len: False
    show ?thesis
    proof (cases "take (length needle) (c # hay) = needle")
      case True
      then have z: "occurs_at needle (c # hay) 0" using len by (simp add: occurs_at_take)
      have "(k \<le> i \<and> occurs_at needle (c # hay) (i - k) \<and> (\<forall>j < i - k. \<not> occurs_at needle (c # hay) j)) \<longleftrightarrow> i = k"
        using z by (cases "i - k") auto
      with len True show ?thesis by auto
    next
      case False
      then have z: "\<not> occurs_at needle (c # hay) 0" by (simp add: occurs_at_take)
      have "(k \<le> i \<and> occurs_at needle (c # hay) (i - k) \<and> (\<forall>j < i - k. \<not> occurs_at needle (c # hay) j)) \<longleftrightarrow>
          (Suc k \<le> i \<and> occurs_at needle hay (i - Suc k) \<and> (\<forall>j < i - Suc k. \<not> occurs_at needle hay j))"
      proof (cases "k < i")
        case True
        then obtain d where d: "i - k = Suc d" "i - Suc k = d" by (metis Suc_diff_Suc)
        have "(\<forall>j < Suc d. \<not> occurs_at needle (c # hay) j) \<longleftrightarrow> (\<forall>j < d. \<not> occurs_at needle hay j)"
          using z suc by (metis Suc_less_eq less_Suc_eq_0_disj)
        with True show ?thesis by (simp add: d suc)
      next
        case nless: False
        then show ?thesis using z by (cases "i = k") auto
      qed
      with 2 len False show ?thesis by simp
    qed
  qed
qed

lemma find_sub_iff:
  "find_sub hay needle = Some i \<longleftrightarrow>
     needle \<noteq> [] \<and> occurs_at needle hay i \<and> (\<forall>j<i. \<not> occurs_at needle hay j)"
proof (cases "needle = [] \<or> length needle > length hay")
  case True
  then show ?thesis by (auto simp: find_sub_def occurs_at_take)
next
  case False
  then show ?thesis using find_loop_iff [of needle hay 0 i] by (simp add: find_sub_def)
qed

section \<open>Properties\<close>

text \<open>
  C39: The captured response is the child's standard output up to the size of the buffer less one
  byte, however the two pipes interleave, chunk and get interrupted: nothing before that bound is
  lost or reordered, the rest is drained and dropped. So the mark of a \<open>hash\<close> project is a digest
  of that bounded prefix: a change behind the first 4194303 bytes of a response goes unnoticed.
\<close>
theorem hash_mark_is_digest_of_bounded_body:
  assumes "hm_check xxh3 e p log = (Inr (mark, body), log')" "p_check p = HM_CHECK_HASH"
    and "no_poll_err (cu_polls e)"
  shows "body = take (HM_BODY_MAX - 1) (cu_stdout e) \<and> mark = hex64 (xxh3 (take (HM_BODY_MAX - 1) (cu_stdout e)))"
  using assms(1,2) run_curl_body [OF _ assms(3), of log]
  by (auto simp: hm_check_def hm_hash_hex_def split: if_split_asm sum.split_asm prod.split_asm)

definition sample_curl :: curl_env where
  "sample_curl = \<lparr>cu_pipe_ok = True, cu_stderr_pipe_ok = True, cu_fork_ok = True, cu_stdout = ''abc'',
     cu_stderr = [], cu_polls = [PollIntr, PollReady (Some (RdUpTo 0)) None, PollReady (Some (RdUpTo 9)) (Some (RdUpTo 0)),
       PollReady (Some RdIntr) None, PollReady (Some (RdUpTo 1)) None],
     cu_waits = [WaitEintr, Exited 0]\<rparr>"

definition hash_project :: hm_project where
  "hash_project = (project_defaults 1)\<lparr>p_url := ''u'', p_check := HM_CHECK_HASH\<rparr>"

lemma sample_run: "fst (run_curl sample_curl log) = Inr ''abc''"
  by (simp add: run_curl_def sample_curl_def poll_loop.simps poll_out_def poll_err_def out_capacity_def
      has_room_def hm_limits Let_def)

theorem hash_mark_is_digest_of_bounded_body_witness:
  "fst (hm_check (\<lambda>s. of_nat (length s)) sample_curl hash_project out_init) = Inr (hex64 3, ''abc'')"
proof -
  have "\<exists>m log'. hm_check (\<lambda>s. of_nat (length s)) sample_curl hash_project out_init = (Inr (m, ''abc''), log')"
    using sample_run [of out_init]
    by (cases "run_curl sample_curl out_init") (auto simp: hm_check_def hash_project_def hm_limits project_defaults_def)
  then obtain m log' where h: "hm_check (\<lambda>s. of_nat (length s)) sample_curl hash_project out_init = (Inr (m, ''abc''), log')"
    by blast
  have "no_poll_err (cu_polls sample_curl)" by (simp add: no_poll_err_def sample_curl_def)
  from hash_mark_is_digest_of_bounded_body [OF h _ this] h show ?thesis
    by (simp add: hash_project_def sample_curl_def hm_limits)
qed

text \<open>
  The poll loop always comes to an end once both pipes keep being readable: as many such turns
  as the longer of the two outputs has bytes, plus one for its end of file, suffice, even when
  every read transfers a single byte.
\<close>
theorem curl_loop_terminates:
  assumes "list_all ready_both evs" "pending st \<le> length evs"
  shows "poll_loop evs st \<noteq> None"
  using assms by (rule poll_loop_ends)

theorem curl_loop_terminates_witness:
  "poll_loop (replicate 4 (PollReady (Some (RdUpTo 0)) (Some (RdUpTo 0))))
     \<lparr>ps_out_open = True, ps_err_open = True, ps_body = [], ps_out = ''abc'', ps_err = ''x'', ps_log = out_init\<rparr> \<noteq> None"
  by (rule curl_loop_terminates) (simp_all add: ready_both_def pending_def list_all_iff)

text \<open>
  The header used is the value of its last line anywhere in the response to a HEAD request with
  redirects: when the final hop has the header, that one, and otherwise one of an earlier hop,
  although only the final hop describes the resource.
\<close>
theorem last_header_falls_back_to_earlier_hop:
  "last_header (hop1 @ LF # hop2) (n # name) =
     (case last_header hop2 (n # name) of Some v \<Rightarrow> Some v | None \<Rightarrow> last_header hop1 (n # name))"
  unfolding last_header_def header_loop_lines text_lines_append map_append last_of_append last_of_split_on
  by (rule last_of_default)

text \<open>
  The version is cut out at the first occurrences: when the response is
  \<open>before PREFIX version SUFFIX after\<close>, the prefix does not occur earlier and the suffix not earlier
  behind it, the mark is the text between them without surrounding blanks, as far as it fits.
\<close>
theorem version_between_first_occurrences:
  assumes "body = before @ p_version_prefix p @ ver @ p_version_suffix p @ after"
    and "p_version_prefix p \<noteq> []" "p_version_suffix p \<noteq> []"
    and "\<forall>j < length before. \<not> occurs_at (p_version_prefix p) body j"
    and "\<forall>j < length ver. \<not> occurs_at (p_version_suffix p) (ver @ p_version_suffix p @ after) j"
    and "trim_back {CR, CHR '' '', TAB} (trim_front ver) \<noteq> []"
  shows "extract_version p body cap = Inr (copied cap (trim_back {CR, CHR '' '', TAB} (trim_front ver)))"
proof -
  have "occurs_at (p_version_prefix p) body (length before)"
    unfolding occurs_at_def assms(1) by blast
  with assms(2,4) have pre: "find_sub body (p_version_prefix p) = Some (length before)" by (simp add: find_sub_iff)
  have rest: "drop (length before + length (p_version_prefix p)) body = ver @ p_version_suffix p @ after"
    unfolding assms(1) by simp
  have "occurs_at (p_version_suffix p) (ver @ p_version_suffix p @ after) (length ver)"
    unfolding occurs_at_def by blast
  with assms(3,5) have suf: "find_sub (ver @ p_version_suffix p @ after) (p_version_suffix p) = Some (length ver)"
    by (simp add: find_sub_iff)
  have "ver \<noteq> []" using assms(6) by (auto simp: trim_front_def trim_back_def)
  with assms(3,6) pre rest suf show ?thesis by (simp add: extract_version_def Let_def)
qed

theorem version_between_first_occurrences_witness:
  "extract_version (hash_project\<lparr>p_version_prefix := ''v='', p_version_suffix := '';''\<rparr>) ''x v= 1.2 ; v=3;'' 256 = Inr ''1.2''"
  by (subst version_between_first_occurrences [of _ "''x ''" _ "'' 1.2 ''" "'' v=3;''"])
    (simp_all add: All_less_Suc occurs_at_take trim_back_def trim_front_def copied_fits)

end
