(* ===== verification/HM_Options.thy ===== *)
theory HM_Options
  imports HM_Project HM_Env
begin

text \<open>
  Command lines (\<^verbatim>\<open>src/main.c\<close>): durations, the word splitter for the \<open>HACMAN\<close> variable and the option
  parser. \<open>hm_opts\<close> is the structure of the same name; \<open>prog_argv\<close>, a pointer into \<open>argv\<close>, is the
  list from FILE on. Results that end the program are values: the message of an error, or the text
  printed by \<open>--help\<close> and \<open>--version\<close>.
\<close>

section \<open>Durations\<close>

definition duration_unit :: "int \<Rightarrow> int \<times> char" where
  "duration_unit secs =
     (if secs < 60 then (secs, CHR ''s'')
      else if secs < 3600 then (secs sdiv 60, CHR ''m'')
      else if secs < 86400 then (secs sdiv 3600, CHR ''h'')
      else (secs sdiv 86400, CHR ''d''))"

definition fmt_duration :: "int \<Rightarrow> nat \<Rightarrow> string" where
  "fmt_duration secs cap =
     (let (v, unit) = duration_unit secs;
          digits = rev (digits_rev 24 (nat (if v < 0 then 0 else v)));
          tmp = take 31 digits;
          tmp' = (if length tmp + 1 < 32 then tmp @ [unit] else tmp)
      in copied cap tmp')"

section \<open>Words of the HACMAN variable\<close>

definition HM_ENV_OPTIONS_MAX :: nat where [hm_limits]: "HM_ENV_OPTIONS_MAX = 4096"
definition HM_ENV_ARG_MAX :: nat where [hm_limits]: "HM_ENV_ARG_MAX = 64"

definition env_space :: "char \<Rightarrow> bool" where
  "env_space c \<longleftrightarrow> c = CHR '' '' \<or> c = TAB \<or> c = LF \<or> c = CR \<or> c = FF \<or> c = VT"

datatype env_error = EnvTooLong | TooManyWords | IncompleteEscape | UnterminatedQuote

text \<open>
  The code splits in place: \<open>read\<close> and \<open>write\<close> are offsets into one buffer and \<open>write\<close> never
  overtakes \<open>read\<close>. \<open>env_word\<close> is the inner loop: from the state (buffer, read, write, quote) to the
  state behind the word. Reading at the end of the list reads the terminating NUL.
\<close>

definition at :: "string \<Rightarrow> nat \<Rightarrow> char" where
  "at buf i = (if i < length buf then buf ! i else NUL)"

function env_word :: "string \<Rightarrow> nat \<Rightarrow> nat \<Rightarrow> char \<Rightarrow> env_error + string \<times> nat \<times> nat \<times> char" where
  "env_word buf r w quote =
     (if at buf r = NUL \<or> (quote = NUL \<and> env_space (at buf r)) then Inr (buf, r, w, quote)
      else if at buf r = BSL then
        (if at buf (r + 1) = NUL then Inl IncompleteEscape
         else env_word (buf[w := at buf (r + 1)]) (r + 2) (w + 1) quote)
      else if at buf r = SQ \<or> at buf r = DQ then
        (if quote = NUL then env_word buf (r + 1) w (at buf r)
         else if quote = at buf r then env_word buf (r + 1) w NUL
         else env_word (buf[w := at buf r]) (r + 1) (w + 1) quote)
      else env_word (buf[w := at buf r]) (r + 1) (w + 1) quote)"
  by pat_completeness auto
termination
  by (relation "measure (\<lambda>(buf, r, w, quote). length buf - r)") (auto simp: at_def split: if_split_asm)

declare env_word.simps [simp del]

function skip_space :: "string \<Rightarrow> nat \<Rightarrow> nat" where
  "skip_space buf r = (if env_space (at buf r) then skip_space buf (r + 1) else r)"
  by pat_completeness auto
termination
  by (relation "measure (\<lambda>(buf, r). length buf - r)") (auto simp: at_def env_space_def split: if_split_asm)

declare skip_space.simps [simp del]

text \<open>The outer loop, with the offsets of the words found so far; the fuel bounds the words.\<close>

fun env_words :: "nat \<Rightarrow> string \<Rightarrow> nat \<Rightarrow> nat \<Rightarrow> nat list \<Rightarrow> env_error + string \<times> nat list" where
  "env_words 0 buf r w offs = Inr (buf, offs)"
| "env_words (Suc k) buf r w offs =
     (if at buf r = NUL then Inr (buf, offs)
      else
        (let r1 = skip_space buf r
         in if at buf r1 = NUL then Inr (buf, offs)
            else if length offs = HM_ENV_ARG_MAX then Inl TooManyWords
            else
              (case env_word buf r1 w NUL of
                 Inl e \<Rightarrow> Inl e
               | Inr (buf1, r2, w1, quote) \<Rightarrow>
                   if quote \<noteq> NUL then Inl UnterminatedQuote
                   else
                     (let r3 = skip_space buf1 r2
                      in env_words k (buf1[w1 := NUL]) r3 (w1 + 1) (offs @ [w])))))"

text \<open>The buffer holds the value and its NUL; the words are the C strings at the offsets.\<close>

definition parse_env_words :: "string \<Rightarrow> env_error + string list" where
  "parse_env_words v =
     (if length v > HM_ENV_OPTIONS_MAX then Inl EnvTooLong
      else
        (case env_words (HM_ENV_ARG_MAX + 1) (v @ [NUL]) 0 0 [] of
           Inl e \<Rightarrow> Inl e
         | Inr (buf, offs) \<Rightarrow> Inr (map (\<lambda>i. cstr (drop i buf)) offs)))"

section \<open>Options\<close>

record hm_opts =
  o_file :: "string option"
  o_prog_argv :: "string list"
  o_cache_dir :: "string option"
  o_check_only :: bool
  o_dry_run :: bool
  o_force :: bool
  o_adopt :: bool
  o_plan :: bool
  o_unpack :: bool
  o_verbose :: bool
  o_trace :: bool
  o_timeout :: int

definition opts_init :: hm_opts where
  "opts_init = \<lparr>o_file = None, o_prog_argv = [], o_cache_dir = None, o_check_only = False,
     o_dry_run = False, o_force = False, o_adopt = False, o_plan = False, o_unpack = False,
     o_verbose = False, o_trace = False, o_timeout = 15\<rparr>"

datatype arg_error =
    EnvFile string | CacheNeedsDir | TimeoutNeedsNumber | InvalidTimeout string | UnknownOption string
  | BadDebug | EnvWords env_error

datatype arg_result = ArgsOk hm_opts | ShowHelp | ShowVersion | ArgsFail arg_error

definition opt_is :: "string \<Rightarrow> string \<Rightarrow> string \<Rightarrow> bool" where
  "opt_is arg shrt lng \<longleftrightarrow> arg = shrt \<or> arg = lng"

definition is_option :: "string \<Rightarrow> bool" where
  "is_option a \<longleftrightarrow> \<not> (at a 0 \<noteq> CHR ''-'' \<or> a = ''-'')"

text \<open>The flags without an argument, in the order of the code's tests.\<close>

definition set_flag :: "string \<Rightarrow> hm_opts \<Rightarrow> hm_opts option" where
  "set_flag a o1 =
     (if opt_is a ''-c'' ''--check-only'' then Some (o1\<lparr>o_check_only := True\<rparr>)
      else if opt_is a ''-n'' ''--dry-run'' then Some (o1\<lparr>o_dry_run := True\<rparr>)
      else if opt_is a ''-f'' ''--force'' then Some (o1\<lparr>o_force := True\<rparr>)
      else if opt_is a ''-a'' ''--adopt'' then Some (o1\<lparr>o_adopt := True\<rparr>)
      else if opt_is a ''-p'' ''--plan'' then Some (o1\<lparr>o_plan := True\<rparr>)
      else if a = ''--unpack'' then Some (o1\<lparr>o_unpack := True\<rparr>)
      else if opt_is a ''-v'' ''--verbose'' then Some (o1\<lparr>o_verbose := True\<rparr>)
      else if opt_is a ''-x'' ''--trace'' then Some (o1\<lparr>o_trace := True\<rparr>)
      else None)"

text \<open>\<open>(int)v\<close> keeps the low 32 bits.\<close>

definition timeout_int :: "ulong \<Rightarrow> int" where
  "timeout_int v = sint (ucast v :: 32 word)"

fun parse_arg_list :: "bool \<Rightarrow> string list \<Rightarrow> hm_opts \<Rightarrow> arg_result" where
  "parse_arg_list env_only [] o1 = ArgsOk o1"
| "parse_arg_list env_only (a # as) o1 =
     (if \<not> is_option a then
        (if env_only then ArgsFail (EnvFile a)
         else ArgsOk (o1\<lparr>o_file := Some a, o_prog_argv := a # as\<rparr>))
      else
        (case set_flag a o1 of
           Some o2 \<Rightarrow> parse_arg_list env_only as o2
         | None \<Rightarrow>
             if opt_is a ''-h'' ''--help'' then ShowHelp
             else if opt_is a ''-V'' ''--version'' then ShowVersion
             else if a = ''--cache'' then
               (case as of
                  [] \<Rightarrow> ArgsFail CacheNeedsDir
                | d # as' \<Rightarrow> parse_arg_list env_only as' (o1\<lparr>o_cache_dir := Some d\<rparr>))
             else if opt_is a ''-t'' ''--timeout'' then
               (case as of
                  [] \<Rightarrow> ArgsFail TimeoutNeedsNumber
                | t # as' \<Rightarrow>
                    (case hm_parse_ulong t of
                       None \<Rightarrow> ArgsFail (InvalidTimeout t)
                     | Some v \<Rightarrow>
                         if v = 0 then ArgsFail (InvalidTimeout t)
                         else parse_arg_list env_only as' (o1\<lparr>o_timeout := timeout_int v\<rparr>)))
             else ArgsFail (UnknownOption a)))"

definition parse_args :: "string list \<Rightarrow> string list \<Rightarrow> arg_result" where
  "parse_args environ argv =
     (let env = hm_env_get environ;
          debugged =
            (case env_debug env of
               None \<Rightarrow> Some opts_init
             | Some d \<Rightarrow>
                 if d = [] then Some opts_init
                 else if d = ''1'' then Some (opts_init\<lparr>o_verbose := True, o_trace := True\<rparr>)
                 else if d \<noteq> ''0'' then None else Some opts_init)
      in case debugged of
           None \<Rightarrow> ArgsFail BadDebug
         | Some o1 \<Rightarrow>
             (case env_options env of
                None \<Rightarrow> parse_arg_list False (tl argv) o1
              | Some v \<Rightarrow>
                  if v = [] then parse_arg_list False (tl argv) o1
                  else
                    (case parse_env_words v of
                       Inl e \<Rightarrow> ArgsFail (EnvWords e)
                     | Inr ws \<Rightarrow>
                         (case parse_arg_list True ws o1 of
                            ArgsOk o2 \<Rightarrow> parse_arg_list False (tl argv) o2
                          | r \<Rightarrow> r))))"

section \<open>The splitter without the buffer\<close>

text \<open>The reference: words built as lists, the rest of the input as a list.\<close>

function word_ref :: "string \<Rightarrow> char \<Rightarrow> env_error + string \<times> string \<times> char" where
  "word_ref s q =
     (case s of
        [] \<Rightarrow> Inr ([], [], q)
      | c # t \<Rightarrow>
          if q = NUL \<and> env_space c then Inr ([], s, q)
          else if c = BSL then
            (case t of
               [] \<Rightarrow> Inl IncompleteEscape
             | d # u \<Rightarrow> map_sum id (\<lambda>(wd, rest, q'). (d # wd, rest, q')) (word_ref u q))
          else if c = SQ \<or> c = DQ then
            (if q = NUL then word_ref t c
             else if q = c then word_ref t NUL
             else map_sum id (\<lambda>(wd, rest, q'). (c # wd, rest, q')) (word_ref t q))
          else map_sum id (\<lambda>(wd, rest, q'). (c # wd, rest, q')) (word_ref t q))"
  by pat_completeness auto
termination
  by (relation "measure (\<lambda>(s, q). length s)") auto

declare word_ref.simps [simp del]

lemma env_space_facts [simp]:
  "\<not> env_space BSL" "\<not> env_space SQ" "\<not> env_space DQ" "\<not> env_space NUL" "env_space (CHR '' '')"
  by (simp_all add: env_space_def)

lemma word_ref_Nil [simp]: "word_ref [] q = Inr ([], [], q)"
  by (simp add: word_ref.simps)

fun words_ref :: "nat \<Rightarrow> string \<Rightarrow> env_error + string list" where
  "words_ref 0 s = (if dropWhile env_space s = [] then Inr [] else Inl TooManyWords)"
| "words_ref (Suc k) s =
     (if dropWhile env_space s = [] then Inr []
      else
        (case word_ref (dropWhile env_space s) NUL of
           Inl e \<Rightarrow> Inl e
         | Inr (wd, rest, q) \<Rightarrow>
             if q \<noteq> NUL then Inl UnterminatedQuote
             else map_sum id ((#) wd) (words_ref k (dropWhile env_space rest))))"

text \<open>The state of the buffer: \<open>s\<close> is still to be read, \<open>out\<close> has been written.\<close>

definition agree :: "string \<Rightarrow> nat \<Rightarrow> nat \<Rightarrow> string \<Rightarrow> string \<Rightarrow> bool" where
  "agree buf r w s out \<longleftrightarrow>
     drop r buf = s @ [NUL] \<and> NUL \<notin> set s \<and> take w buf = out \<and> length out = w \<and> w \<le> r"

lemma agree_at:
  assumes "agree buf r w s out"
  shows "at buf r = (case s of [] \<Rightarrow> NUL | c # t \<Rightarrow> c)" "r < length buf"
proof -
  from assms have d: "drop r buf = s @ [NUL]" by (simp add: agree_def)
  then show "r < length buf" by (metis append_is_Nil_conv drop_eq_Nil not_Cons_self2 not_le)
  moreover from d have "buf ! r = hd (s @ [NUL])" by (metis calculation hd_drop_conv_nth)
  ultimately show "at buf r = (case s of [] \<Rightarrow> NUL | c # t \<Rightarrow> c)" by (cases s) (simp_all add: at_def)
qed

lemma agree_skip: "agree buf r w (c # s) out \<Longrightarrow> agree buf (Suc r) w s out"
  unfolding agree_def by (auto simp: drop_Suc tl_drop [symmetric])

lemma agree_write:
  assumes "agree buf r w s out" "agree buf r' w s' out" "w \<le> r" "r < r'"
  shows "agree (buf[w := c]) r' (Suc w) s' (out @ [c])"
proof -
  have "w < length buf" using agree_at(2) [OF assms(1)] assms(3) by simp
  then have "take (Suc w) (buf[w := c]) = take w buf @ [c]" by (simp add: take_Suc_conv_app_nth)
  with assms(2-4) show ?thesis by (auto simp: agree_def drop_update_cancel)
qed

lemma agree_w: "agree buf r w (c # s) out \<Longrightarrow> w \<le> r"
  by (simp add: agree_def)

lemma env_word_ref:
  "agree buf r w s out \<Longrightarrow>
   (case word_ref s q of
      Inl e \<Rightarrow> env_word buf r w q = Inl e
    | Inr (wd, rest, q') \<Rightarrow> \<exists>buf' r'. env_word buf r w q = Inr (buf', r', w + length wd, q') \<and>
        agree buf' r' (w + length wd) rest (out @ wd))"
proof (induction s q arbitrary: buf r w out rule: word_ref.induct)
  case (1 s q)
  note at = agree_at(1) [OF "1.prems"]
  show ?case
  proof (cases s)
    case Nil
    with at "1.prems" show ?thesis by (simp add: env_word.simps [of buf r])
  next
    case (Cons c t)
    note ag = "1.prems" [unfolded Cons]
    have c: "at buf r = c" "c \<noteq> NUL" using at ag by (auto simp: Cons agree_def)
    have le: "w \<le> r" using ag by (rule agree_w)
    note ag1 = agree_skip [OF ag]
    note w1 = agree_write [OF ag ag1 le lessI]
    have lift: "case map_sum id (\<lambda>(wd, rest, q'). (d # wd, rest, q')) x of
        Inl e \<Rightarrow> y = Inl e
      | Inr (wd, rest, q') \<Rightarrow> \<exists>buf' r'. y = Inr (buf', r', w + length wd, q') \<and>
          agree buf' r' (w + length wd) rest (out @ wd)"
      if "case x of Inl e \<Rightarrow> y = Inl e
          | Inr (wd, rest, q') \<Rightarrow> \<exists>buf' r'. y = Inr (buf', r', Suc w + length wd, q') \<and>
              agree buf' r' (Suc w + length wd) rest ((out @ [d]) @ wd)"
      for d and x :: "env_error + string \<times> string \<times> char" and y
      using that by (cases x) auto
    show ?thesis
    proof (cases "q = NUL \<and> env_space c")
      case True
      with c ag show ?thesis by (simp add: Cons env_word.simps [of buf r] word_ref.simps)
    next
      case nospace: False
      show ?thesis
      proof (cases "c = BSL")
        case bsl: True
        show ?thesis
        proof (cases t)
          case Nil
          with agree_at(1) [OF ag1] bsl nospace c show ?thesis
            by (simp add: Cons env_word.simps [of buf r] word_ref.simps)
        next
          case (Cons d u)
          have d: "at buf (Suc r) = d" "d \<noteq> NUL"
            using agree_at(1) [OF ag1] ag1 by (auto simp: Cons agree_def)
          have ag2: "agree buf (Suc (Suc r)) w u out" using ag1 by (auto simp: Cons intro: agree_skip)
          have "agree (buf[w := d]) (Suc (Suc r)) (Suc w) u (out @ [d])"
            by (rule agree_write [OF ag ag2 le]) simp
          from lift [OF "1.IH"(1) [OF \<open>s = c # t\<close> nospace bsl Cons this]]
          have "case map_sum id (\<lambda>(wd, rest, q'). (d # wd, rest, q')) (word_ref u q) of
              Inl e \<Rightarrow> env_word (buf[w := d]) (Suc (Suc r)) (Suc w) q = Inl e
            | Inr (wd, rest, q') \<Rightarrow> \<exists>buf' r'. env_word (buf[w := d]) (Suc (Suc r)) (Suc w) q =
                Inr (buf', r', w + length wd, q') \<and> agree buf' r' (w + length wd) rest (out @ wd)" .
          moreover have "env_word buf r w q = env_word (buf[w := d]) (Suc (Suc r)) (Suc w) q"
            using bsl c d by (simp add: env_word.simps [of buf r])
          moreover have "word_ref s q = map_sum id (\<lambda>(wd, rest, q'). (d # wd, rest, q')) (word_ref u q)"
            using bsl Cons \<open>s = c # t\<close> by (simp add: word_ref.simps [of "_ # _"])
          ultimately show ?thesis by (simp only:)
        qed
      next
        case nobsl: False
        show ?thesis
        proof (cases "c = SQ \<or> c = DQ")
          case quote: True
          show ?thesis
          proof (cases "q = NUL")
            case True
            have "env_word buf r w q = env_word buf (Suc r) w c"
              using quote nobsl nospace c True by (simp add: env_word.simps [of buf r])
            moreover have "word_ref s q = word_ref t c"
              using quote nobsl nospace True by (simp add: Cons word_ref.simps [of "_ # _"])
            ultimately show ?thesis
              using "1.IH"(2) [OF Cons nospace nobsl quote True ag1] by (simp only:)
          next
            case inq: False
            show ?thesis
            proof (cases "q = c")
              case True
              have "env_word buf r w q = env_word buf (Suc r) w NUL"
                using quote nobsl nospace c inq True by (simp add: env_word.simps [of buf r])
              moreover have "word_ref s q = word_ref t NUL"
                using quote nobsl nospace inq True by (simp add: Cons word_ref.simps [of "_ # _"])
              ultimately show ?thesis
                using "1.IH"(3) [OF Cons nospace nobsl quote inq True ag1] by (simp only:)
            next
              case False
              have "env_word buf r w q = env_word (buf[w := c]) (Suc r) (Suc w) q"
                using quote nobsl nospace c inq False by (simp add: env_word.simps [of buf r])
              moreover have "word_ref s q = map_sum id (\<lambda>(wd, rest, q'). (c # wd, rest, q')) (word_ref t q)"
                using quote nobsl nospace inq False by (simp add: Cons word_ref.simps [of "_ # _"])
              ultimately show ?thesis
                using lift [OF "1.IH"(4) [OF Cons nospace nobsl quote inq False w1 [of c]]] by (simp only:)
            qed
          qed
        next
          case False
          have "env_word buf r w q = env_word (buf[w := c]) (Suc r) (Suc w) q"
            using nobsl nospace c False by (auto simp: env_word.simps [of buf r])
          moreover have "word_ref s q = map_sum id (\<lambda>(wd, rest, q'). (c # wd, rest, q')) (word_ref t q)"
            using nobsl nospace False by (auto simp: Cons word_ref.simps [of "_ # _"])
          ultimately show ?thesis
            using lift [OF "1.IH"(5) [OF Cons nospace nobsl False w1 [of c]]] by (simp only:)
        qed
      qed
    qed
  qed
qed

section \<open>All words\<close>

lemma word_ref_rest:
  "ensures (word_ref s q) (\<lambda>(wd, rest, q').
     (rest = [] \<or> env_space (hd rest)) \<and> set wd \<subseteq> set s \<and> set rest \<subseteq> set s)"
proof (induction s q rule: word_ref.induct)
  case (1 s q)
  show ?case
    apply (subst word_ref.simps)
    apply (intro hm_vcg)
          apply simp
         apply simp
    apply ((rule ensures_mono, (rule "1.IH"; assumption), force)+)
    done
qed

lemma agree_space: "agree buf r w s out \<Longrightarrow> \<exists>r'. skip_space buf r = r' \<and> agree buf r' w (dropWhile env_space s) out \<and>
    (s \<noteq> [] \<and> env_space (hd s) \<longrightarrow> w < r')"
proof (induction s arbitrary: r)
  case Nil
  then show ?case using agree_at(1) [OF Nil] by (subst skip_space.simps) simp
next
  case (Cons c s)
  have c: "at buf r = c" using agree_at(1) [OF Cons.prems] by simp
  have le: "w \<le> r" using Cons.prems by (rule agree_w)
  show ?case
  proof (cases "env_space c")
    case False
    with c Cons.prems show ?thesis by (simp add: skip_space.simps [of buf r])
  next
    case True
    from Cons.IH [OF agree_skip [OF Cons.prems]] obtain r'
      where r': "skip_space buf (Suc r) = r'" "agree buf r' w (dropWhile env_space s) out" by blast
    have mono: "i \<le> skip_space buf i" for i
      by (induction buf i rule: skip_space.induct) (subst skip_space.simps, fastforce)
    have "Suc r \<le> r'" using mono [of "Suc r"] r'(1) by simp
    with True c r' le show ?thesis by (simp add: skip_space.simps [of buf r])
  qed
qed

fun offsets :: "nat \<Rightarrow> string list \<Rightarrow> nat list" where
  "offsets w [] = []"
| "offsets w (x # xs) = w # offsets (w + length x + 1) xs"

definition packed :: "string list \<Rightarrow> string" where
  "packed ws = concat (map (\<lambda>x. x @ [NUL]) ws)"

lemma offsets_append: "offsets w (xs @ [x]) = offsets w xs @ [w + length (packed xs)]"
  by (induction xs arbitrary: w) (simp_all add: packed_def)

lemma cstr_word: "NUL \<notin> set x \<Longrightarrow> cstr (x @ NUL # t) = x"
  by (induction x) (auto simp: cstr_Cons)

lemma unpack_words:
  "list_all (\<lambda>x. NUL \<notin> set x) ws \<Longrightarrow>
   map (\<lambda>i. cstr (drop i (pre @ packed ws @ tail))) (offsets (length pre) ws) = ws"
proof (induction ws arbitrary: pre)
  case Nil
  then show ?case by simp
next
  case (Cons x ws)
  have "pre @ packed (x # ws) @ tail = (pre @ x @ [NUL]) @ packed ws @ tail" by (simp add: packed_def)
  with Cons.IH [of "pre @ x @ [NUL]"] Cons.prems show ?case
    by (simp add: packed_def cstr_word)
qed

text \<open>Behind the last word, the NUL just written may be the one that ends the buffer.\<close>

definition between :: "string \<Rightarrow> nat \<Rightarrow> nat \<Rightarrow> string \<Rightarrow> string \<Rightarrow> bool" where
  "between buf r w s out \<longleftrightarrow> agree buf r w s out \<or> (s = [] \<and> at buf r = NUL \<and> take w buf = out)"

lemma between_at_end:
  "between buf r w s out \<Longrightarrow> at buf r = NUL \<Longrightarrow> dropWhile env_space s = []"
  using agree_at(1) [of buf r w s out] by (cases s) (auto simp: between_def agree_def)

lemma between_split: "between buf r w s out \<Longrightarrow> \<exists>tail. buf = out @ tail"
  unfolding between_def agree_def by (metis append_take_drop_id)

lemma between_skip:
  assumes "between buf r w s out" "at buf r \<noteq> NUL"
  shows "\<exists>r1. skip_space buf r = r1 \<and> agree buf r1 w (dropWhile env_space s) out"
  using assms agree_space [of buf r w s out] by (auto simp: between_def)

lemma length_offsets [simp]: "length (offsets n xs) = length xs"
  by (induction xs arbitrary: n) simp_all

lemma env_words_ref:
  assumes "between buf r w s (packed done)" "length done + k = HM_ENV_ARG_MAX"
    and "list_all (\<lambda>x. NUL \<notin> set x) done" "w = length (packed done)"
  shows "case words_ref k s of
      Inl e \<Rightarrow> env_words (Suc k) buf r w (offsets 0 done) = Inl e
    | Inr ws \<Rightarrow> \<exists>buf' tail. env_words (Suc k) buf r w (offsets 0 done) = Inr (buf', offsets 0 (done @ ws)) \<and>
        buf' = packed (done @ ws) @ tail \<and> list_all (\<lambda>x. NUL \<notin> set x) ws"
  using assms
proof (induction k s arbitrary: buf r w "done" rule: words_ref.induct)
  case (1 s)
  note tail = between_split [OF "1.prems"(1)]
  show ?case
  proof (cases "at buf r = NUL")
    case True
    with between_at_end [OF "1.prems"(1)] tail show ?thesis by auto
  next
    case nz: False
    from between_skip [OF "1.prems"(1) nz] obtain r1
      where r1: "skip_space buf r = r1" "agree buf r1 w (dropWhile env_space s) (packed done)" by blast
    show ?thesis
    proof (cases "dropWhile env_space s = []")
      case True
      then have "at buf r1 = NUL" using agree_at(1) [OF r1(2)] unfolding True by simp
      then have "env_words (Suc 0) buf r w (offsets 0 done) = Inr (buf, offsets 0 done)"
        using nz r1(1) by (simp add: Let_def)
      with True tail show ?thesis by auto
    next
      case False
      then obtain c t where ct: "dropWhile env_space s = c # t" by (cases "dropWhile env_space s") auto
      with agree_at(1) [OF r1(2)] r1(2) have "at buf r1 \<noteq> NUL" by (auto simp: agree_def)
      moreover have "length done = HM_ENV_ARG_MAX" using "1.prems"(2) by simp
      ultimately have "env_words (Suc 0) buf r w (offsets 0 done) = Inl TooManyWords"
        using nz r1(1) by (simp add: Let_def)
      then show ?thesis using False by simp
    qed
  qed
next
  case (2 k s)
  have len: "length (offsets 0 done) \<noteq> HM_ENV_ARG_MAX" using "2.prems"(2) by simp
  note tail = between_split [OF "2.prems"(1)]
  consider (fin) "at buf r = NUL" | (blank) "at buf r \<noteq> NUL" "dropWhile env_space s = []"
    | (word) "at buf r \<noteq> NUL" "dropWhile env_space s \<noteq> []" by blast
  then show ?case
  proof cases
    case fin
    with between_at_end [OF "2.prems"(1)] tail show ?thesis by auto
  next
    case blank
    from between_skip [OF "2.prems"(1) blank(1)] obtain r1
      where r1: "skip_space buf r = r1" "agree buf r1 w (dropWhile env_space s) (packed done)" by blast
    then have "at buf r1 = NUL" using agree_at(1) [OF r1(2)] unfolding blank(2) by simp
    then have "env_words (Suc (Suc k)) buf r w (offsets 0 done) = Inr (buf, offsets 0 done)"
      using blank(1) r1(1) by (simp add: Let_def)
    with blank(2) tail show ?thesis by auto
  next
    case word
    note nz0 = word(1) and ne = word(2)
    from between_skip [OF "2.prems"(1) nz0] obtain r1
      where r1: "skip_space buf r = r1" "agree buf r1 w (dropWhile env_space s) (packed done)" by blast
    from ne obtain c t where ct: "dropWhile env_space s = c # t" by (cases "dropWhile env_space s") auto
    with agree_at(1) [OF r1(2)] r1(2) have nz: "at buf r1 \<noteq> NUL" by (auto simp: agree_def)
    have start: "env_words (Suc (Suc k)) buf r w (offsets 0 done) =
        (case env_word buf r1 w NUL of
           Inl e \<Rightarrow> Inl e
         | Inr (buf1, r2, w1, quote) \<Rightarrow>
             if quote \<noteq> NUL then Inl UnterminatedQuote
             else env_words (Suc k) (buf1[w1 := NUL]) (skip_space buf1 r2) (w1 + 1) (offsets 0 done @ [w]))"
      using nz0 nz len r1(1) by (simp only: env_words.simps Let_def if_False)
    note word = env_word_ref [OF r1(2), of NUL]
    show ?thesis
    proof (cases "word_ref (dropWhile env_space s) NUL")
      case (Inl e)
      with word have "env_word buf r1 w NUL = Inl e" by simp
      then show ?thesis unfolding start using ne Inl by simp
    next
      case (Inr x)
      obtain wd rest q where x: "x = (wd, rest, q)" by (cases x) auto
      from word Inr x obtain buf1 r2 where
        ew: "env_word buf r1 w NUL = Inr (buf1, r2, w + length wd, q)" and
        ag: "agree buf1 r2 (w + length wd) rest (packed done @ wd)" by auto
      show ?thesis
      proof (cases "q = NUL")
        case False
        then show ?thesis unfolding start ew using ne Inr x by simp
      next
        case True
        from ensuresD [OF word_ref_rest Inr] x have
          rest: "rest = [] \<or> env_space (hd rest)" "set wd \<subseteq> set (dropWhile env_space s)" by auto
        have wd: "NUL \<notin> set wd" using rest(2) r1(2) by (auto simp: agree_def)
        let ?w1 = "w + length wd"
        obtain r3 where r3: "skip_space buf1 r2 = r3" "agree buf1 r3 ?w1 (dropWhile env_space rest) (packed done @ wd)"
          "rest \<noteq> [] \<and> env_space (hd rest) \<longrightarrow> ?w1 < r3"
          using agree_space [OF ag] by blast
        have packed': "packed (done @ [wd]) = (packed done @ wd) @ [NUL]" by (simp add: packed_def)
        have "?w1 < length buf1" using agree_at(2) [OF r3(2)] r3(2) [unfolded agree_def] by simp
        then have tk: "take (Suc ?w1) (buf1[?w1 := NUL]) = take ?w1 buf1 @ [NUL]"
          by (simp add: take_Suc_conv_app_nth)
        have ag': "between (buf1[?w1 := NUL]) r3 (Suc ?w1) (dropWhile env_space rest) (packed (done @ [wd]))"
        proof (cases "rest = []")
          case True
          have "at (buf1[?w1 := NUL]) r3 = NUL"
            using agree_at [OF r3(2)] True by (cases "?w1 = r3") (simp_all add: at_def)
          moreover have "take (Suc ?w1) (buf1[?w1 := NUL]) = packed (done @ [wd])"
            using tk r3(2) by (simp add: packed' agree_def)
          ultimately show ?thesis using True by (simp add: between_def)
        next
          case False
          with rest(1) r3(3) have "?w1 < r3" by simp
          with r3(2) tk have "agree (buf1[?w1 := NUL]) r3 (Suc ?w1) (dropWhile env_space rest) (packed (done @ [wd]))"
            unfolding packed' by (simp add: agree_def)
          then show ?thesis by (simp add: between_def)
        qed
        have offs: "offsets 0 done @ [w] = offsets 0 (done @ [wd])"
          using "2.prems"(4) by (simp add: offsets_append)
        have go: "env_words (Suc (Suc k)) buf r w (offsets 0 done) =
            env_words (Suc k) (buf1[?w1 := NUL]) r3 (Suc ?w1) (offsets 0 (done @ [wd]))"
          unfolding start ew using True r3(1) offs by simp
        have ih: "case words_ref k (dropWhile env_space rest) of
            Inl e \<Rightarrow> env_words (Suc (Suc k)) buf r w (offsets 0 done) = Inl e
          | Inr ws \<Rightarrow> \<exists>buf' tail. env_words (Suc (Suc k)) buf r w (offsets 0 done) =
                Inr (buf', offsets 0 ((done @ [wd]) @ ws)) \<and>
              buf' = packed ((done @ [wd]) @ ws) @ tail \<and> list_all (\<lambda>x. NUL \<notin> set x) ws"
          unfolding go
          by (rule "2.IH" [OF ne Inr x [symmetric] refl _ ag']) (use True "2.prems" wd in \<open>auto simp: packed_def\<close>)
        show ?thesis
        proof (cases "words_ref k (dropWhile env_space rest)")
          case (Inl e)
          with ih ne Inr x True show ?thesis by simp
        next
          case wsr: (Inr ws)
          have "words_ref (Suc k) s = Inr (wd # ws)" using wsr ne Inr x True by simp
          with ih wsr wd show ?thesis by simp
        qed
      qed
    qed
  qed
qed

lemma parse_env_words_eq:
  assumes "NUL \<notin> set v" "length v \<le> HM_ENV_OPTIONS_MAX"
  shows "parse_env_words v = words_ref HM_ENV_ARG_MAX v"
proof -
  have "between (v @ [NUL]) 0 0 v (packed [])" using assms(1) by (simp add: between_def agree_def packed_def)
  note r = env_words_ref [OF this, of HM_ENV_ARG_MAX, simplified]
  show ?thesis
  proof (cases "words_ref HM_ENV_ARG_MAX v")
    case (Inl e)
    with r assms(2) show ?thesis by (simp add: parse_env_words_def packed_def)
  next
    case (Inr ws)
    with r obtain tail where e: "env_words (Suc HM_ENV_ARG_MAX) (v @ [NUL]) 0 0 [] = Inr (packed ws @ tail, offsets 0 ws)"
      and ws: "list_all (\<lambda>x. NUL \<notin> set x) ws" by (auto simp: packed_def)
    from unpack_words [OF ws, of "[]" tail] e Inr assms(2) show ?thesis by (simp add: parse_env_words_def)
  qed
qed

section \<open>Quoting\<close>

text \<open>One way to write any word so that it is read back: every byte escaped, an empty word quoted.\<close>

definition quote_word :: "string \<Rightarrow> string" where
  "quote_word w = (if w = [] then [SQ, SQ] else concat (map (\<lambda>c. [BSL, c]) w))"

fun quote_words :: "string list \<Rightarrow> string" where
  "quote_words [] = []"
| "quote_words (w # ws) = quote_word w @ CHR '' '' # quote_words ws"

lemma word_ref_escaped:
  "word_ref (concat (map (\<lambda>c. [BSL, c]) w) @ CHR '' '' # t) NUL = Inr (w, CHR '' '' # t, NUL)"
  by (induction w) (simp_all add: word_ref.simps [of "_ # _"])

lemma word_ref_quote: "word_ref (quote_word w @ CHR '' '' # t) NUL = Inr (w, CHR '' '' # t, NUL)"
  by (cases "w = []") (simp_all add: quote_word_def word_ref_escaped word_ref.simps [of "_ # _"])

lemma quote_word_start: "dropWhile env_space (quote_word w @ t) = quote_word w @ t"
  by (cases w) (simp_all add: quote_word_def)

lemma words_ref_quote: "length ws \<le> k \<Longrightarrow> words_ref k (quote_words ws) = Inr ws"
proof (induction ws arbitrary: k)
  case Nil
  then show ?case by (cases k) simp_all
next
  case (Cons w ws)
  then obtain k' where k: "k = Suc k'" "length ws \<le> k'" by (cases k) auto
  have "dropWhile env_space (quote_words ws) = quote_words ws"
    by (cases ws) (simp_all add: quote_word_start)
  with Cons.IH [OF k(2)] show ?case
    by (simp add: k(1) quote_word_start word_ref_quote)
qed

section \<open>Option lists\<close>

lemma parse_arg_list_append:
  "parse_arg_list True ws o1 = ArgsOk o2 \<Longrightarrow> parse_arg_list False (ws @ rest) o1 = parse_arg_list False rest o2"
proof (induction True ws o1 rule: parse_arg_list.induct)
  case (1 o1)
  then show ?case by simp
next
  case (2 a as o1)
  show ?case
  proof (cases "set_flag a o1")
    case (Some o3)
    with 2 show ?thesis by (auto split: if_split_asm)
  next
    case None
    with 2 show ?thesis
      by (auto split: if_split_asm list.split_asm option.split_asm)
  qed
qed

section \<open>Properties\<close>

text \<open>
  C40: The in-place word splitter of the \<open>HACMAN\<close> variable computes what a splitter without a shared
  buffer computes: the write offset never overtakes the read offset, so no byte is lost before it
  is read, and the words found are those of the reference, errors included.
\<close>
theorem env_words_in_place_correct:
  assumes "NUL \<notin> set v" "length v \<le> HM_ENV_OPTIONS_MAX"
  shows "parse_env_words v = words_ref HM_ENV_ARG_MAX v"
  using assms by (rule parse_env_words_eq)

theorem env_words_in_place_correct_witness:
  "parse_env_words ''-v '' = Inr [''-v'']"
  by (subst env_words_in_place_correct)
    (simp_all add: hm_limits numeral_eq_Suc env_space_def word_ref.simps)

text \<open>
  Any list of at most 64 words can be passed through the \<open>HACMAN\<close> variable unchanged: with every
  byte escaped by a backslash (an empty word quoted) and a blank between words, splitting gives
  exactly those words, blanks, quotes and backslashes in them included.
\<close>
theorem env_words_quoting_round_trip:
  assumes "length ws \<le> HM_ENV_ARG_MAX" "list_all (\<lambda>w. NUL \<notin> set w) ws"
    and "length (quote_words ws) \<le> HM_ENV_OPTIONS_MAX"
  shows "parse_env_words (quote_words ws) = Inr ws"
proof -
  have "list_all (\<lambda>w. NUL \<notin> set w) us \<Longrightarrow> NUL \<notin> set (quote_words us)" for us
    by (induction us) (auto simp: quote_word_def)
  with assms show ?thesis by (simp add: parse_env_words_eq words_ref_quote)
qed

theorem env_words_quoting_round_trip_witness:
  "parse_env_words (quote_words [''a b'', [], [BSL, DQ]]) = Inr [''a b'', [], [BSL, DQ]]"
  by (rule env_words_quoting_round_trip) (simp_all add: hm_limits quote_word_def)

text \<open>
  The options in \<open>HACMAN\<close> act as if prepended to the command line, and FILE ends hacman's
  arguments: whatever follows it, options included, is handed over untouched.
\<close>
theorem arguments_after_file_untouched:
  assumes "env_debug (hm_env_get environ) = None" "env_options (hm_env_get environ) = Some v" "v \<noteq> []"
    and "parse_env_words v = Inr ws" "parse_arg_list True ws opts_init = ArgsOk o1"
    and "parse_arg_list True opts o1 = ArgsOk o2" "\<not> is_option name"
  shows "parse_args environ (prog # opts @ name # args) = parse_arg_list False (ws @ opts @ name # args) opts_init \<and>
    parse_args environ (prog # opts @ name # args) = ArgsOk (o2\<lparr>o_file := Some name, o_prog_argv := name # args\<rparr>)"
proof -
  have "parse_args environ (prog # opts @ name # args) = parse_arg_list False (opts @ name # args) o1"
    using assms(1-5) by (simp add: parse_args_def)
  with parse_arg_list_append [OF assms(5), of "opts @ name # args"]
    parse_arg_list_append [OF assms(6), of "name # args"] assms(7)
  show ?thesis by simp
qed

theorem arguments_after_file_untouched_witness:
  "parse_args [''HACMAN=-v''] [''hacman'', ''-f'', ''x.siml'', ''-c'', ''--help''] =
     ArgsOk (opts_init\<lparr>o_verbose := True, o_force := True, o_file := Some ''x.siml'',
       o_prog_argv := [''x.siml'', ''-c'', ''--help'']\<rparr>)"
proof -
  have "parse_env_words ''-v'' = Inr [''-v'']"
    by (subst parse_env_words_eq) (simp_all add: hm_limits numeral_eq_Suc env_space_def word_ref.simps)
  then show ?thesis
    using arguments_after_file_untouched [of "[''HACMAN=-v'']" "''-v''" "[''-v'']" "opts_init\<lparr>o_verbose := True\<rparr>"
        "[''-f'']" "opts_init\<lparr>o_verbose := True, o_force := True\<rparr>" "''x.siml''" "''hacman''" "[''-c'', ''--help'']"]
    by (simp add: hm_env_get_getenv getenv_def starts_with_def is_option_def at_def set_flag_def opt_is_def opts_init_def)
qed

end
