(* ===== verification/HM_Driver.thy ===== *)
theory HM_Driver
  imports HM_Options HM_Config_Inv HM_Lock HM_Check
begin

text \<open>
  The driver (\<open>main\<close> and its helpers, \<^verbatim>\<open>src/main.c\<close>), composed of the component models. What the world
  answers is the record \<open>host\<close>, one field per call site, so that a run is a function of it; what the
  program does is the trace of its actions, the files of the cache directory and the outcome. The
  steps that run shell code (reset, files, command, install, unpack) appear with their success.
\<close>

datatype outcome =
    Exit nat
  | Program string "string list"
  | Blocked

datatype action =
    ALoad
  | ALock
  | AUnlock
  | AReset string
  | AMaterialize string
  | ACommand string
  | ACheck
  | AInstall string string string
  | ASave hm_cache
  | AExec string "string list"
  | AUnpack string
  | APlan
  | ASay string

record host =
  h_environ :: "string list"
  h_input :: input_os
  h_siml :: "string \<Rightarrow> siml_event list"
  h_xxh3 :: "string \<Rightarrow> ulong"
  h_version :: string
  h_cwd :: "string option"
  h_fdlink :: "string option"
  h_realpath :: "string option"
  h_unreadable1 :: bool
  h_reads1 :: "read_choice list"
  h_time1 :: int
  h_x_due1 :: bool
  h_exec1 :: bool
  h_x_repair :: bool
  h_lock :: lock_env
  h_others :: "cache_fs \<Rightarrow> cache_fs"
  h_unreadable2 :: bool
  h_reads2 :: "read_choice list"
  h_time2 :: int
  h_x_due2 :: bool
  h_reset :: bool
  h_materialize :: bool
  h_command :: bool
  h_curl :: curl_env
  h_x_missing :: bool
  h_install :: bool
  h_unpack :: bool
  h_save :: save_env
  h_exec2 :: bool

record run =
  r_fs :: cache_fs
  r_log :: out_state
  r_trace :: "action list"

definition act :: "action \<Rightarrow> run \<Rightarrow> run" where
  "act a r = r\<lparr>r_trace := r_trace r @ [a]\<rparr>"

section \<open>The scheduling decision\<close>

text \<open>Whether to act now, and \<open>*wait_out\<close>. \<open>x_ok\<close> is what \<open>access(bin_path, X_OK)\<close> would say.\<close>

definition is_due :: "hm_project \<Rightarrow> hm_cache \<Rightarrow> int \<Rightarrow> hm_opts \<Rightarrow> int \<Rightarrow> bool \<Rightarrow> bool \<Rightarrow> bool \<times> int" where
  "is_due p c now opts wait check_bin x_ok =
     (if o_force opts then (True, wait)
      else if check_bin \<and> p_bin_cached p \<and> \<not> x_ok then (True, wait)
      else if length (p_files p) > 0 \<and> \<not> k_known c then (True, wait)
      else if length (p_files p) > 0 \<and> (\<not> p_schedule_explicit p \<or> p_sched_kind p = HM_SCHED_NEVER) then (False, wait)
      else if p_sched_kind p = HM_SCHED_ALWAYS then (True, wait)
      else if p_sched_kind p = HM_SCHED_NEVER then (False, - 1)
      else if k_last_check c = 0 then (True, wait)
      else
        (let elapsed = to_long (now - k_last_check c)
         in if elapsed < 0 then (True, wait)
            else if elapsed \<ge> p_sched_interval p then (True, wait)
            else (False, p_sched_interval p - elapsed)))"

definition report_skip :: "hm_project \<Rightarrow> hm_opts \<Rightarrow> int \<Rightarrow> run \<Rightarrow> run" where
  "report_skip p opts wait r =
     (if \<not> o_verbose opts then r
      else if length (p_files p) > 0 \<and> (\<not> p_schedule_explicit p \<or> p_sched_kind p = HM_SCHED_NEVER) then
        act (ASay (''skip     '' @ p_name p @ '' (embedded inputs unchanged)'' @ [LF])) r
      else if wait < 0 then act (ASay (''skip     '' @ p_name p @ '' (schedule: never)'' @ [LF])) r
      else act (ASay (''skip     '' @ p_name p @ '' (next run in '' @ fmt_duration wait 32 @ '')'' @ [LF])) r)"

section \<open>Handing over\<close>

definition exec_args :: "hm_project \<Rightarrow> hm_opts \<Rightarrow> string list" where
  "exec_args p opts = p_bin_path p # tl (o_prog_argv opts)"

definition finish :: "host \<Rightarrow> hm_project \<Rightarrow> hm_opts \<Rightarrow> nat \<Rightarrow> run \<Rightarrow> outcome \<times> run" where
  "finish h p opts rc r =
     (if rc \<noteq> 0 \<or> p_bin_path p = [] then (Exit rc, r)
      else if o_plan opts \<or> o_check_only opts \<or> o_dry_run opts \<or> o_adopt opts then (Exit rc, r)
      else
        (let r1 = act (AExec (p_bin_path p) (exec_args p opts)) r
         in if h_exec2 h then (Program (p_bin_path p) (exec_args p opts), r1) else (Exit 127, r1)))"

definition finish_locked :: "host \<Rightarrow> hm_project \<Rightarrow> hm_opts \<Rightarrow> bool \<Rightarrow> nat \<Rightarrow> run \<Rightarrow> outcome \<times> run" where
  "finish_locked h p opts locked rc r = finish h p opts rc (if locked then act AUnlock r else r)"

section \<open>Paths\<close>

definition resolve_cached_bin :: "hm_project \<Rightarrow> hm_cache \<Rightarrow> hm_project option" where
  "resolve_cached_bin p c =
     (if p_bin_path p = [] \<or> p_bin_path p ! 0 = SLASH then Some p
      else if length (k_workdir c) + 1 + length (p_bin_path p) > HM_PATH_MAX then None
      else Some (p\<lparr>p_bin_path := k_workdir c @ [SLASH] @ p_bin_path p\<rparr>))"

definition deleted_suffix :: string where
  "deleted_suffix = '' (deleted)''"

definition resolve_source_path :: "host \<Rightarrow> string option" where
  "resolve_source_path h =
     (case h_fdlink h of
        None \<Rightarrow> h_realpath h
      | Some l \<Rightarrow>
          if length l > 0 \<and> length l < HM_PATH_MAX + 1 \<and> l ! 0 = SLASH \<and>
             (length l < length deleted_suffix \<or> drop (length l - length deleted_suffix) l \<noteq> deleted_suffix)
          then Some l else h_realpath h)"

definition confirm_default_bin :: "host \<Rightarrow> string \<Rightarrow> bool \<Rightarrow> string option \<Rightarrow> bool" where
  "confirm_default_bin h name canonical known =
     (if canonical then True
      else
        (case (case known of Some k \<Rightarrow> Some k | None \<Rightarrow> resolve_source_path h) of
           None \<Rightarrow> False
         | Some own \<Rightarrow> hm_str_eq_str (hm_bin_name_of name) (hm_bin_name_of own)))"

section \<open>Saving\<close>

definition do_save :: "host \<Rightarrow> hm_cache \<Rightarrow> run \<Rightarrow> nat \<times> run" where
  "do_save h c r =
     (case hm_cache_save (h_save h) c (r_fs r) of
        (ok, fs) \<Rightarrow> (if ok then 0 else 2, act (ASave c) (r\<lparr>r_fs := fs\<rparr>)))"

section \<open>Command projects\<close>

definition run_command_project ::
  "host \<Rightarrow> hm_project \<Rightarrow> hm_opts \<Rightarrow> int \<Rightarrow> hm_cache \<Rightarrow> run \<Rightarrow> nat \<times> run" where
  "run_command_project h p opts now c r =
     (if o_check_only opts \<or> o_dry_run opts then
        (10, act (ASay (''due      '' @ p_name p @ [LF])) r)
      else
        (let saved = (\<lambda>r'. do_save h (c\<lparr>k_last_check := now, k_last_change := now\<rparr>) r')
         in if o_adopt opts then saved r
            else
              (let r1 = (if o_verbose opts then act (ASay (''run      '' @ p_name p @ [LF])) r else r);
                   r2 = (if k_known c then r1 else act (AReset (k_workdir c)) r1)
               in if \<not> k_known c \<and> \<not> h_reset h then (2, r2)
                  else
                    (let r3 = (if length (p_files p) > 0 then act (AMaterialize (k_workdir c)) r2 else r2)
                     in if length (p_files p) > 0 \<and> \<not> h_materialize h then (2, r3)
                        else
                          (let r4 = act (ACommand (k_workdir c)) r3
                           in if \<not> h_command h then (2, r4) else saved r4)))))"

section \<open>URL projects\<close>

definition say_change :: "hm_project \<Rightarrow> hm_cache \<Rightarrow> bool \<Rightarrow> string \<Rightarrow> string" where
  "say_change p c missing mark =
     (if missing \<and> k_known c \<and> k_mark c = mark then
        ''missing  '' @ p_name p @ '' '' @ p_bin_path p @ [LF]
      else if \<not> k_known c then ''new      '' @ p_name p @ '' '' @ mark @ [LF]
      else ''changed  '' @ p_name p @ '' '' @ k_mark c @ '' -> '' @ mark @ [LF])"

definition run_url_project ::
  "host \<Rightarrow> hm_project \<Rightarrow> hm_opts \<Rightarrow> int \<Rightarrow> hm_cache \<Rightarrow> run \<Rightarrow> nat \<times> run" where
  "run_url_project h p opts now c r =
     (case hm_check (h_xxh3 h) (h_curl h) p (r_log r) of
        (Inl e, log) \<Rightarrow> (2, act ACheck (r\<lparr>r_log := log\<rparr>))
      | (Inr (mark, body), log) \<Rightarrow>
          (let r1 = act ACheck (r\<lparr>r_log := log\<rparr>);
               missing = (p_bin_cached p \<and> \<not> h_x_missing h);
               changed = (missing \<or> \<not> k_known c \<or> k_mark c \<noteq> mark)
           in if \<not> changed then
                do_save h (c\<lparr>k_last_check := now\<rparr>)
                  (if o_verbose opts then act (ASay (''ok       '' @ p_name p @ '' ('' @ mark @ '')'' @ [LF])) r1 else r1)
              else
                (let r2 = act (ASay (say_change p c missing mark)) r1;
                     saved = (\<lambda>r'. do_save h (c\<lparr>k_mark := copied (HM_MARK_MAX + 1) mark,
                                k_last_check := now, k_last_change := now\<rparr>) r')
                 in if o_check_only opts \<or> o_dry_run opts then (10, r2)
                    else if o_adopt opts then saved r2
                    else
                      (let r3 = act (AReset (k_workdir c)) r2
                       in if \<not> h_reset h then (2, r3)
                          else
                            (let r4 = act (AInstall (k_mark c) mark (k_workdir c)) r3
                             in if \<not> h_install h then (2, r4) else saved r4)))))"

definition work :: "host \<Rightarrow> hm_project \<Rightarrow> hm_opts \<Rightarrow> int \<Rightarrow> hm_cache \<Rightarrow> bool \<Rightarrow> run \<Rightarrow> outcome \<times> run" where
  "work h p opts now c locked r =
     (case (if p_kind p = HM_KIND_COMMAND then run_command_project h p opts now c r
            else run_url_project h p opts now c r) of
        (rc, r') \<Rightarrow> finish_locked h p opts locked rc r')"

section \<open>The locked slow path\<close>

definition record_open :: "bool \<Rightarrow> cache_fs \<Rightarrow> hm_cache \<Rightarrow> open_result" where
  "record_open unreadable fs c = (if unreadable then OpenError else file_open fs (k_path c))"

definition slow_path :: "host \<Rightarrow> hm_project \<Rightarrow> hm_opts \<Rightarrow> hm_cache \<Rightarrow> run \<Rightarrow> outcome \<times> run" where
  "slow_path h p opts c r =
     (if \<not> o_check_only opts \<and> \<not> o_dry_run opts then
        (case hm_cache_lock (h_lock h) c of
           (Locked, mk) \<Rightarrow>
             (let fs = h_others h ((r_fs r)\<lparr>cf_mkdirs := cf_mkdirs (r_fs r) @ mk\<rparr>);
                  r1 = act ALock (r\<lparr>r_fs := fs\<rparr>)
              in case hm_cache_load (record_open (h_unreadable2 h) fs c) (h_reads2 h) c of
                   None \<Rightarrow> (Exit 1, act AUnlock (act ALoad r1))
                 | Some c2 \<Rightarrow>
                     (case is_due p c2 (h_time2 h) opts 0 True (h_x_due2 h) of
                        (due, wait) \<Rightarrow>
                          if \<not> due then finish_locked h p opts True 0 (report_skip p opts wait (act ALoad r1))
                          else work h p opts (h_time2 h) c2 True (act ALoad r1)))
         | (LockWaiting, mk) \<Rightarrow> (Blocked, r\<lparr>r_fs := (r_fs r)\<lparr>cf_mkdirs := cf_mkdirs (r_fs r) @ mk\<rparr>\<rparr>)
         | (_, mk) \<Rightarrow> (Exit 2, r\<lparr>r_fs := (r_fs r)\<lparr>cf_mkdirs := cf_mkdirs (r_fs r) @ mk\<rparr>\<rparr>))
      else work h p opts (h_time1 h) c False r)"

section \<open>The fast path\<close>

definition exec_check :: "hm_project \<Rightarrow> hm_opts \<Rightarrow> bool" where
  "exec_check p opts \<longleftrightarrow>
     p_bin_cached p \<and> \<not> o_verbose opts \<and> \<not> o_check_only opts \<and> \<not> o_dry_run opts \<and> \<not> o_adopt opts"

definition run_project :: "host \<Rightarrow> hm_project \<Rightarrow> hm_opts \<Rightarrow> hm_cache \<Rightarrow> run \<Rightarrow> outcome \<times> run" where
  "run_project h p opts c r =
     (case hm_cache_load (record_open (h_unreadable1 h) (r_fs r) c) (h_reads1 h) c of
        None \<Rightarrow> (Exit 1, act ALoad r)
      | Some c1 \<Rightarrow>
          (case is_due p c1 (h_time1 h) opts 0 (\<not> exec_check p opts) (h_x_due1 h) of
             (due, wait) \<Rightarrow>
               if due then slow_path h p opts c1 (act ALoad r)
               else if exec_check p opts then
                 (let r1 = act (AExec (p_bin_path p) (exec_args p opts)) (act ALoad r)
                  in if h_exec1 h then (Program (p_bin_path p) (exec_args p opts), r1)
                     else if h_x_repair h then (Exit 127, r1)
                     else slow_path h p opts c1 r1)
               else finish h p opts 0 (report_skip p opts wait (act ALoad r))))"

section \<open>From the command line to the project\<close>

definition load_project :: "host \<Rightarrow> hm_opts \<Rightarrow> string \<Rightarrow> (string \<times> hm_project \<times> bool) option" where
  "load_project h opts name =
     (case hm_read_all (h_input h) name HM_CONFIG_MAX of
        Inl e \<Rightarrow> None
      | Inr (buf, fd, canonical) \<Rightarrow>
          (case hm_config_parse buf (h_environ h) (if name = ''-'' then None else Some name)
                  (project_defaults 0) (\<not> o_unpack opts) (h_siml h buf) of
             Some (Inr p) \<Rightarrow> Some (buf, p, canonical)
           | _ \<Rightarrow> None))"

definition source_path :: "host \<Rightarrow> hm_project \<Rightarrow> string \<Rightarrow> bool \<Rightarrow> string option option" where
  "source_path h p name canonical =
     (if length (p_files p) > 0 \<and> name \<noteq> ''-'' then
        (case (if canonical then Some name else resolve_source_path h) of
           None \<Rightarrow> None
         | Some sp \<Rightarrow> if length sp > HM_PATH_MAX then None else Some (Some sp))
      else Some None)"

definition prepare :: "host \<Rightarrow> hm_opts \<Rightarrow> string \<Rightarrow> string \<Rightarrow> hm_project \<Rightarrow> bool \<Rightarrow> (hm_project \<times> hm_cache) option" where
  "prepare h opts name buf p canonical =
     (if p_bin_path p = [] \<and> tl (o_prog_argv opts) \<noteq> [] then None
      else
        (case source_path h p name canonical of
           None \<Rightarrow> None
         | Some sp \<Rightarrow>
             if p_bin_choice p = HM_BIN_DEFAULT \<and> name \<noteq> ''-'' \<and> \<not> confirm_default_bin h name canonical sp then None
             else
               (case hm_cache_dir (h_cwd h) (h_environ h) (o_cache_dir opts) of
                  None \<Rightarrow> None
                | Some dir \<Rightarrow>
                    (let identity = hm_identity_build (h_xxh3 h) (h_version h) buf (HM_IDENTITY_MAX + 1);
                         c = hm_cache_init (h_xxh3 h) p dir sp identity
                     in case resolve_cached_bin p c of
                          None \<Rightarrow> None
                        | Some p' \<Rightarrow> Some (p', c)))))"

definition unpack_args_ok :: "hm_opts \<Rightarrow> bool" where
  "unpack_args_ok opts \<longleftrightarrow>
     (case tl (o_prog_argv opts) of [t] \<Rightarrow> t \<noteq> [] | _ \<Rightarrow> False) \<and>
     \<not> (o_plan opts \<or> o_check_only opts \<or> o_dry_run opts \<or> o_adopt opts \<or> o_force opts)"

definition start_project :: "host \<Rightarrow> hm_opts \<Rightarrow> string \<Rightarrow> run \<Rightarrow> outcome \<times> run" where
  "start_project h opts name r =
     (case load_project h opts name of
        None \<Rightarrow> (Exit 1, r)
      | Some (buf, p, canonical) \<Rightarrow>
          if o_unpack opts then
            (Exit (if h_unpack h then 0 else 2), act (AUnpack (hd (tl (o_prog_argv opts)))) r)
          else
            (case prepare h opts name buf p canonical of
               None \<Rightarrow> (Exit 1, r)
             | Some (p', c) \<Rightarrow>
                 if o_plan opts then (Exit 0, act APlan r)
                 else run_project h p' opts c r))"

definition main :: "host \<Rightarrow> string list \<Rightarrow> run \<Rightarrow> outcome \<times> run" where
  "main h argv r =
     (case parse_args (h_environ h) argv of
        ArgsFail e \<Rightarrow> (Exit 1, r)
      | ShowHelp \<Rightarrow> (Exit 0, r)
      | ShowVersion \<Rightarrow> (Exit 0, r)
      | ArgsOk opts \<Rightarrow>
          (case o_file opts of
             None \<Rightarrow> (Exit 1, r)
           | Some name \<Rightarrow>
               if o_unpack opts \<and> \<not> unpack_args_ok opts then (Exit 1, r)
               else start_project h opts name r))"

section \<open>What the actions do\<close>

lemma act_fields [simp]:
  "r_trace (act a r) = r_trace r @ [a]" "r_fs (act a r) = r_fs r" "r_log (act a r) = r_log r"
  by (simp_all add: act_def)

fun harmless :: "action \<Rightarrow> bool" where
  "harmless ALoad = True"
| "harmless ACheck = True"
| "harmless APlan = True"
| "harmless (ASay s) = True"
| "harmless (ASave c) = True"
| "harmless _ = False"

text \<open>The lock discipline: a walk over the trace with the state of the lock.\<close>

fun lock_ok :: "bool \<Rightarrow> action list \<Rightarrow> bool" where
  "lock_ok held [] = (\<not> held)"
| "lock_ok held (ALock # t) = (\<not> held \<and> lock_ok True t)"
| "lock_ok held (AUnlock # t) = (held \<and> lock_ok False t)"
| "lock_ok held (AExec p as # t) = (\<not> held \<and> lock_ok False t)"
| "lock_ok held (AReset w # t) = (held \<and> lock_ok held t)"
| "lock_ok held (AMaterialize w # t) = (held \<and> lock_ok held t)"
| "lock_ok held (ACommand w # t) = (held \<and> lock_ok held t)"
| "lock_ok held (AInstall old new w # t) = (held \<and> lock_ok held t)"
| "lock_ok held (ASave c # t) = (held \<and> lock_ok held t)"
| "lock_ok held (_ # t) = lock_ok held t"

text \<open>The locked part of a trace: no lock operations and no handoff inside.\<close>

fun inside :: "action \<Rightarrow> bool" where
  "inside ALock = False"
| "inside AUnlock = False"
| "inside (AExec p as) = False"
| "inside a = True"

lemma lock_ok_inside: "list_all inside t \<Longrightarrow> lock_ok True (t @ u) = lock_ok True u"
proof (induction t)
  case (Cons a t)
  then show ?case by (cases a) simp_all
qed simp

text \<open>Each step only appends to the trace.\<close>

definition appends :: "run \<Rightarrow> (action \<Rightarrow> bool) \<Rightarrow> run \<Rightarrow> bool" where
  "appends r P r' \<longleftrightarrow> (\<exists>t. r_trace r' = r_trace r @ t \<and> list_all P t)"

lemma appends_refl [simp]: "appends r P r"
  by (simp add: appends_def)

lemma appends_act: "appends r P r' \<Longrightarrow> P a \<Longrightarrow> appends r P (act a r')"
  by (auto simp: appends_def)

lemma appends_trace: "r_trace r' = r_trace r @ [a] \<Longrightarrow> P a \<Longrightarrow> appends r P r'"
  by (simp add: appends_def)

lemma appends_trans: "appends r P r' \<Longrightarrow> appends r' P r'' \<Longrightarrow> appends r P r''"
  by (auto simp: appends_def)

lemma appends_fs [simp]: "appends (r\<lparr>r_fs := fs\<rparr>) P r' = appends r P r'" "appends (r\<lparr>r_log := l\<rparr>) P r' = appends r P r'"
  "appends r P (r'\<lparr>r_fs := fs\<rparr>) = appends r P r'" "appends r P (r'\<lparr>r_log := l\<rparr>) = appends r P r'"
  by (simp_all add: appends_def)

lemma appends_snd [hm_vcg]:
  "appends r P y \<Longrightarrow> appends r P (snd (x, y))"
  "(b \<Longrightarrow> appends r P (snd u)) \<Longrightarrow> (\<not> b \<Longrightarrow> appends r P (snd v)) \<Longrightarrow> appends r P (snd (if b then u else v))"
  "(\<And>a c. z = (a, c) \<Longrightarrow> appends r P (snd (f a c))) \<Longrightarrow> appends r P (snd (case z of (a, c) \<Rightarrow> f a c))"
  by (auto split: prod.split)

lemma appends_if [hm_vcg]:
  "(b \<Longrightarrow> appends r P u) \<Longrightarrow> (\<not> b \<Longrightarrow> appends r P v) \<Longrightarrow> appends r P (if b then u else v)"
  by simp

lemma appends_snd_sum [hm_vcg]:
  "(\<And>a. s = Inl a \<Longrightarrow> appends r P (snd (f a))) \<Longrightarrow> (\<And>a. s = Inr a \<Longrightarrow> appends r P (snd (g a))) \<Longrightarrow>
   appends r P (snd (case s of Inl a \<Rightarrow> f a | Inr a \<Rightarrow> g a))"
  by (cases s) simp_all

lemma report_skip_appends: "P (ASay s) \<Longrightarrow> (\<And>s. P (ASay s)) \<Longrightarrow> appends r P (report_skip p opts wait r)"
  by (simp add: report_skip_def appends_act)

lemma report_skip_fields [simp]: "r_fs (report_skip p opts wait r) = r_fs r"
  by (simp add: report_skip_def)

lemma do_save_appends: "P (ASave c) \<Longrightarrow> appends r P (snd (do_save h c r))"
  by (auto simp: do_save_def appends_act split: prod.split)

section \<open>Work\<close>

lemma run_command_appends:
  assumes "\<And>s. P (ASay s)" "P (AReset (k_workdir c))" "P (AMaterialize (k_workdir c))" "P (ACommand (k_workdir c))"
    "P (ASave (c\<lparr>k_last_check := now, k_last_change := now\<rparr>))"
  shows "appends r P (snd (run_command_project h p opts now c r))"
  unfolding run_command_project_def Let_def
  by (intro hm_vcg appends_trans [OF _ do_save_appends] appends_act appends_refl assms)

lemma run_url_appends:
  assumes "P ACheck" "\<And>s. P (ASay s)" "P (AReset (k_workdir c))" "\<And>m. P (AInstall (k_mark c) m (k_workdir c))"
    "P (ASave (c\<lparr>k_last_check := now\<rparr>))"
    "\<And>m. P (ASave (c\<lparr>k_mark := m, k_last_check := now, k_last_change := now\<rparr>))"
  shows "appends r P (snd (run_url_project h p opts now c r))"
proof -
  have start: "appends r P (act ACheck (r\<lparr>r_log := l\<rparr>))" for l
    using assms(1) by (simp add: appends_act)
  show ?thesis
    unfolding run_url_project_def Let_def
    by (intro hm_vcg appends_trans [OF _ do_save_appends] start) (intro appends_act start assms)+
qed

section \<open>Whole runs\<close>

lemma harmless_finish:
  assumes "o_check_only opts \<or> o_dry_run opts"
  shows "finish h p opts rc r = (Exit rc, r)"
  using assms by (auto simp: finish_def)

lemma run_command_inspect:
  "o_check_only opts \<or> o_dry_run opts \<Longrightarrow>
   run_command_project h p opts now c r = (10, act (ASay (''due      '' @ p_name p @ [LF])) r)"
  by (auto simp: run_command_project_def)

lemma run_url_inspect:
  assumes "o_check_only opts \<or> o_dry_run opts"
  shows "appends r harmless (snd (run_url_project h p opts now c r)) \<and>
    fst (run_url_project h p opts now c r) \<in> {0, 2, 10}"
proof
  have start: "appends r harmless (act ACheck (r\<lparr>r_log := l\<rparr>))" for l
    by (simp add: appends_act)
  show "appends r harmless (snd (run_url_project h p opts now c r))"
    unfolding run_url_project_def Let_def
    by (intro hm_vcg appends_trans [OF _ do_save_appends] start)
      (use assms in \<open>auto intro!: appends_act start\<close>)
  show "fst (run_url_project h p opts now c r) \<in> {0, 2, 10}"
    using assms by (auto simp: run_url_project_def Let_def do_save_def split: prod.split sum.split)
qed

lemma work_inspect:
  assumes "o_check_only opts \<or> o_dry_run opts"
  shows "\<exists>rc r'. work h p opts now c False r = (Exit rc, r') \<and> rc \<in> {0, 2, 10} \<and> appends r harmless r'"
proof (cases "p_kind p = HM_KIND_COMMAND")
  case True
  then show ?thesis
    using assms by (auto simp: work_def finish_locked_def harmless_finish run_command_inspect intro: appends_act)
next
  case False
  obtain rc r' where u: "run_url_project h p opts now c r = (rc, r')" by fastforce
  with run_url_inspect [OF assms, of r h p now c] False show ?thesis
    by (simp add: work_def finish_locked_def harmless_finish [OF assms])
qed

text \<open>The locked part ends with the lock released before anything is handed over.\<close>

lemma finish_locked_trace:
  "\<exists>oc r'. finish_locked h p opts True rc r = (oc, r') \<and>
    (r_trace r' = r_trace r @ [AUnlock] \<and> oc = Exit rc \<or>
     (\<exists>as. r_trace r' = r_trace r @ [AUnlock, AExec (p_bin_path p) as]) \<and> rc = 0)"
  by (auto simp: finish_locked_def finish_def Let_def)

lemma run_inside:
  "appends r inside (snd (run_command_project h p opts now c r))"
  "appends r inside (snd (run_url_project h p opts now c r))"
  by (rule run_command_appends run_url_appends; simp)+

lemma lock_ok_tail: "lock_ok True [AUnlock]" "lock_ok True [AUnlock, AExec p as]"
  by simp_all

lemma work_locked_ok:
  assumes "work h p opts now c True r = (oc, r')"
  shows "\<exists>t. r_trace r' = r_trace r @ t \<and> lock_ok True t"
proof -
  obtain rc r1 where w: "(if p_kind p = HM_KIND_COMMAND then run_command_project h p opts now c r
      else run_url_project h p opts now c r) = (rc, r1)" by fastforce
  have "appends r inside r1"
    using run_inside [of r h p opts now c] w by (auto split: if_split_asm)
  then obtain t1 where t1: "r_trace r1 = r_trace r @ t1" "list_all inside t1" by (auto simp: appends_def)
  have "finish_locked h p opts True rc r1 = (oc, r')" using assms w by (simp add: work_def)
  then obtain t2 where "r_trace r' = r_trace r1 @ t2" "lock_ok True t2"
    using finish_locked_trace [of h p opts rc r1] lock_ok_tail by fastforce
  with t1 show ?thesis by (auto simp: lock_ok_inside intro!: exI [of _ "t1 @ t2"])
qed

lemma report_skip_inside: "appends r inside (report_skip p opts wait r)"
  by (rule report_skip_appends [of _ "[]"]) simp_all

lemma lock_ok_report: "appends r inside r' \<Longrightarrow> \<exists>t. r_trace r' = r_trace r @ t \<and> (\<forall>u. lock_ok True (t @ u) = lock_ok True u)"
  by (auto simp: appends_def lock_ok_inside)

lemma slow_path_ok:
  assumes "slow_path h p opts c r = (oc, r')" "\<not> o_check_only opts" "\<not> o_dry_run opts" 
  shows "\<exists>t. r_trace r' = r_trace r @ t \<and> lock_ok False t"
proof -
  obtain res mk where lk: "hm_cache_lock (h_lock h) c = (res, mk)" by fastforce
  show ?thesis
  proof (cases "res = Locked")
    case False
    with lk assms have "r_trace r' = r_trace r" by (cases res) (auto simp: slow_path_def)
    then show ?thesis by simp
  next
    case True
    define fs where "fs = h_others h ((r_fs r)\<lparr>cf_mkdirs := cf_mkdirs (r_fs r) @ mk\<rparr>)"
    define r1 where "r1 = act ALoad (act ALock (r\<lparr>r_fs := fs\<rparr>))"
    have r1: "r_trace r1 = r_trace r @ [ALock, ALoad]" by (simp add: r1_def)
    show ?thesis
    proof (cases "hm_cache_load (record_open (h_unreadable2 h) fs c) (h_reads2 h) c")
      case None
      with lk True assms have "r' = act AUnlock r1"
        by (auto simp: slow_path_def Let_def fs_def r1_def)
      then show ?thesis by (simp add: r1)
    next
      case (Some c2)
      obtain due wait where due: "is_due p c2 (h_time2 h) opts 0 True (h_x_due2 h) = (due, wait)" by fastforce
      show ?thesis
      proof (cases due)
        case True
        then have "work h p opts (h_time2 h) c2 True r1 = (oc, r')"
          using lk \<open>res = Locked\<close> assms Some due by (simp add: slow_path_def Let_def fs_def r1_def)
        from work_locked_ok [OF this] r1 show ?thesis by auto
      next
        case False
        then have fin: "finish_locked h p opts True 0 (report_skip p opts wait r1) = (oc, r')"
          using lk \<open>res = Locked\<close> assms Some due by (simp add: slow_path_def Let_def fs_def r1_def)
        from report_skip_inside [of r1 p opts wait] obtain t1
          where t1: "r_trace (report_skip p opts wait r1) = r_trace r1 @ t1" "\<And>u. lock_ok True (t1 @ u) = lock_ok True u"
          using lock_ok_report by blast
        from fin obtain t2 where t2: "r_trace r' = r_trace (report_skip p opts wait r1) @ t2" "lock_ok True t2"
          using finish_locked_trace [of h p opts 0 "report_skip p opts wait r1"] lock_ok_tail by fastforce
        then show ?thesis using t1 r1 by (auto intro!: exI [of _ "[ALock, ALoad] @ t1 @ t2"])
      qed
    qed
  qed
qed

lemma run_project_inspect:
  assumes "o_check_only opts \<or> o_dry_run opts" "run_project h p opts c r = (oc, r')"
  shows "oc \<in> {Exit 0, Exit 1, Exit 2, Exit 10} \<and> appends r harmless r'"
proof (cases "hm_cache_load (record_open (h_unreadable1 h) (r_fs r) c) (h_reads1 h) c")
  case None
  with assms(2) show ?thesis by (auto simp: run_project_def intro: appends_act)
next
  case (Some c1)
  have ne: "\<not> exec_check p opts" using assms(1) by (auto simp: exec_check_def)
  obtain due wait where due: "is_due p c1 (h_time1 h) opts 0 True (h_x_due1 h) = (due, wait)" by fastforce
  show ?thesis
  proof (cases due)
    case True
    then have "work h p opts (h_time1 h) c1 False (act ALoad r) = (oc, r')"
      using assms Some due ne by (auto simp: run_project_def slow_path_def)
    moreover have "appends r harmless (act ALoad r)" by (rule appends_act) simp_all
    ultimately show ?thesis
      using work_inspect [OF assms(1), of h p "h_time1 h" c1 "act ALoad r"] by (auto intro: appends_trans)
  next
    case False
    then have "(oc, r') = (Exit 0, report_skip p opts wait (act ALoad r))"
      using assms Some due ne by (auto simp: run_project_def harmless_finish)
    moreover have "appends (act ALoad r) harmless (report_skip p opts wait (act ALoad r))"
      by (rule report_skip_appends [of _ "[]"]) simp_all
    moreover have "appends r harmless (act ALoad r)" by (rule appends_act) simp_all
    ultimately show ?thesis by (auto intro: appends_trans)
  qed
qed

lemma run_project_lock_ok:
  assumes "\<not> o_check_only opts" "\<not> o_dry_run opts" "run_project h p opts c r = (oc, r')"
  shows "\<exists>t. r_trace r' = r_trace r @ t \<and> lock_ok False t"
proof (cases "hm_cache_load (record_open (h_unreadable1 h) (r_fs r) c) (h_reads1 h) c")
  case None
  with assms(3) show ?thesis by (auto simp: run_project_def)
next
  case (Some c1)
  obtain due wait where due: "is_due p c1 (h_time1 h) opts 0 (\<not> exec_check p opts) (h_x_due1 h) = (due, wait)"
    by fastforce
  have slow: "\<exists>t. r_trace r'' = r_trace r1 @ t \<and> lock_ok False t"
    if "slow_path h p opts c1 r1 = (oc'', r'')" for r1 oc'' r''
    using slow_path_ok [OF that assms(1,2)] .
  let ?r1 = "act ALoad r" and ?r2 = "act (AExec (p_bin_path p) (exec_args p opts)) (act ALoad r)"
  consider (due) "due" | (exec) "\<not> due" "exec_check p opts" | (skip) "\<not> due" "\<not> exec_check p opts" by blast
  then show ?thesis
  proof cases
    case due
    then have "slow_path h p opts c1 ?r1 = (oc, r')" using assms(3) Some \<open>is_due _ _ _ _ _ _ _ = _\<close>
      by (simp add: run_project_def)
    from slow [OF this] show ?thesis by auto
  next
    case exec
    then have "r' = ?r2 \<or> slow_path h p opts c1 ?r2 = (oc, r')"
      using assms(3) Some due by (auto simp: run_project_def Let_def split: if_split_asm)
    then show ?thesis
    proof
      assume "slow_path h p opts c1 ?r2 = (oc, r')"
      from slow [OF this] show ?thesis by auto
    qed simp
  next
    case skip
    then have f: "finish h p opts 0 (report_skip p opts wait ?r1) = (oc, r')"
      using assms(3) Some due by (simp add: run_project_def)
    obtain s where s: "s = report_skip p opts wait ?r1" by simp
    have "\<exists>t. r_trace s = r_trace r @ t \<and> (\<forall>u. lock_ok False (t @ u) = lock_ok False u)"
      by (simp add: s report_skip_def)
    then obtain t where t: "r_trace s = r_trace r @ t" "\<And>u. lock_ok False (t @ u) = lock_ok False u" by blast
    from f [folded s] have "r' = s \<or> r' = act (AExec (p_bin_path p) (exec_args p opts)) s"
      by (cases "rc \<noteq> 0 \<or> p_bin_path p = []") (simp_all add: finish_def Let_def split: if_split_asm)
    then show ?thesis using t(1) t(2) [of "[]"] t(2) [of "[AExec (p_bin_path p) (exec_args p opts)]"] by auto
  qed
qed

text \<open>A run of the program ends early, or unpacks, or prints the plan, or runs the project.\<close>

lemma start_project_cases:
  assumes "start_project h opts name r = (oc, r')"
  shows "(r' = r \<and> oc = Exit 1) \<or>
    (\<exists>t. r' = act (AUnpack t) r \<and> o_unpack opts \<and> oc \<in> {Exit 0, Exit 2}) \<or>
    (r' = act APlan r \<and> oc = Exit 0 \<and> o_plan opts) \<or> (\<exists>p c. run_project h p opts c r = (oc, r'))"
proof (cases "load_project h opts name")
  case None
  with assms show ?thesis by (simp add: start_project_def)
next
  case (Some x)
  obtain buf p canonical where x: "x = (buf, p, canonical)" by (cases x)
  show ?thesis
  proof (cases "o_unpack opts")
    case True
    with assms Some x have "(oc, r') = (Exit (if h_unpack h then 0 else 2), act (AUnpack (hd (tl (o_prog_argv opts)))) r)"
      by (simp add: start_project_def)
    then show ?thesis using True by auto
  next
    case False
    show ?thesis
    proof (cases "prepare h opts name buf p canonical")
      case None
      with assms Some x False show ?thesis by (simp add: start_project_def)
    next
      case (Some y)
      obtain p' c where "y = (p', c)" by fastforce
      with assms Some \<open>load_project h opts name = Some x\<close> x False
      have "(if o_plan opts then (Exit 0, act APlan r) else run_project h p' opts c r) = (oc, r')"
        by (simp add: start_project_def)
      then show ?thesis by (cases "o_plan opts") auto
    qed
  qed
qed

lemma main_cases:
  assumes "main h argv r = (oc, r')" "parse_args (h_environ h) argv = ArgsOk opts"
  shows "(r' = r \<and> oc = Exit 1) \<or>
    (\<exists>t. r' = act (AUnpack t) r \<and> o_unpack opts \<and> unpack_args_ok opts \<and> oc \<in> {Exit 0, Exit 2}) \<or>
    (r' = act APlan r \<and> oc = Exit 0 \<and> o_plan opts) \<or> (\<exists>p c. run_project h p opts c r = (oc, r'))"
proof (cases "o_file opts")
  case None
  with assms show ?thesis by (simp add: main_def)
next
  case (Some name)
  show ?thesis
  proof (cases "o_unpack opts \<and> \<not> unpack_args_ok opts")
    case True
    with assms Some show ?thesis by (simp add: main_def)
  next
    case False
    with assms Some have "start_project h opts name r = (oc, r')" by (simp add: main_def)
    from start_project_cases [OF this] False show ?thesis by blast
  qed
qed

lemma do_save_fs: "r_fs (snd (do_save h c r)) = snd (hm_cache_save (h_save h) c (r_fs r))"
  by (simp add: do_save_def split: prod.split)

end
