(* ===== verification/HM_Session.thy ===== *)
theory HM_Session
  imports HM_Driver
begin

text \<open>
  What a run of the program promises, over the model of the driver: the scheduling decision as a
  function of time, inspection modes, the lock discipline, what a failed setup leaves behind, and two
  runs in a row (setup, then a warm start; a process that waited for another one's update).
\<close>

section \<open>The schedule over time\<close>

text \<open>A plain periodic project: nothing but the clock decides.\<close>

definition periodic :: "hm_project \<Rightarrow> hm_opts \<Rightarrow> bool" where
  "periodic p opts \<longleftrightarrow>
     \<not> o_force opts \<and> p_sched_kind p = HM_SCHED_EVERY \<and> (p_files p = [] \<or> p_schedule_explicit p)"

text \<open>A record that still covers time \<open>now\<close>.\<close>

definition fresh :: "hm_project \<Rightarrow> hm_cache \<Rightarrow> int \<Rightarrow> bool" where
  "fresh p c now \<longleftrightarrow>
     k_last_check c \<noteq> 0 \<and> (p_files p = [] \<or> k_known c) \<and>
     k_last_check c \<le> now \<and> now < k_last_check c + p_sched_interval p"

definition clock_ok :: "hm_cache \<Rightarrow> int \<Rightarrow> bool" where
  "clock_ok c now \<longleftrightarrow> 0 \<le> k_last_check c \<and> k_last_check c < 2 ^ 63 \<and> 0 \<le> now \<and> now < 2 ^ 63"

lemma elapsed_exact: "clock_ok c now \<Longrightarrow> to_long (now - k_last_check c) = now - k_last_check c"
  by (auto simp: clock_ok_def intro: to_long_id)

lemma is_due_periodic:
  assumes "periodic p opts" "clock_ok c now" "\<not> cb \<or> x_ok"
  shows "is_due p c now opts wait cb x_ok =
    (if fresh p c now then (False, k_last_check c + p_sched_interval p - now) else (True, wait))"
proof -
  have flags: "\<not> o_force opts" "p_sched_kind p = HM_SCHED_EVERY"
    "\<not> (p_files p \<noteq> [] \<and> (\<not> p_schedule_explicit p \<or> p_sched_kind p = HM_SCHED_NEVER))"
    "\<not> (cb \<and> p_bin_cached p \<and> \<not> x_ok)"
    using assms(1,3) by (auto simp: periodic_def)
  show ?thesis
    using flags by (auto simp: is_due_def fresh_def elapsed_exact [OF assms(2)] Let_def)
qed

text \<open>
  C8: The reported wait is exact: when a periodic project is skipped with \<open>w\<close> seconds left, then
  \<open>0 < w \<le> interval\<close>, and with an unchanged record a run at a later time \<open>t\<close> is skipped as long as
  fewer than \<open>w\<close> seconds have passed and is due from then on.
\<close>
theorem skip_wait_is_exact:
  assumes "periodic p opts" "clock_ok c now" "\<not> cb \<or> x_ok"
    and "is_due p c now opts wait cb x_ok = (False, w)" "now \<le> t" "t < 2 ^ 63"
  shows "0 < w \<and> w \<le> p_sched_interval p \<and> (fst (is_due p c t opts wait' cb x_ok) \<longleftrightarrow> now + w \<le> t)"
proof -
  have t: "clock_ok c t" using assms(2,5,6) by (simp add: clock_ok_def)
  from assms(4) have "fresh p c now" "w = k_last_check c + p_sched_interval p - now"
    by (auto simp: is_due_periodic [OF assms(1-3)] split: if_split_asm)
  then show ?thesis
    using assms(5) by (auto simp: is_due_periodic [OF assms(1) t assms(3)] fresh_def)
qed

theorem skip_wait_is_exact_witness:
  "is_due (project_defaults 1) (sample_cache\<lparr>k_last_check := 100\<rparr>) 86000 opts_init 0 True True = (False, 500) \<and>
   \<not> fst (is_due (project_defaults 1) (sample_cache\<lparr>k_last_check := 100\<rparr>) 86499 opts_init 0 True True) \<and>
   fst (is_due (project_defaults 1) (sample_cache\<lparr>k_last_check := 100\<rparr>) 86500 opts_init 0 True True)"
proof -
  let ?c = "sample_cache\<lparr>k_last_check := 100\<rparr>"
  have p: "periodic (project_defaults 1) opts_init" by (simp add: periodic_def opts_init_def project_defaults_def)
  have c: "clock_ok ?c 86000" by (simp add: clock_ok_def)
  have d: "is_due (project_defaults 1) ?c 86000 opts_init 0 True True = (False, 500)"
    by (simp add: is_due_periodic [OF p c]) (simp add: fresh_def project_defaults_def)
  have "fst (is_due (project_defaults 1) ?c 86499 opts_init 0 True True) \<longleftrightarrow> 86000 + 500 \<le> (86499 :: int)"
    using skip_wait_is_exact [OF p c _ d, of 86499 0] by simp
  moreover have "fst (is_due (project_defaults 1) ?c 86500 opts_init 0 True True) \<longleftrightarrow> 86000 + 500 \<le> (86500 :: int)"
    using skip_wait_is_exact [OF p c _ d, of 86500 0] by simp
  ultimately show ?thesis using d by simp
qed

section \<open>Inspection modes and the lock\<close>

definition sample_lock :: lock_env where
  "sample_lock = \<lparr>lk_open = LkFd, lk_reopen = LkErr, lk_set = SetGranted, lk_get = GetError, lk_wait = [],
     lk_ppid = 2, lk_procfs = (\<lambda>_. None)\<rparr>"

definition sample_host :: host where
  "sample_host = \<lparr>h_environ = [],
     h_input = \<lparr>os_openat2_ok = True, os_open_ok = True, os_reads = [], os_file = ''''\<rparr>,
     h_siml = (\<lambda>_. []), h_xxh3 = (\<lambda>s. of_nat (length s)),
     h_version = ''1+0'', h_cwd = Some ''/'', h_fdlink = None, h_realpath = None, h_unreadable1 = False,
     h_reads1 = [], h_time1 = 86000, h_x_due1 = True, h_exec1 = True, h_x_repair = True,
     h_lock = sample_lock, h_others = id, h_unreadable2 = False, h_reads2 = [], h_time2 = 86000,
     h_x_due2 = True, h_reset = True, h_materialize = True, h_command = True, h_curl = sample_curl,
     h_x_missing = True, h_install = True, h_unpack = True, h_save = sample_save_env, h_exec2 = True\<rparr>"

definition start_run :: "cache_fs \<Rightarrow> run" where
  "start_run fs = \<lparr>r_fs = fs, r_log = out_init, r_trace = []\<rparr>"

text \<open>
  C10: \<open>--check-only\<close> and \<open>--dry-run\<close> carry out no setup: whatever the project file, the cache and the
  outside world answer, such a run resets no directory, writes no embedded file, runs no command and
  no install script, takes no lock and executes no program. It ends with status 0, 1, 2 or 10.
\<close>
theorem inspection_runs_nothing:
  assumes "parse_args (h_environ h) argv = ArgsOk opts" "o_check_only opts \<or> o_dry_run opts"
    and "main h argv r = (oc, r')"
  shows "oc \<in> {Exit 0, Exit 1, Exit 2, Exit 10} \<and> appends r harmless r'"
proof -
  have nu: "\<not> (o_unpack opts \<and> unpack_args_ok opts)" using assms(2) by (auto simp: unpack_args_ok_def)
  from main_cases [OF assms(3,1)] consider "r' = r" "oc = Exit 1" | "o_unpack opts" "unpack_args_ok opts"
    | "r' = act APlan r" "oc = Exit 0" | p c where "run_project h p opts c r = (oc, r')" by blast
  then show ?thesis
  proof cases
    case 3
    then show ?thesis by (simp add: appends_act)
  next
    case 4
    from run_project_inspect [OF assms(2) 4] show ?thesis .
  qed (use nu in simp_all)
qed

theorem inspection_runs_nothing_witness:
  "appends (start_run empty_fs) harmless (snd (main sample_host [''hacman'', ''-n'', ''x.siml''] (start_run empty_fs)))"
proof -
  let ?o = "opts_init\<lparr>o_dry_run := True, o_file := Some ''x.siml'', o_prog_argv := [''x.siml'']\<rparr>"
  have "parse_args (h_environ sample_host) [''hacman'', ''-n'', ''x.siml''] = ArgsOk ?o" by code_simp
  moreover obtain oc r' where "main sample_host [''hacman'', ''-n'', ''x.siml''] (start_run empty_fs) = (oc, r')"
    by fastforce
  ultimately show ?thesis using inspection_runs_nothing [of sample_host _ ?o "start_run empty_fs" oc r'] by simp
qed

text \<open>
  C2: Setup is serialized: in a run that may change something, every reset, materialisation,
  command, install and save happens while the update lock is held, the lock is taken at most once at
  a time, it is released before a program is executed, and it is not held when the run ends.
\<close>
theorem setup_only_under_lock:
  assumes "parse_args (h_environ h) argv = ArgsOk opts" "\<not> o_check_only opts" "\<not> o_dry_run opts"
    and "main h argv r = (oc, r')" "r_trace r = []"
  shows "lock_ok False (r_trace r')"
proof -
  from main_cases [OF assms(4,1)] consider "r' = r" | t where "r' = act (AUnpack t) r"
    | "r' = act APlan r" | p c where "run_project h p opts c r = (oc, r')" by blast
  then show ?thesis
  proof cases
    case 4
    from run_project_lock_ok [OF assms(2,3) 4] assms(5) show ?thesis by simp
  qed (simp_all add: assms(5))
qed

theorem setup_only_under_lock_witness:
  "lock_ok False (r_trace (snd (main sample_host [''hacman'', ''-f'', ''x.siml''] (start_run empty_fs))))"
proof -
  let ?o = "opts_init\<lparr>o_force := True, o_file := Some ''x.siml'', o_prog_argv := [''x.siml'']\<rparr>"
  have "parse_args (h_environ sample_host) [''hacman'', ''-f'', ''x.siml''] = ArgsOk ?o" by code_simp
  moreover obtain oc r' where "main sample_host [''hacman'', ''-f'', ''x.siml''] (start_run empty_fs) = (oc, r')"
    by fastforce
  ultimately show ?thesis
    using setup_only_under_lock [of sample_host _ ?o "start_run empty_fs" oc r'] by (simp add: opts_init_def start_run_def)
qed

text \<open>
  \<open>--dry-run\<close> and \<open>--check-only\<close> do write: for a URL project whose mark is unchanged, the record is
  saved with the new check time, and it is saved without the update lock, so the run moves the next
  due time and may race with a locked update of the same project.
\<close>
theorem dry_run_saves_without_lock:
  assumes "o_check_only opts \<or> o_dry_run opts" "p_kind p = HM_KIND_URL" "\<not> p_bin_cached p"
    and "k_known c" "hm_check (h_xxh3 h) (h_curl h) p (r_log r) = (Inr (k_mark c, body), log)"
    and "r_trace r = []" "slow_path h p opts c r = (oc, r')"
  shows "r_fs r' = snd (hm_cache_save (h_save h) (c\<lparr>k_last_check := h_time1 h\<rparr>) (r_fs r)) \<and>
    ASave (c\<lparr>k_last_check := h_time1 h\<rparr>) \<in> set (r_trace r') \<and> ALock \<notin> set (r_trace r')"
proof -
  define r1 where "r1 = (if o_verbose opts then act (ASay (''ok       '' @ p_name p @ '' ('' @ k_mark c @ '')'' @ [LF]))
      (act ACheck (r\<lparr>r_log := log\<rparr>)) else act ACheck (r\<lparr>r_log := log\<rparr>))"
  have r1: "r_fs r1 = r_fs r" "ALock \<notin> set (r_trace r1)" by (auto simp: r1_def assms(6))
  have "run_url_project h p opts (h_time1 h) c r = do_save h (c\<lparr>k_last_check := h_time1 h\<rparr>) r1"
    using assms(3-5) by (simp add: run_url_project_def Let_def r1_def)
  moreover have "slow_path h p opts c r = work h p opts (h_time1 h) c False r"
    using assms(1) by (auto simp: slow_path_def)
  ultimately have "r' = snd (do_save h (c\<lparr>k_last_check := h_time1 h\<rparr>) r1)"
    using assms(1,2,7) by (auto simp: work_def finish_locked_def harmless_finish split: prod.split_asm)
  then show ?thesis using r1 by (auto simp: do_save_def split: prod.split)
qed

theorem dry_run_saves_without_lock_witness:
  "\<exists>oc r'. slow_path sample_host hash_project (opts_init\<lparr>o_dry_run := True\<rparr>)
      (sample_cache\<lparr>k_known := True, k_mark := hex64 3\<rparr>) (start_run empty_fs) = (oc, r') \<and>
    ASave (sample_cache\<lparr>k_known := True, k_mark := hex64 3, k_last_check := 86000\<rparr>) \<in> set (r_trace r')"
proof -
  let ?c = "sample_cache\<lparr>k_known := True, k_mark := hex64 3\<rparr>"
  obtain log where run: "run_curl sample_curl out_init = (Inr ''abc'', log)"
    using sample_run [of out_init] by (cases "run_curl sample_curl out_init") simp
  have "hm_check (h_xxh3 sample_host) (h_curl sample_host) hash_project (r_log (start_run empty_fs)) =
      (Inr (k_mark ?c, ''abc''), log)"
    by (simp add: hm_check_def sample_host_def start_run_def run hash_project_def project_defaults_def hm_limits
        hm_hash_hex_def)
  moreover obtain oc r' where s: "slow_path sample_host hash_project (opts_init\<lparr>o_dry_run := True\<rparr>) ?c
      (start_run empty_fs) = (oc, r')" by fastforce
  ultimately show ?thesis
    using dry_run_saves_without_lock [of "opts_init\<lparr>o_dry_run := True\<rparr>" hash_project ?c sample_host
        "start_run empty_fs" "''abc''" log oc r']
    by (simp add: hash_project_def project_defaults_def sample_host_def start_run_def)
qed

section \<open>When setup fails\<close>

text \<open>The step of a project's setup that fails in the world \<open>h\<close>, if one does.\<close>

definition command_setup_fails :: "host \<Rightarrow> hm_project \<Rightarrow> hm_cache \<Rightarrow> bool" where
  "command_setup_fails h p c \<longleftrightarrow>
     (\<not> k_known c \<and> \<not> h_reset h) \<or> (p_files p \<noteq> [] \<and> \<not> h_materialize h) \<or> \<not> h_command h"

definition url_changed :: "host \<Rightarrow> hm_project \<Rightarrow> hm_cache \<Rightarrow> string \<Rightarrow> bool" where
  "url_changed h p c mark \<longleftrightarrow> (p_bin_cached p \<and> \<not> h_x_missing h) \<or> \<not> k_known c \<or> k_mark c \<noteq> mark"

definition setup_fails :: "host \<Rightarrow> hm_project \<Rightarrow> hm_cache \<Rightarrow> out_state \<Rightarrow> bool" where
  "setup_fails h p c log \<longleftrightarrow>
     (if p_kind p = HM_KIND_COMMAND then command_setup_fails h p c
      else (case fst (hm_check (h_xxh3 h) (h_curl h) p log) of
              Inl e \<Rightarrow> True
            | Inr (mark, body) \<Rightarrow> url_changed h p c mark \<and> (\<not> h_reset h \<or> \<not> h_install h)))"

lemma finish_failed: "rc \<noteq> 0 \<Longrightarrow> finish h p opts rc r = (Exit rc, r)"
  by (simp add: finish_def)

lemma command_setup_fails:
  assumes "command_setup_fails h p c" "\<not> o_adopt opts" "\<not> o_check_only opts" "\<not> o_dry_run opts"
  shows "\<exists>r'. run_command_project h p opts now c r = (2, r') \<and> r_fs r' = r_fs r"
  using assms by (auto simp: command_setup_fails_def run_command_project_def Let_def)

lemma url_setup_fails:
  assumes "p_kind p \<noteq> HM_KIND_COMMAND" "setup_fails h p c (r_log r)"
    and "\<not> o_adopt opts" "\<not> o_check_only opts" "\<not> o_dry_run opts"
  shows "\<exists>r'. run_url_project h p opts now c r = (2, r') \<and> r_fs r' = r_fs r"
proof -
  obtain res log where chk: "hm_check (h_xxh3 h) (h_curl h) p (r_log r) = (res, log)" by fastforce
  show ?thesis
  proof (cases res)
    case (Inl e)
    with chk show ?thesis by (simp add: run_url_project_def)
  next
    case (Inr x)
    obtain mark body where x: "x = (mark, body)" by fastforce
    with assms(1,2) chk Inr have "url_changed h p c mark" "\<not> h_reset h \<or> \<not> h_install h"
      by (simp_all add: setup_fails_def)
    then show ?thesis
      using chk Inr x assms(3-5) by (auto simp: run_url_project_def Let_def url_changed_def)
  qed
qed

text \<open>
  C3: A failed attempt is never recorded: when the request, the reset of the work directory, an
  embedded file, the command or the install script fails, the run exits with status 2, executes no
  program and leaves every file of the cache as it was, so the next run tries again.
\<close>
theorem failed_setup_not_recorded:
  assumes "setup_fails h p c (r_log r)" "\<not> o_adopt opts" "\<not> o_check_only opts" "\<not> o_dry_run opts"
    and "work h p opts now c locked r = (oc, r')"
  shows "oc = Exit 2 \<and> r_fs r' = r_fs r"
proof -
  have "\<exists>r1. (if p_kind p = HM_KIND_COMMAND then run_command_project h p opts now c r
      else run_url_project h p opts now c r) = (2, r1) \<and> r_fs r1 = r_fs r"
  proof (cases "p_kind p = HM_KIND_COMMAND")
    case True
    with assms(1) have "command_setup_fails h p c" by (simp add: setup_fails_def)
    from command_setup_fails [OF this assms(2-4)] True show ?thesis by simp
  next
    case False
    from url_setup_fails [OF False assms(1-4)] False show ?thesis by simp
  qed
  with assms(5) show ?thesis by (auto simp: work_def finish_locked_def finish_failed)
qed

theorem failed_setup_not_recorded_witness:
  "\<exists>r'. work (sample_host\<lparr>h_command := False\<rparr>) ((project_defaults 1)\<lparr>p_kind := HM_KIND_COMMAND\<rparr>) opts_init
      86000 sample_cache True (start_run empty_fs) = (Exit 2, r') \<and> r_fs r' = empty_fs"
proof -
  let ?h = "sample_host\<lparr>h_command := False\<rparr>" and ?p = "(project_defaults 1)\<lparr>p_kind := HM_KIND_COMMAND\<rparr>"
  obtain oc r' where w: "work ?h ?p opts_init 86000 sample_cache True (start_run empty_fs) = (oc, r')" by fastforce
  have "setup_fails ?h ?p sample_cache (r_log (start_run empty_fs))"
    by (simp add: setup_fails_def command_setup_fails_def)
  from failed_setup_not_recorded [OF this _ _ _ w] w show ?thesis by (simp add: opts_init_def start_run_def)
qed

section \<open>Two runs in a row\<close>

text \<open>A run that does no setup and writes nothing.\<close>

fun idle :: "action \<Rightarrow> bool" where
  "idle ALoad = True"
| "idle ALock = True"
| "idle AUnlock = True"
| "idle (AExec p as) = True"
| "idle (ASay s) = True"
| "idle _ = False"

lemma do_save_ok: "do_save h c r = (0, r') \<Longrightarrow> hm_cache_save (h_save h) c (r_fs r) = (True, r_fs r')"
  by (auto simp: do_save_def split: prod.split_asm if_split_asm)

text \<open>Work that ends well has saved a record of the same address, checked now.\<close>

definition saved_now :: "host \<Rightarrow> hm_cache \<Rightarrow> int \<Rightarrow> run \<Rightarrow> bool" where
  "saved_now h c now r' \<longleftrightarrow>
     (\<exists>c' fs. hm_cache_save (h_save h) c' fs = (True, r_fs r') \<and> k_path c' = k_path c \<and>
        k_identity c' = k_identity c \<and> k_last_check c' = now \<and> (cache_wf c \<longrightarrow> cache_wf c'))"

lemma saved_nowI:
  assumes "do_save h c' r = (0, r')" "k_path c' = k_path c" "k_identity c' = k_identity c"
    "k_last_check c' = now" "cache_wf c \<Longrightarrow> cache_wf c'"
  shows "saved_now h c now r'"
  using do_save_ok [OF assms(1)] assms(2-) unfolding saved_now_def by blast

lemma cache_wf_checked:
  "cache_wf c \<Longrightarrow> 0 \<le> now \<Longrightarrow> now < 2 ^ 63 \<Longrightarrow> cache_wf (c\<lparr>k_last_check := now\<rparr>)"
  "cache_wf c \<Longrightarrow> 0 \<le> now \<Longrightarrow> now < 2 ^ 63 \<Longrightarrow> cache_wf (c\<lparr>k_last_check := now, k_last_change := now\<rparr>)"
  "cache_wf c \<Longrightarrow> 0 \<le> now \<Longrightarrow> now < 2 ^ 63 \<Longrightarrow>
   cache_wf (c\<lparr>k_mark := copied (Suc HM_MARK_MAX) m, k_last_check := now, k_last_change := now\<rparr>)"
  using length_copied [of "Suc HM_MARK_MAX" m] by (simp_all add: cache_wf_def)

lemma command_saved:
  assumes "run_command_project h p opts now c r = (0, r')" "\<not> o_check_only opts" "\<not> o_dry_run opts"
    and "0 \<le> now" "now < 2 ^ 63"
  shows "saved_now h c now r'"
proof -
  from assms(1-3) obtain r1 where "do_save h (c\<lparr>k_last_check := now, k_last_change := now\<rparr>) r1 = (0, r')"
    by (auto simp: run_command_project_def Let_def split: if_split_asm)
  then show ?thesis by (rule saved_nowI) (use assms(4,5) in \<open>simp_all add: cache_wf_checked\<close>)
qed

lemma url_saved:
  assumes "run_url_project h p opts now c r = (0, r')" "\<not> o_check_only opts" "\<not> o_dry_run opts"
    and "0 \<le> now" "now < 2 ^ 63"
  shows "saved_now h c now r'"
proof -
  obtain res log where chk: "hm_check (h_xxh3 h) (h_curl h) p (r_log r) = (res, log)" by fastforce
  have "(\<exists>r1. do_save h (c\<lparr>k_last_check := now\<rparr>) r1 = (0, r')) \<or>
      (\<exists>r1 mark. do_save h (c\<lparr>k_mark := copied (Suc HM_MARK_MAX) mark, k_last_check := now, k_last_change := now\<rparr>) r1 = (0, r'))"
    using assms(1-3) chk by (cases res) (auto simp: run_url_project_def Let_def split: if_split_asm)
  then show ?thesis
  proof (elim exE disjE)
    fix r1 assume "do_save h (c\<lparr>k_last_check := now\<rparr>) r1 = (0, r')"
    then show ?thesis by (rule saved_nowI) (use assms(4,5) in \<open>simp_all add: cache_wf_checked\<close>)
  next
    fix r1 mark
    assume "do_save h (c\<lparr>k_mark := copied (Suc HM_MARK_MAX) mark, k_last_check := now, k_last_change := now\<rparr>) r1 = (0, r')"
    then show ?thesis by (rule saved_nowI) (use assms(4,5) in \<open>simp_all add: cache_wf_checked\<close>)
  qed
qed

lemma work_saved:
  assumes "work h p opts now c locked r = (oc, r')" "oc \<noteq> Exit 2" "\<not> o_check_only opts" "\<not> o_dry_run opts"
    and "0 \<le> now" "now < 2 ^ 63"
  shows "saved_now h c now r'"
proof -
  obtain rc r1 where b: "(if p_kind p = HM_KIND_COMMAND then run_command_project h p opts now c r
      else run_url_project h p opts now c r) = (rc, r1)" by fastforce
  with assms(1) have fin: "finish_locked h p opts locked rc r1 = (oc, r')" by (simp add: work_def)
  have "rc \<in> {0, 2}"
    using b assms(3,4) by (auto simp: run_command_project_def run_url_project_def do_save_def Let_def
        split: if_split_asm prod.split_asm sum.split_asm)
  with fin assms(2) have rc: "rc = 0" by (auto simp: finish_locked_def finish_failed)
  with b have "saved_now h c now r1"
    using command_saved [OF _ assms(3-6)] url_saved [OF _ assms(3-6)] by (auto split: if_split_asm)
  moreover have "r_fs r' = r_fs r1"
    using fin by (auto simp: finish_locked_def finish_def Let_def split: if_split_asm)
  ultimately show ?thesis by (simp add: saved_now_def)
qed

text \<open>Loading the record that such work left.\<close>

lemma load_saved:
  assumes "hm_cache_save e c' fs = (True, fs')" "cache_wf c'" "RdErr \<notin> set sched"
    and "k_path d = k_path c'" "k_identity d = k_identity c'"
  obtains d' where "hm_cache_load (record_open False fs' d) sched d = Some d'"
    "k_known d'" "k_last_check d' = k_last_check c'" "k_path d' = k_path d" "k_identity d' = k_identity d"
  using cache_load_stored [OF assms(3), of fs' d] stored_save [OF assms(1,2), of "k_identity d"] assms(4,5)
  by (auto simp: set_record_def clear_record_def record_open_def)


definition tool_project :: hm_project where
  "tool_project = (project_defaults 1)\<lparr>p_kind := HM_KIND_COMMAND, p_bin_path := ''/b'', p_bin_cached := True\<rparr>"

lemma tool_project_simps [simp]:
  "p_kind tool_project = HM_KIND_COMMAND" "p_bin_path tool_project = ''/b''" "p_bin_cached tool_project"
  "p_files tool_project = []" "p_sched_kind tool_project = HM_SCHED_EVERY" "p_sched_interval tool_project = 86400"
  by (simp_all add: tool_project_def project_defaults_def)

lemma sample_save_eq: "\<exists>fs'. hm_cache_save sample_save_env c fs = (True, fs')"
proof -
  have "fst (save_write (sv_writes sample_save_env) rest content)" for rest content
    by (rule save_write_no_err) (simp add: sample_save_env_def)
  then have "fst (hm_cache_save sample_save_env c fs)"
    by (auto simp: hm_cache_save_def Let_def sample_save_env_def split: prod.split)
  then show ?thesis by (metis prod.collapse)
qed


text \<open>
  C7: A process that waited for another one's update does not repeat it: when the record it reloads
  under the lock was saved by a process that finished at a time still within the interval, it only
  releases the lock and hands over (or exits 0); it runs no setup and leaves the cache as the other
  process did.
\<close>
theorem waiter_does_not_repeat_update:
  assumes "hm_cache_lock (h_lock h) c = (Locked, mk)"
    and "hm_cache_save e c' fs = (True, h_others h ((r_fs r)\<lparr>cf_mkdirs := cf_mkdirs (r_fs r) @ mk\<rparr>))"
    and "cache_wf c'" "k_path c' = k_path c" "k_identity c' = k_identity c"
    and "periodic p opts" "\<not> p_bin_cached p \<or> h_x_due2 h" "\<not> o_check_only opts" "\<not> o_dry_run opts"
    and "0 < k_last_check c'" "k_last_check c' \<le> h_time2 h" "h_time2 h < k_last_check c' + p_sched_interval p"
    and "h_time2 h < 2 ^ 63" "\<not> h_unreadable2 h" "RdErr \<notin> set (h_reads2 h)"
    and "slow_path h p opts c r = (oc, r')"
  shows "appends r idle r' \<and> r_fs r' = h_others h ((r_fs r)\<lparr>cf_mkdirs := cf_mkdirs (r_fs r) @ mk\<rparr>) \<and>
    oc \<in> {Exit 0, Exit 127, Program (p_bin_path p) (exec_args p opts)}"
proof -
  define fs' where "fs' = h_others h ((r_fs r)\<lparr>cf_mkdirs := cf_mkdirs (r_fs r) @ mk\<rparr>)"
  from load_saved [OF assms(2,3) assms(15), of c] assms(4,5) obtain d' where
      d': "hm_cache_load (record_open False fs' c) (h_reads2 h) c = Some d'" "k_known d'" "k_last_check d' = k_last_check c'"
    by (metis fs'_def)
  have c1: "clock_ok d' (h_time2 h)" using d'(3) assms(10,11,13) by (simp add: clock_ok_def)
  have c2: "fresh p d' (h_time2 h)" using d' assms(10,11,12) by (simp add: fresh_def)
  have due: "is_due p d' (h_time2 h) opts 0 True (h_x_due2 h) =
      (False, k_last_check d' + p_sched_interval p - h_time2 h)"
  proof (cases "p_bin_cached p")
    case True
    with assms(7) is_due_periodic [OF assms(6) c1, of True] c2 show ?thesis by simp
  next
    case False
    then have "is_due p d' (h_time2 h) opts 0 True (h_x_due2 h) = is_due p d' (h_time2 h) opts 0 True True"
      by (simp add: is_due_def)
    with is_due_periodic [OF assms(6) c1, of True True] c2 show ?thesis by simp
  qed
  define s where "s = report_skip p opts (k_last_check d' + p_sched_interval p - h_time2 h)
      (act ALoad (act ALock (r\<lparr>r_fs := fs'\<rparr>)))"
  have "appends (act ALoad (act ALock (r\<lparr>r_fs := fs'\<rparr>))) idle s"
    unfolding s_def by (rule report_skip_appends [of _ "[]"]) simp_all
  moreover have "appends r idle (act ALoad (act ALock (r\<lparr>r_fs := fs'\<rparr>)))" by (intro appends_act) simp_all
  ultimately have s: "appends r idle s" "r_fs s = fs'"
    by (auto intro: appends_trans simp: s_def)
  have "slow_path h p opts c r = finish h p opts 0 (act AUnlock s)"
    using assms(1,8,9,14) d'(1) due
    by (simp add: slow_path_def Let_def fs'_def [symmetric] s_def finish_locked_def)
  with assms(16) have "finish h p opts 0 (act AUnlock s) = (oc, r')" by simp
  then show ?thesis
    using s fs'_def by (auto simp: finish_def Let_def split: if_split_asm intro!: appends_act)
qed

theorem waiter_does_not_repeat_update_witness:
  "\<exists>e c'. appends (start_run empty_fs) idle (snd (slow_path
      (sample_host\<lparr>h_others := (\<lambda>fs. snd (hm_cache_save e c' fs))\<rparr>) tool_project opts_init sample_cache (start_run empty_fs)))"
proof -
  let ?c = "sample_cache\<lparr>k_last_check := 86000\<rparr>"
  let ?h = "sample_host\<lparr>h_others := (\<lambda>fs. snd (hm_cache_save sample_save_env ?c fs))\<rparr>"
  obtain oc r' where s: "slow_path ?h tool_project opts_init sample_cache (start_run empty_fs) = (oc, r')" by fastforce
  have lk: "hm_cache_lock (h_lock ?h) sample_cache = (Locked, [])"
    by (simp add: hm_cache_lock_def sample_host_def sample_lock_def)
  have sv: "hm_cache_save sample_save_env ?c fs = (True, snd (hm_cache_save sample_save_env ?c fs))" for fs
    using sample_save_eq [of ?c fs] by auto
  have wf: "cache_wf ?c" using sample_cache_wf by (simp add: cache_wf_def)
  have p: "periodic tool_project opts_init" by (simp add: periodic_def opts_init_def)
  have "appends (start_run empty_fs) idle r'"
    using waiter_does_not_repeat_update [OF lk _ wf _ _ p _ _ _ _ _ _ _ _ _ s, of sample_save_env] sv
    by (simp add: opts_init_def sample_host_def)
  with s show ?thesis by (metis snd_conv)
qed

section \<open>Exit codes\<close>

text \<open>What an exit status says, and that the program is handed over to only at the very end.\<close>

definition acting :: "hm_opts \<Rightarrow> bool" where
  "acting opts \<longleftrightarrow> \<not> (o_plan opts \<or> o_check_only opts \<or> o_dry_run opts \<or> o_adopt opts)"

definition outcome_ok :: "hm_opts \<Rightarrow> outcome \<Rightarrow> run \<Rightarrow> bool" where
  "outcome_ok opts oc r \<longleftrightarrow>
     (case oc of
        Exit n \<Rightarrow> n \<in> {0, 1, 2, 10, 127} \<and> (n = 10 \<longrightarrow> o_check_only opts \<or> o_dry_run opts) \<and>
          (n = 127 \<longrightarrow> acting opts \<and> (\<exists>t prog args. r_trace r = t @ [AExec prog args]))
      | Program prog args \<Rightarrow> acting opts \<and> (\<exists>t. r_trace r = t @ [AExec prog args])
      | Blocked \<Rightarrow> \<not> o_check_only opts \<and> \<not> o_dry_run opts)"

definition status_ok :: "hm_opts \<Rightarrow> nat \<Rightarrow> bool" where
  "status_ok opts rc \<longleftrightarrow> rc \<in> {0, 2, 10} \<and> (rc = 10 \<longrightarrow> o_check_only opts \<or> o_dry_run opts)"

lemma finish_outcome_ok:
  assumes "finish h p opts rc r = (oc, r')" "status_ok opts rc"
  shows "outcome_ok opts oc r'"
proof (cases "rc \<noteq> 0 \<or> p_bin_path p = [] \<or> \<not> acting opts")
  case True
  then have "oc = Exit rc" using assms(1) by (auto simp: finish_def acting_def split: if_split_asm)
  with assms(2) show ?thesis by (auto simp: outcome_ok_def status_ok_def)
next
  case False
  then show ?thesis using assms(1) by (auto simp: finish_def acting_def outcome_ok_def Let_def split: if_split_asm)
qed

lemma status_rules:
  "status_ok opts rc \<Longrightarrow> status_ok opts (fst (rc, r))"
  "status_ok opts (fst (do_save h c r))"
  "(b \<Longrightarrow> status_ok opts (fst u)) \<Longrightarrow> (\<not> b \<Longrightarrow> status_ok opts (fst v)) \<Longrightarrow> status_ok opts (fst (if b then u else v))"
  "(\<And>x y. z = (x, y) \<Longrightarrow> status_ok opts (fst (f x y))) \<Longrightarrow> status_ok opts (fst (case z of (x, y) \<Rightarrow> f x y))"
  "(\<And>x. s = Inl x \<Longrightarrow> status_ok opts (fst (g x))) \<Longrightarrow> (\<And>x. s = Inr x \<Longrightarrow> status_ok opts (fst (k x))) \<Longrightarrow>
   status_ok opts (fst (case s of Inl x \<Rightarrow> g x | Inr x \<Rightarrow> k x))"
  by (auto simp: status_ok_def do_save_def split: prod.split sum.split)

lemma run_command_status: "status_ok opts (fst (run_command_project h p opts now c r))"
  unfolding run_command_project_def Let_def by (intro status_rules) (simp_all add: status_ok_def)

lemma run_url_status: "status_ok opts (fst (run_url_project h p opts now c r))"
  unfolding run_url_project_def Let_def by (intro status_rules) (simp_all add: status_ok_def)

lemma finish_locked_ok: "finish_locked h p opts locked rc r = (oc, r') \<Longrightarrow> status_ok opts rc \<Longrightarrow> outcome_ok opts oc r'"
  unfolding finish_locked_def by (rule finish_outcome_ok)

lemma work_outcome_ok:
  assumes "work h p opts now c locked r = (oc, r')"
  shows "outcome_ok opts oc r'"
proof -
  obtain rc r1 where b: "(if p_kind p = HM_KIND_COMMAND then run_command_project h p opts now c r
      else run_url_project h p opts now c r) = (rc, r1)" by fastforce
  with run_command_status [of opts h p now c r] run_url_status [of opts h p now c r] have "status_ok opts rc"
    by (simp split: if_split_asm)
  with assms b finish_locked_ok show ?thesis by (simp add: work_def)
qed

lemma plain_exits: "n \<in> {0, 1, 2} \<Longrightarrow> outcome_ok opts (Exit n) r"
  by (auto simp: outcome_ok_def)

lemma slow_path_outcome_ok:
  assumes "slow_path h p opts c r = (oc, r')"
  shows "outcome_ok opts oc r'"
proof (cases "o_check_only opts \<or> o_dry_run opts")
  case True
  then show ?thesis using assms work_outcome_ok by (auto simp: slow_path_def)
next
  case False
  obtain res mk where lk: "hm_cache_lock (h_lock h) c = (res, mk)" by fastforce
  show ?thesis
  proof (cases "res = Locked")
    case True
    let ?fs = "h_others h ((r_fs r)\<lparr>cf_mkdirs := cf_mkdirs (r_fs r) @ mk\<rparr>)"
    let ?r = "act ALoad (act ALock (r\<lparr>r_fs := ?fs\<rparr>))"
    show ?thesis
    proof (cases "hm_cache_load (record_open (h_unreadable2 h) ?fs c) (h_reads2 h) c")
      case None
      then have "oc = Exit 1" using assms False True lk by (simp add: slow_path_def Let_def)
      then show ?thesis by (simp add: plain_exits)
    next
      case (Some c2)
      obtain due wait where d: "is_due p c2 (h_time2 h) opts 0 True (h_x_due2 h) = (due, wait)" by fastforce
      have "(oc, r') = (if \<not> due then finish_locked h p opts True 0 (report_skip p opts wait ?r)
          else work h p opts (h_time2 h) c2 True ?r)"
        using assms False True lk Some d by (simp add: slow_path_def Let_def)
      then show ?thesis
        using finish_locked_ok [of h p opts True 0 _ oc r'] work_outcome_ok [of h p opts "h_time2 h" c2 True ?r oc r']
        by (auto simp: status_ok_def split: if_split_asm)
    qed
  next
    case res: False
    then show ?thesis
      using assms False lk by (cases res) (auto simp: slow_path_def outcome_ok_def)
  qed
qed

lemma run_project_outcome_ok:
  assumes "run_project h p opts c r = (oc, r')" "\<not> o_plan opts"
  shows "outcome_ok opts oc r'"
proof (cases "hm_cache_load (record_open (h_unreadable1 h) (r_fs r) c) (h_reads1 h) c")
  case None
  then show ?thesis using assms(1) by (auto simp: run_project_def intro: plain_exits)
next
  case (Some c1)
  obtain due wait where d: "is_due p c1 (h_time1 h) opts 0 (\<not> exec_check p opts) (h_x_due1 h) = (due, wait)" by fastforce
  note run = assms(1) [unfolded run_project_def Some d option.case prod.case]
  show ?thesis
  proof (cases "\<not> due \<and> exec_check p opts")
    case True
    then have "acting opts" using assms(2) by (auto simp: exec_check_def acting_def)
    with True run slow_path_outcome_ok show ?thesis by (auto simp: Let_def outcome_ok_def split: if_split_asm)
  next
    case False
    then show ?thesis
      using run slow_path_outcome_ok finish_outcome_ok [of h p opts 0 _ oc r']
      by (auto simp: status_ok_def split: if_split_asm)
  qed
qed

lemma start_project_outcome_ok:
  assumes "start_project h opts name r = (oc, r')"
  shows "outcome_ok opts oc r'"
proof -
  have "oc \<in> {Exit 0, Exit 1, Exit 2} \<or> (\<exists>p c. run_project h p opts c r = (oc, r') \<and> \<not> o_plan opts)"
    using assms by (auto simp: start_project_def split: option.split_asm prod.split_asm if_split_asm)
  then show ?thesis by (auto intro: plain_exits run_project_outcome_ok)
qed


text \<open>
  C24: \<open>--dry-run\<close> and \<open>--check-only\<close> do write, and without the lock, so they can undo an update. When a dry
  run has loaded a record and seen its mark on the server, and another process then records an update,
  the dry run replaces that record by the older one, with its own check time: the mark just installed is
  forgotten, and the next run after the interval installs again.
\<close>
theorem dry_run_can_undo_update:
  assumes "o_check_only opts \<or> o_dry_run opts" "p_kind p = HM_KIND_URL" "\<not> p_bin_cached p" "k_known c"
    and "hm_check (h_xxh3 h) (h_curl h) p (r_log r) = (Inr (k_mark c, body), log)"
    and "cache_wf c" "0 \<le> now" "now < 2 ^ 63"
    and "hm_cache_save e c2 fs = (True, r_fs r)" "cache_wf c2" "k_path c2 = k_path c" "k_identity c2 = k_identity c"
    and "work h p opts now c False r = (Exit 0, r')" "r_trace r = []"
  shows "stored (k_path c) (k_identity c) (r_fs r) = Some (k_last_check c2, k_last_change c2, clean (k_mark c2)) \<and>
    stored (k_path c) (k_identity c) (r_fs r') = Some (now, k_last_change c, clean (k_mark c)) \<and> ALock \<notin> set (r_trace r')"
proof -
  let ?c = "c\<lparr>k_last_check := now\<rparr>"
  obtain r1 where r1: "r_fs r1 = r_fs r" "ALock \<notin> set (r_trace r1)" and run: "run_url_project h p opts now c r = do_save h ?c r1"
  proof (rule that)
    let ?r1 = "if o_verbose opts then act (ASay (''ok       '' @ p_name p @ '' ('' @ k_mark c @ '')'' @ [LF]))
      (act ACheck (r\<lparr>r_log := log\<rparr>)) else act ACheck (r\<lparr>r_log := log\<rparr>)"
    show "run_url_project h p opts now c r = do_save h ?c ?r1"
      using assms(3-5) by (simp add: run_url_project_def Let_def)
  qed (auto simp: assms(14))
  obtain rc r2 where ds: "do_save h ?c r1 = (rc, r2)" by fastforce
  have "finish h p opts rc r2 = (Exit 0, r')" using assms(2,13) run ds by (simp add: work_def finish_locked_def)
  then have r2: "rc = 0" "r' = r2" using assms(1) harmless_finish [of opts h p rc r2] by auto
  have "hm_cache_save (h_save h) ?c (r_fs r) = (True, r_fs r2)" using do_save_ok [of h ?c r1 r2] ds r2 r1(1) by simp
  from stored_save [OF this] stored_save [OF assms(9,10)] assms(11,12) cache_wf_checked(1) [OF assms(6-8)]
  have "stored (k_path c) (k_identity c) (r_fs r) = Some (k_last_check c2, k_last_change c2, clean (k_mark c2)) \<and>
    stored (k_path c) (k_identity c) (r_fs r2) = Some (now, k_last_change c, clean (k_mark c))" by simp
  moreover have "ALock \<notin> set (r_trace r2)" using ds r1(2) by (auto simp: do_save_def split: prod.split_asm)
  ultimately show ?thesis using r2 by simp
qed

theorem dry_run_can_undo_update_witness:
  "let c = sample_cache\<lparr>k_known := True, k_mark := hex64 3\<rparr>; c2 = sample_cache\<lparr>k_mark := ''new''\<rparr>;
       fs = snd (hm_cache_save sample_save_env c2 empty_fs);
       r' = snd (work sample_host hash_project (opts_init\<lparr>o_dry_run := True\<rparr>) 86000 c False (start_run fs))
   in stored (k_path c) (k_identity c) fs = Some (100, 42, ''new'') \<and>
      stored (k_path c) (k_identity c) (r_fs r') = Some (86000, 42, clean (hex64 3))"
proof -
  let ?c = "sample_cache\<lparr>k_known := True, k_mark := hex64 3\<rparr>" and ?c2 = "sample_cache\<lparr>k_mark := ''new''\<rparr>"
  let ?o = "opts_init\<lparr>o_dry_run := True\<rparr>"
  obtain fs where fs: "hm_cache_save sample_save_env ?c2 empty_fs = (True, fs)" using sample_save_eq by blast
  obtain log where run: "run_curl sample_curl out_init = (Inr ''abc'', log)"
    using sample_run [of out_init] by (cases "run_curl sample_curl out_init") simp
  have chk: "hm_check (h_xxh3 sample_host) (h_curl sample_host) hash_project (r_log (start_run fs)) = (Inr (k_mark ?c, ''abc''), log)"
    by (simp add: hm_check_def sample_host_def start_run_def run hash_project_def project_defaults_def hm_limits hm_hash_hex_def)
  obtain oc r' where w: "work sample_host hash_project ?o 86000 ?c False (start_run fs) = (oc, r')" by fastforce
  obtain r1 where "run_url_project sample_host hash_project ?o 86000 ?c (start_run fs) =
      do_save sample_host (?c\<lparr>k_last_check := 86000\<rparr>) r1"
    using chk by (simp add: run_url_project_def Let_def hash_project_def project_defaults_def)
  moreover obtain fs' where "hm_cache_save sample_save_env (?c\<lparr>k_last_check := 86000\<rparr>) (r_fs r1) = (True, fs')"
    using sample_save_eq by blast
  ultimately have "oc = Exit 0"
    using w by (simp add: work_def finish_locked_def harmless_finish do_save_def sample_host_def hash_project_def project_defaults_def)
  moreover have "cache_wf ?c" "cache_wf ?c2"
    using sample_cache_wf set_hex64 [of 3] by (auto simp: cache_wf_def hm_limits hex_chars_def)
  ultimately show ?thesis
    using dry_run_can_undo_update [of ?o hash_project ?c sample_host "start_run fs" "''abc''" log 86000 sample_save_env ?c2 empty_fs r']
      chk fs w clean_id [of "''new''"]
    by (simp add: Let_def hash_project_def project_defaults_def start_run_def sample_cache_def)
qed

end
