(* ===== verification/HM_Sandbox.thy ===== *)
theory HM_Sandbox
  imports HM_Project
begin

text \<open>
  \<^verbatim>\<open>src/sandbox.c\<close>: the Landlock policy a setup process puts itself under. Access rights are the bits
  of a 64-bit mask. The kernel's side is what Landlock documents: a process carries a stack of
  rulesets, and an access is denied when some ruleset handles its right without a rule that grants
  it on the object or on a directory above it. Objects are canonical paths (lists of names); the
  record \<open>sandbox_os\<close> says what each system call answers, \<open>so_open\<close> naming the object that
  \<open>open(O_PATH | O_NOFOLLOW)\<close> returns.
\<close>

section \<open>Rights\<close>

type_synonym mask = "64 word"

definition right :: "nat \<Rightarrow> mask" where
  "right i = push_bit i 1"

abbreviation "LANDLOCK_ACCESS_FS_EXECUTE \<equiv> right 0"
abbreviation "LANDLOCK_ACCESS_FS_WRITE_FILE \<equiv> right 1"
abbreviation "LANDLOCK_ACCESS_FS_READ_FILE \<equiv> right 2"
abbreviation "LANDLOCK_ACCESS_FS_READ_DIR \<equiv> right 3"
abbreviation "LANDLOCK_ACCESS_FS_REMOVE_DIR \<equiv> right 4"
abbreviation "LANDLOCK_ACCESS_FS_REMOVE_FILE \<equiv> right 5"
abbreviation "LANDLOCK_ACCESS_FS_MAKE_CHAR \<equiv> right 6"
abbreviation "LANDLOCK_ACCESS_FS_MAKE_DIR \<equiv> right 7"
abbreviation "LANDLOCK_ACCESS_FS_MAKE_REG \<equiv> right 8"
abbreviation "LANDLOCK_ACCESS_FS_MAKE_SOCK \<equiv> right 9"
abbreviation "LANDLOCK_ACCESS_FS_MAKE_FIFO \<equiv> right 10"
abbreviation "LANDLOCK_ACCESS_FS_MAKE_BLOCK \<equiv> right 11"
abbreviation "LANDLOCK_ACCESS_FS_MAKE_SYM \<equiv> right 12"
abbreviation "LANDLOCK_ACCESS_FS_REFER \<equiv> right 13"
abbreviation "LANDLOCK_ACCESS_FS_TRUNCATE \<equiv> right 14"
abbreviation "LANDLOCK_ACCESS_FS_IOCTL_DEV \<equiv> right 15"
abbreviation "LANDLOCK_ACCESS_FS_RESOLVE_UNIX \<equiv> right 16"

definition HM_LANDLOCK_MIN_ABI :: int where
  "HM_LANDLOCK_MIN_ABI = 3"

definition handled_access :: "int \<Rightarrow> mask" where
  "handled_access abi =
     (let access = LANDLOCK_ACCESS_FS_EXECUTE OR LANDLOCK_ACCESS_FS_WRITE_FILE OR LANDLOCK_ACCESS_FS_READ_FILE OR
            LANDLOCK_ACCESS_FS_READ_DIR OR LANDLOCK_ACCESS_FS_REMOVE_DIR OR LANDLOCK_ACCESS_FS_REMOVE_FILE OR
            LANDLOCK_ACCESS_FS_MAKE_CHAR OR LANDLOCK_ACCESS_FS_MAKE_DIR OR LANDLOCK_ACCESS_FS_MAKE_REG OR
            LANDLOCK_ACCESS_FS_MAKE_SOCK OR LANDLOCK_ACCESS_FS_MAKE_FIFO OR LANDLOCK_ACCESS_FS_MAKE_BLOCK OR
            LANDLOCK_ACCESS_FS_MAKE_SYM;
          access = (if abi \<ge> 2 then access OR LANDLOCK_ACCESS_FS_REFER else access);
          access = (if abi \<ge> 3 then access OR LANDLOCK_ACCESS_FS_TRUNCATE else access);
          access = (if abi \<ge> 5 then access OR LANDLOCK_ACCESS_FS_IOCTL_DEV else access)
      in if abi \<ge> 9 then access OR LANDLOCK_ACCESS_FS_RESOLVE_UNIX else access)"

definition readonly_access :: "int \<Rightarrow> mask" where
  "readonly_access abi =
     (let access = LANDLOCK_ACCESS_FS_EXECUTE OR LANDLOCK_ACCESS_FS_READ_FILE OR LANDLOCK_ACCESS_FS_READ_DIR
      in if abi \<ge> 9 then access OR LANDLOCK_ACCESS_FS_RESOLVE_UNIX else access)"

section \<open>The kernel's side\<close>

type_synonym object = "string list"

record ruleset =
  rs_handled :: mask
  rs_rules :: "(object \<times> mask) list"

record process =
  ps_no_new_privs :: bool
  ps_domain :: "ruleset list"

definition beneath :: "object \<Rightarrow> object \<Rightarrow> bool" where
  "beneath dir obj \<longleftrightarrow> take (length dir) obj = dir"

definition grants :: "ruleset \<Rightarrow> object \<Rightarrow> nat \<Rightarrow> bool" where
  "grants rs obj i \<longleftrightarrow>
     (bit (rs_handled rs) i \<longrightarrow> list_ex (\<lambda>(dir, allowed). beneath dir obj \<and> bit allowed i) (rs_rules rs))"

definition permits :: "process \<Rightarrow> object \<Rightarrow> nat \<Rightarrow> bool" where
  "permits proc obj i \<longleftrightarrow> list_all (\<lambda>rs. grants rs obj i) (ps_domain proc)"

record sandbox_os =
  so_abi :: int
  so_create :: bool
  so_open :: "string \<Rightarrow> bool \<Rightarrow> object option"
  so_add :: "string \<Rightarrow> bool"
  so_no_new_privs :: bool
  so_restrict :: bool

datatype sandbox_error =
    LandlockUnavailable
  | AbiTooOld int
  | CannotCreateRuleset
  | CannotOpenPath string
  | CannotAllowPath string
  | CannotSetNoNewPrivs
  | CannotEnforce

section \<open>Entering the sandbox\<close>

definition add_path_rule :: "sandbox_os \<Rightarrow> string \<Rightarrow> mask \<Rightarrow> bool \<Rightarrow> ruleset \<Rightarrow> sandbox_error + ruleset" where
  "add_path_rule os path access directory rs =
     (case so_open os path directory of
        None \<Rightarrow> Inl (CannotOpenPath path)
      | Some obj \<Rightarrow>
          if \<not> so_add os path then Inl (CannotAllowPath path)
          else Inr (rs\<lparr>rs_rules := rs_rules rs @ [(obj, access)]\<rparr>))"

fun add_write_dirs :: "sandbox_os \<Rightarrow> mask \<Rightarrow> hm_sandbox_write_dir list \<Rightarrow> ruleset \<Rightarrow> sandbox_error + ruleset" where
  "add_write_dirs os access [] rs = Inr rs"
| "add_write_dirs os access (d # ds) rs =
     (case add_path_rule os (wd_path d) access True rs of
        Inl e \<Rightarrow> Inl e
      | Inr rs' \<Rightarrow> add_write_dirs os access ds rs')"

definition build_ruleset :: "sandbox_os \<Rightarrow> hm_project \<Rightarrow> string \<Rightarrow> string \<Rightarrow> sandbox_error + ruleset" where
  "build_ruleset os p workdir cache_dir =
     (let access = handled_access (so_abi os)
      in case add_path_rule os ''/'' (readonly_access (so_abi os)) True \<lparr>rs_handled = access, rs_rules = []\<rparr> of
           Inl e \<Rightarrow> Inl e
         | Inr rs1 \<Rightarrow>
             (case add_path_rule os workdir access True rs1 of
                Inl e \<Rightarrow> Inl e
              | Inr rs2 \<Rightarrow>
                  (case add_path_rule os cache_dir access True rs2 of
                     Inl e \<Rightarrow> Inl e
                   | Inr rs3 \<Rightarrow>
                       (case add_write_dirs os access (p_write_dirs p) rs3 of
                          Inl e \<Rightarrow> Inl e
                        | Inr rs4 \<Rightarrow> add_path_rule os ''/dev/null'' LANDLOCK_ACCESS_FS_WRITE_FILE False rs4))))"

text \<open>The error return, if any, and the process afterwards.\<close>

definition hm_sandbox_enter :: "sandbox_os \<Rightarrow> hm_project \<Rightarrow> string \<Rightarrow> string \<Rightarrow> process \<Rightarrow> sandbox_error option \<times> process" where
  "hm_sandbox_enter os p workdir cache_dir proc =
     (if so_abi os < HM_LANDLOCK_MIN_ABI
      then (Some (if so_abi os < 0 then LandlockUnavailable else AbiTooOld (so_abi os)), proc)
      else if \<not> so_create os then (Some CannotCreateRuleset, proc)
      else
        (case build_ruleset os p workdir cache_dir of
           Inl e \<Rightarrow> (Some e, proc)
         | Inr rs \<Rightarrow>
             if \<not> so_no_new_privs os then (Some CannotSetNoNewPrivs, proc)
             else
               (let proc1 = proc\<lparr>ps_no_new_privs := True\<rparr>
                in if \<not> so_restrict os then (Some CannotEnforce, proc1)
                   else (None, proc1\<lparr>ps_domain := ps_domain proc1 @ [rs]\<rparr>))))"

section \<open>The rights of each ABI\<close>

lemma bit_right [simp]: "n < 64 \<Longrightarrow> bit (right n) i \<longleftrightarrow> i = n"
  by (auto simp: right_def bit_simps)

lemma bit_handled:
  assumes "3 \<le> abi"
  shows "bit (handled_access abi) i \<longleftrightarrow> i \<le> 14 \<or> (i = 15 \<and> 5 \<le> abi) \<or> (i = 16 \<and> 9 \<le> abi)"
proof -
  have "bit (handled_access abi) i \<longleftrightarrow>
      i \<in> set [0..<15] \<or> (i = 15 \<and> 5 \<le> abi) \<or> (i = 16 \<and> 9 \<le> abi)"
    using assms by (cases "5 \<le> abi"; cases "9 \<le> abi") (simp_all add: handled_access_def Let_def bit_or_iff disj_assoc upt_rec numeral_eq_Suc)
  then show ?thesis by auto
qed

lemma bit_readonly: "bit (readonly_access abi) i \<longleftrightarrow> i = 0 \<or> i = 2 \<or> i = 3 \<or> (i = 16 \<and> 9 \<le> abi)"
  by (auto simp: readonly_access_def Let_def bit_or_iff)

section \<open>The rules that were added\<close>

lemma add_path_ruleE:
  assumes "add_path_rule os path access directory rs = Inr rs'"
  obtains obj where "so_open os path directory = Some obj"
    "rs' = rs\<lparr>rs_rules := rs_rules rs @ [(obj, access)]\<rparr>"
  using assms by (auto simp: add_path_rule_def split: option.split_asm if_split_asm)

lemma add_write_dirs_rules:
  "add_write_dirs os access ds rs = Inr rs' \<Longrightarrow>
   rs_handled rs' = rs_handled rs \<and>
   rs_rules rs' = rs_rules rs @ map (\<lambda>d. (the (so_open os (wd_path d) True), access)) ds \<and>
   list_all (\<lambda>d. so_open os (wd_path d) True \<noteq> None) ds"
  by (induction ds arbitrary: rs) (auto split: sum.split_asm elim!: add_path_ruleE)

text \<open>The directories in which a sandboxed setup may write.\<close>

definition writable :: "hm_project \<Rightarrow> string \<Rightarrow> string \<Rightarrow> string list" where
  "writable p workdir cache_dir = workdir # cache_dir # map wd_path (p_write_dirs p)"

lemma build_ruleset_rules:
  assumes "build_ruleset os p workdir cache_dir = Inr rs"
  shows "rs_handled rs = handled_access (so_abi os)"
    and "rs_rules rs = (the (so_open os ''/'' True), readonly_access (so_abi os)) #
      map (\<lambda>d. (the (so_open os d True), handled_access (so_abi os))) (writable p workdir cache_dir) @
      [(the (so_open os ''/dev/null'' False), LANDLOCK_ACCESS_FS_WRITE_FILE)]"
    and "list_all (\<lambda>d. so_open os d True \<noteq> None) (''/'' # writable p workdir cache_dir)"
    and "so_open os ''/dev/null'' False \<noteq> None"
  using assms unfolding build_ruleset_def Let_def
  by (auto simp: writable_def list_all_iff split: sum.split_asm elim!: add_path_ruleE dest!: add_write_dirs_rules)

lemma sandbox_enterE:
  assumes "hm_sandbox_enter os p workdir cache_dir proc = (None, proc')"
  obtains rs where "build_ruleset os p workdir cache_dir = Inr rs" "HM_LANDLOCK_MIN_ABI \<le> so_abi os"
    "proc' = proc\<lparr>ps_no_new_privs := True, ps_domain := ps_domain proc @ [rs]\<rparr>"
  using assms by (auto simp: hm_sandbox_enter_def Let_def not_less split: if_split_asm sum.split_asm)

section \<open>Properties\<close>

text \<open>
  C11: What a sandboxed setup may do, exactly: once the sandbox is entered, a right the kernel knows is
  available on an object if and only if it was before and it is a read or execute right (from
  ABI 9 on also connecting to a socket), or the object lies in the work directory, the cache
  directory or a configured write directory, or it is writing to the null device. The objects are
  those the names stood for, without a final symbolic link, when the sandbox was entered.
\<close>
theorem sandbox_grants_exactly:
  assumes "hm_sandbox_enter os p workdir cache_dir proc = (None, proc')"
    and "so_open os ''/'' True = Some []"
    and "i \<le> 14 \<or> (i = 15 \<and> 5 \<le> so_abi os) \<or> (i = 16 \<and> 9 \<le> so_abi os)"
  shows "permits proc' obj i \<longleftrightarrow> permits proc obj i \<and>
    (i \<in> {0, 2, 3, 16} \<or>
     list_ex (\<lambda>d. beneath (the (so_open os d True)) obj) (writable p workdir cache_dir) \<or>
     i = 1 \<and> beneath (the (so_open os ''/dev/null'' False)) obj)"
proof -
  obtain rs where b: "build_ruleset os p workdir cache_dir = Inr rs" and abi: "HM_LANDLOCK_MIN_ABI \<le> so_abi os"
    and proc': "proc' = proc\<lparr>ps_no_new_privs := True, ps_domain := ps_domain proc @ [rs]\<rparr>"
    by (rule sandbox_enterE [OF assms(1)])
  have abi3: "3 \<le> so_abi os" using abi by (simp add: HM_LANDLOCK_MIN_ABI_def)
  have h: "bit (handled_access (so_abi os)) i" using assms(3) by (simp add: bit_handled [OF abi3])
  have root: "beneath [] obj" by (simp add: beneath_def)
  have r: "bit (readonly_access (so_abi os)) i \<longleftrightarrow> i \<in> {0, 2, 3, 16}"
    using assms(3) by (auto simp: bit_readonly)
  have "grants rs obj i \<longleftrightarrow> bit (readonly_access (so_abi os)) i \<or>
      list_ex (\<lambda>d. beneath (the (so_open os d True)) obj) (writable p workdir cache_dir) \<or>
      i = 1 \<and> beneath (the (so_open os ''/dev/null'' False)) obj"
    unfolding grants_def build_ruleset_rules(1,2) [OF b]
    using h root assms(2) by (auto simp: list_ex_iff)
  then show ?thesis by (simp add: permits_def proc' r)
qed

definition sample_sandbox :: sandbox_os where
  "sample_sandbox = \<lparr>so_abi = 4, so_create = True,
     so_open = (\<lambda>path directory. Some (filter (\<lambda>c. c \<noteq> []) (split_on SLASH path))),
     so_add = (\<lambda>_. True), so_no_new_privs = True, so_restrict = True\<rparr>"

theorem sandbox_grants_exactly_witness:
  "\<exists>proc'. hm_sandbox_enter sample_sandbox (project_defaults 1) ''/c/w'' ''/c'' \<lparr>ps_no_new_privs = False, ps_domain = []\<rparr> = (None, proc') \<and>
     permits proc' [''c'', ''w'', ''f''] 1 \<and> permits proc' [''dev'', ''null''] 1 \<and>
     \<not> permits proc' [''home''] 1 \<and> permits proc' [''home''] 2 \<and> \<not> permits proc' [''dev'', ''null''] 5"
proof -
  let ?p = "project_defaults 1" and ?proc = "\<lparr>ps_no_new_privs = False, ps_domain = []\<rparr>"
  obtain proc' where e: "hm_sandbox_enter sample_sandbox ?p ''/c/w'' ''/c'' ?proc = (None, proc')"
    by (simp add: hm_sandbox_enter_def sample_sandbox_def build_ruleset_def add_path_rule_def Let_def
        HM_LANDLOCK_MIN_ABI_def project_defaults_def)
  have root: "so_open sample_sandbox ''/'' True = Some []" by (simp add: sample_sandbox_def)
  have iff: "permits proc' obj i \<longleftrightarrow> i \<in> {0, 2, 3, 16} \<or> beneath [''c'', ''w''] obj \<or> beneath [''c''] obj \<or>
      i = 1 \<and> beneath [''dev'', ''null''] obj" if "i \<le> 14" for obj i
    using sandbox_grants_exactly [OF e root, of i obj] that
    by (simp add: permits_def writable_def project_defaults_def sample_sandbox_def)
  show ?thesis using e by (auto simp: iff beneath_def)
qed


end
