(* ===== verification/HM_Stamp.thy ===== *)
theory HM_Stamp
  imports HM_Prelude
begin

text \<open>
  \<^verbatim>\<open>src/tools/stamp.c\<close>: finding the self-hash slot of an ELF file, filling it with the file's digest and
  checking a stamped file. Offsets and sizes are 64-bit words as in C (\<open>size_t\<close>, \<open>uint64_t\<close>); a read or
  write outside the loaded bytes, which C leaves undefined, is the value \<open>OutOfBounds\<close>. Header field
  offsets are those of \<^verbatim>\<open><elf.h>\<close>. The digest \<open>xxh3\<close> is a parameter. The file's length is what
  \<open>ftell\<close> can return, below \<open>2 ^ 63\<close>.
\<close>

type_synonym byte = "8 word"

record elf_file =
  f_data :: "byte list"
  f_is64 :: bool
  f_msb :: bool

section \<open>Fields\<close>

definition rd :: "elf_file \<Rightarrow> ulong \<Rightarrow> nat \<Rightarrow> ulong option" where
  "rd f off n =
     (if unat off + n \<le> length (f_data f)
      then Some (foldl (\<lambda>v i. push_bit 8 v OR
                   ucast (f_data f ! (unat off + (if f_msb f then i else n - 1 - i)))) 0 [0..<n])
      else None)"

definition wr64 :: "elf_file \<Rightarrow> ulong \<Rightarrow> ulong \<Rightarrow> elf_file option" where
  "wr64 f off v =
     (if unat off + 8 \<le> length (f_data f)
      then Some (f\<lparr>f_data := foldl (\<lambda>d i. d[unat off + (if f_msb f then 7 - i else i) := ucast (drop_bit (8 * i) v)])
                   (f_data f) [0..<8]\<rparr>)
      else None)"

definition bytes_at :: "elf_file \<Rightarrow> ulong \<Rightarrow> nat \<Rightarrow> byte list option" where
  "bytes_at f off n = (if unat off + n \<le> length (f_data f) then Some (take n (drop (unat off) (f_data f))) else None)"

section \<open>Finding the slot\<close>

datatype slot_error =
    NotElf
  | UnsupportedHeader
  | NoSectionTable
  | DamagedNames
  | MalformedSection
  | WrongCount nat
  | AlreadyStamped
  | OutOfBounds

fun ask :: "'a option \<Rightarrow> ('a \<Rightarrow> slot_error + 'b) \<Rightarrow> slot_error + 'b" where
  "ask None k = Inl OutOfBounds"
| "ask (Some a) k = k a"

text \<open>A header field: offset and size in the 64-bit and in the 32-bit layout.\<close>

definition field :: "elf_file \<Rightarrow> ulong \<Rightarrow> nat \<times> nat \<Rightarrow> nat \<times> nat \<Rightarrow> ulong option" where
  "field f base l64 l32 =
     (if f_is64 f then rd f (base + of_nat (fst l64)) (snd l64) else rd f (base + of_nat (fst l32)) (snd l32))"

definition ehdr_size :: "elf_file \<Rightarrow> nat" where
  "ehdr_size f = (if f_is64 f then 64 else 52)"

definition shdr_size :: "elf_file \<Rightarrow> nat" where
  "shdr_size f = (if f_is64 f then 64 else 40)"

definition selfhash_section :: "byte list" where
  "selfhash_section = [0x2e, 0x68, 0x6d, 0x5f, 0x73, 0x65, 0x6c, 0x66, 0x68, 0x61, 0x73, 0x68, 0]"

definition HM_SELFHASH_SIZE :: nat where
  "HM_SELFHASH_SIZE = 8"

text \<open>Where the section headers and their names lie.\<close>

record section_table =
  s_off :: ulong
  s_ent :: ulong
  s_num :: ulong
  s_str :: ulong
  s_str_size :: ulong

definition open_elf :: "byte list \<Rightarrow> slot_error + elf_file" where
  "open_elf data =
     (if length data < 16 \<or> take 4 data \<noteq> [0x7f, 0x45, 0x4c, 0x46] then Inl NotElf
      else
        (let f = \<lparr>f_data = data, f_is64 = (data ! 4 = 2), f_msb = (data ! 5 = 2)\<rparr>
         in if (\<not> f_is64 f \<and> data ! 4 \<noteq> 1) \<or> (\<not> f_msb f \<and> data ! 5 \<noteq> 1) \<or> length data < ehdr_size f
            then Inl UnsupportedHeader else Inr f))"

definition section_headers :: "elf_file \<Rightarrow> slot_error + section_table" where
  "section_headers f =
     ask (field f 0 (40, 8) (32, 4)) (\<lambda>shoff.
     ask (field f 0 (58, 2) (46, 2)) (\<lambda>shentsize.
     ask (field f 0 (60, 2) (48, 2)) (\<lambda>shnum.
     ask (field f 0 (62, 2) (50, 2)) (\<lambda>shstrndx.
       let len = of_nat (length (f_data f))
       in if shentsize \<noteq> of_nat (shdr_size f) \<or> shnum = 0 \<or> shstrndx \<ge> shnum \<or> shoff > len \<or>
             shnum > (len - shoff) div shentsize then Inl NoSectionTable
          else
            ask (field f (shoff + shstrndx * shentsize) (24, 8) (16, 4)) (\<lambda>str_off.
            ask (field f (shoff + shstrndx * shentsize) (32, 8) (20, 4)) (\<lambda>str_size.
              if str_off > len \<or> str_size > len - str_off then Inl DamagedNames
              else Inr \<lparr>s_off = shoff, s_ent = shentsize, s_num = shnum, s_str = str_off, s_str_size = str_size\<rparr>))))))"

fun section_loop :: "elf_file \<Rightarrow> section_table \<Rightarrow> nat list \<Rightarrow> nat \<Rightarrow> ulong \<Rightarrow> slot_error + nat \<times> ulong" where
  "section_loop f s [] found slot = Inr (found, slot)"
| "section_loop f s (i # is) found slot =
     (let base = s_off s + of_nat i * s_ent s; len = of_nat (length (f_data f)) in
      ask (field f base (0, 4) (0, 4)) (\<lambda>name.
      ask (field f base (24, 8) (16, 4)) (\<lambda>off.
      ask (field f base (32, 8) (20, 4)) (\<lambda>size.
        if name \<ge> s_str_size s \<or> s_str_size s - name < of_nat (length selfhash_section)
        then section_loop f s is found slot
        else
          ask (bytes_at f (s_str s + name) (length selfhash_section)) (\<lambda>nm.
            if nm \<noteq> selfhash_section then section_loop f s is found slot
            else
              ask (field f base (4, 4) (4, 4)) (\<lambda>ty.
                if ty \<noteq> 1 \<or> size \<noteq> of_nat HM_SELFHASH_SIZE \<or> off > len \<or> len - off < of_nat HM_SELFHASH_SIZE
                then Inl MalformedSection
                else section_loop f s is (Suc found) off))))))"

definition find_slot :: "byte list \<Rightarrow> slot_error + elf_file \<times> ulong" where
  "find_slot data =
     (case open_elf data of
        Inl e \<Rightarrow> Inl e
      | Inr f \<Rightarrow>
          (case section_headers f of
             Inl e \<Rightarrow> Inl e
           | Inr s \<Rightarrow>
               (case section_loop f s [0..<unat (s_num s)] 0 0 of
                  Inl e \<Rightarrow> Inl e
                | Inr (found, slot) \<Rightarrow> if found \<noteq> 1 then Inl (WrongCount found) else Inr (f, slot))))"

section \<open>Stamping and checking\<close>

definition stamp_data :: "(byte list \<Rightarrow> ulong) \<Rightarrow> byte list \<Rightarrow> slot_error + byte list" where
  "stamp_data xxh3 data =
     (case find_slot data of
        Inl e \<Rightarrow> Inl e
      | Inr (f, slot) \<Rightarrow>
          ask (bytes_at f slot HM_SELFHASH_SIZE) (\<lambda>old.
            if list_ex (\<lambda>b. b \<noteq> 0) old then Inl AlreadyStamped
            else ask (wr64 f slot (xxh3 data)) (\<lambda>g. Inr (f_data g))))"

text \<open>The stored value and the digest of the file with the slot zeroed.\<close>

definition check_data :: "(byte list \<Rightarrow> ulong) \<Rightarrow> byte list \<Rightarrow> slot_error + ulong \<times> ulong" where
  "check_data xxh3 data =
     (case find_slot data of
        Inl e \<Rightarrow> Inl e
      | Inr (f, slot) \<Rightarrow>
          ask (rd f slot HM_SELFHASH_SIZE) (\<lambda>stored.
          ask (wr64 f slot 0) (\<lambda>g. Inr (stored, xxh3 (f_data g)))))"

text \<open>The files of the build directory, with their permission bits, and which calls succeed.\<close>

type_synonym build_files = "string \<Rightarrow> (nat \<times> byte list) option"

record tool_os =
  t_readable :: "string \<Rightarrow> bool"
  t_stat_ok :: bool
  t_create_ok :: bool
  t_write_ok :: bool
  t_chmod_ok :: bool
  t_rename_ok :: bool

definition load :: "tool_os \<Rightarrow> build_files \<Rightarrow> string \<Rightarrow> (nat \<times> byte list) option" where
  "load os fs path = (if t_readable os path then fs path else None)"

definition save :: "tool_os \<Rightarrow> byte list \<Rightarrow> string \<Rightarrow> nat \<Rightarrow> build_files \<Rightarrow> bool \<times> build_files" where
  "save os data path mode fs =
     (let tmp = path @ ''.tmp''
      in if \<not> t_create_ok os then (False, fs)
         else if t_write_ok os \<and> t_chmod_ok os \<and> t_rename_ok os
         then (True, fs(path \<mapsto> (mode, data), tmp := None))
         else (False, fs(tmp := None)))"

definition stamp :: "(byte list \<Rightarrow> ulong) \<Rightarrow> tool_os \<Rightarrow> string \<Rightarrow> string \<Rightarrow> build_files \<Rightarrow> nat \<times> build_files" where
  "stamp xxh3 os inp out fs =
     (case load os fs inp of
        None \<Rightarrow> (1, fs)
      | Some (mode, data) \<Rightarrow>
          (case stamp_data xxh3 data of
             Inl e \<Rightarrow> (1, fs)
           | Inr new \<Rightarrow>
               if \<not> t_stat_ok os then (1, fs)
               else (case save os new out (mode mod 4096) fs of (ok, fs') \<Rightarrow> (if ok then 0 else 1, fs'))))"

definition check :: "(byte list \<Rightarrow> ulong) \<Rightarrow> tool_os \<Rightarrow> string \<Rightarrow> build_files \<Rightarrow> nat" where
  "check xxh3 os path fs =
     (case load os fs path of
        None \<Rightarrow> 1
      | Some (mode, data) \<Rightarrow>
          (case check_data xxh3 data of
             Inl e \<Rightarrow> 1
           | Inr (stored, actual) \<Rightarrow> if stored \<noteq> actual then 1 else 0))"

definition stamp_main :: "(byte list \<Rightarrow> ulong) \<Rightarrow> tool_os \<Rightarrow> string list \<Rightarrow> build_files \<Rightarrow> nat \<times> build_files" where
  "stamp_main xxh3 os argv fs =
     (case argv of
        [prog, a, b] \<Rightarrow>
          if a = ''--check'' then (check xxh3 os b fs, fs)
          else if a = [] \<or> a ! 0 \<noteq> CHR ''-'' then stamp xxh3 os a b fs
          else (2, fs)
      | _ \<Rightarrow> (2, fs))"

section \<open>No access outside the file\<close>

text \<open>Words that stand for positions in the file.\<close>

lemma unat_of_nat_small: "n < 2 ^ 63 \<Longrightarrow> unat (of_nat n :: ulong) = n"
  by (simp add: unat_of_nat take_bit_nat_eq_self)

lemma unat_offset:
  assumes "unat (a :: ulong) + n < 2 ^ 63"
  shows "unat (a + of_nat n) = unat a + n"
proof -
  have "a + of_nat n = of_nat (unat a + n)" by simp
  then show ?thesis using assms by (simp only: unat_of_nat_small)
qed

lemma unat_sum:
  assumes "unat (a :: ulong) + unat (b :: ulong) < 2 ^ 63"
  shows "unat (a + b) = unat a + unat b"
  using unat_offset [of a "unat b"] assms by simp

lemma unat_entry:
  assumes "unat (a :: ulong) + i * unat (e :: ulong) < 2 ^ 63"
  shows "unat (a + of_nat i * e) = unat a + i * unat e"
proof -
  have "of_nat i * e = of_nat (i * unat e)" by simp
  then show ?thesis using unat_offset [OF assms] by simp
qed

lemma rd_Some: "unat off + n \<le> length (f_data f) \<Longrightarrow> \<exists>v. rd f off n = Some v"
  by (simp add: rd_def)

lemma field_Some:
  assumes "unat base + (if f_is64 f then fst l64 + snd l64 else fst l32 + snd l32) \<le> length (f_data f)"
    and "length (f_data f) < 2 ^ 63"
  shows "\<exists>v. field f base l64 l32 = Some v"
proof -
  have "unat (base + of_nat (fst l64)) + snd l64 \<le> length (f_data f)" if "f_is64 f"
    using that assms by (subst unat_offset) auto
  moreover have "unat (base + of_nat (fst l32)) + snd l32 \<le> length (f_data f)" if "\<not> f_is64 f"
    using that assms by (subst unat_offset) auto
  ultimately show ?thesis unfolding field_def by (auto intro: rd_Some)
qed

lemma ask_Some: "x = Some v \<Longrightarrow> ask x k = k v"
  by simp

lemma ask_cong: "x = y \<Longrightarrow> (\<And>v. y = Some v \<Longrightarrow> k v = k' v) \<Longrightarrow> ask x k = ask y k'"
  by (cases y) simp_all

text \<open>What the accepted section table promises about positions.\<close>

definition table_ok :: "elf_file \<Rightarrow> section_table \<Rightarrow> bool" where
  "table_ok f s \<longleftrightarrow>
     length (f_data f) < 2 ^ 63 \<and> unat (s_ent s) = shdr_size f \<and>
     unat (s_off s) + unat (s_num s) * shdr_size f \<le> length (f_data f) \<and>
     unat (s_str s) + unat (s_str_size s) \<le> length (f_data f)"

lemma open_elf_ok: "open_elf data = Inr f \<Longrightarrow> f_data f = data \<and> ehdr_size f \<le> length data"
  by (auto simp: open_elf_def Let_def split: if_split_asm)

lemma entry_inside:
  assumes "table_ok f s" "i < unat (s_num s)"
  shows "unat (s_off s + of_nat i * s_ent s) + shdr_size f \<le> length (f_data f)"
proof -
  have "unat (s_off s) + (i + 1) * shdr_size f \<le> unat (s_off s) + unat (s_num s) * shdr_size f"
    using assms(2) by (intro add_left_mono mult_le_mono1) simp
  then have le: "unat (s_off s) + i * shdr_size f + shdr_size f \<le> length (f_data f)"
    using assms(1) by (simp add: table_ok_def)
  then have "unat (s_off s + of_nat i * s_ent s) = unat (s_off s) + i * unat (s_ent s)"
    using assms(1) by (intro unat_entry) (simp add: table_ok_def)
  then show ?thesis using le assms(1) by (simp add: table_ok_def)
qed

lemma table_bounds:
  fixes shoff shnum shentsize :: ulong
  assumes "n < 2 ^ 63" "shentsize = of_nat e" "0 < e" "e < 2 ^ 63"
    and "\<not> shoff > of_nat n" "\<not> shnum > (of_nat n - shoff) div shentsize"
  shows "unat shoff + unat shnum * e \<le> n"
proof -
  have "unat shoff \<le> n" using assms(1,5) by (simp add: word_le_nat_alt unat_of_nat_small not_less)
  moreover have "unat shnum \<le> (n - unat shoff) div e"
  proof -
    have "unat shnum \<le> unat ((of_nat n - shoff) div shentsize)" using assms(6) by (simp add: word_le_nat_alt not_less)
    also have "\<dots> = unat (of_nat n - shoff) div e"
      using assms(2,4) by (simp add: unat_div unat_of_nat_small)
    also have "unat (of_nat n - shoff) = n - unat shoff"
      using assms(1,5) by (subst unat_sub) (simp_all add: unat_of_nat_small not_less)
    finally show ?thesis .
  qed
  then have "unat shnum * e \<le> n - unat shoff"
    using assms(3) by (meson le_trans mult_le_mono1 div_times_less_eq_dividend)
  ultimately show ?thesis by simp
qed

lemma names_bounds:
  fixes off size :: ulong
  assumes "n < 2 ^ 63" "\<not> off > of_nat n" "\<not> size > of_nat n - off"
  shows "unat off + unat size \<le> n"
proof -
  have "unat off \<le> n" using assms(1,2) by (simp add: word_le_nat_alt unat_of_nat_small not_less)
  moreover have "unat (of_nat n - off) = n - unat off"
    using assms(1,2) by (subst unat_sub) (simp_all add: unat_of_nat_small not_less)
  ultimately show ?thesis using assms(3) by (simp add: word_le_nat_alt not_less)
qed

lemma entry_field:
  assumes "unat base + shdr_size f \<le> length (f_data f)" "length (f_data f) < 2 ^ 63"
    and "fst l64 + snd l64 \<le> 64" "fst l32 + snd l32 \<le> 40"
  obtains v where "field f base l64 l32 = Some v"
proof -
  have "unat base + (if f_is64 f then fst l64 + snd l64 else fst l32 + snd l32) \<le> length (f_data f)"
    using assms by (simp add: shdr_size_def split: if_splits)
  from field_Some [OF this assms(2)] show ?thesis using that by blast
qed

text \<open>The section table is read within the file; what is read of it afterwards too.\<close>

lemma section_headers_ok:
  assumes "ehdr_size f \<le> length (f_data f)" "length (f_data f) < 2 ^ 63"
  shows "section_headers f \<noteq> Inl OutOfBounds" and "section_headers f = Inr s \<Longrightarrow> table_ok f s"
proof -
  have hdr: "\<exists>v. field f 0 l64 l32 = Some v" if "fst l64 + snd l64 \<le> 64" "fst l32 + snd l32 \<le> 52" for l64 l32
    by (rule field_Some) (use that assms in \<open>auto simp: ehdr_size_def\<close>)
  obtain shoff where 1: "field f 0 (40, 8) (32, 4) = Some shoff" using hdr [of "(40, 8)" "(32, 4)"] by auto
  obtain ent where 2: "field f 0 (58, 2) (46, 2) = Some ent" using hdr [of "(58, 2)" "(46, 2)"] by auto
  obtain num where 3: "field f 0 (60, 2) (48, 2) = Some num" using hdr [of "(60, 2)" "(48, 2)"] by auto
  obtain ndx where 4: "field f 0 (62, 2) (50, 2) = Some ndx" using hdr [of "(62, 2)" "(50, 2)"] by auto
  let ?len = "of_nat (length (f_data f)) :: ulong"
  let ?bad = "ent \<noteq> of_nat (shdr_size f) \<or> num = 0 \<or> ndx \<ge> num \<or> shoff > ?len \<or> num > (?len - shoff) div ent"
  have "section_headers f \<noteq> Inl OutOfBounds \<and> (\<forall>s. section_headers f = Inr s \<longrightarrow> table_ok f s)"
  proof (cases ?bad)
    case True
    then have "section_headers f = Inl NoSectionTable"
      unfolding section_headers_def 1 2 3 4 ask.simps Let_def by (simp only: if_True)
    then show ?thesis by simp
  next
    case False
    have e: "ent = of_nat (shdr_size f)" "0 < shdr_size f" "shdr_size f < 2 ^ 63" "unat ent = shdr_size f"
      using False by (auto simp: shdr_size_def)
    have tab: "unat shoff + unat num * shdr_size f \<le> length (f_data f)"
      using table_bounds [OF assms(2) e(1,2,3)] False by blast
    define s0 where "s0 = \<lparr>s_off = shoff, s_ent = ent, s_num = num, s_str = 0, s_str_size = 0\<rparr>"
    have "table_ok f s0" using tab e assms(2) by (simp add: table_ok_def s0_def)
    moreover have "unat ndx < unat num" using False by (simp add: word_less_nat_alt not_le)
    ultimately have "unat (shoff + of_nat (unat ndx) * ent) + shdr_size f \<le> length (f_data f)"
      using entry_inside [of f s0 "unat ndx"] by (simp add: s0_def)
    then have inside: "unat (shoff + ndx * ent) + shdr_size f \<le> length (f_data f)" by simp
    obtain so where 5: "field f (shoff + ndx * ent) (24, 8) (16, 4) = Some so"
      by (rule entry_field [OF inside assms(2), of "(24, 8)" "(16, 4)"]) auto
    obtain ss where 6: "field f (shoff + ndx * ent) (32, 8) (20, 4) = Some ss"
      by (rule entry_field [OF inside assms(2), of "(32, 8)" "(20, 4)"]) auto
    have r: "section_headers f = (if so > ?len \<or> ss > ?len - so then Inl DamagedNames
        else Inr \<lparr>s_off = shoff, s_ent = ent, s_num = num, s_str = so, s_str_size = ss\<rparr>)"
      unfolding section_headers_def 1 2 3 4 ask.simps Let_def using False by (simp only: if_False 5 6 ask.simps)
    show ?thesis
    proof (cases "so > ?len \<or> ss > ?len - so")
      case False
      then have "unat so + unat ss \<le> length (f_data f)" using names_bounds [OF assms(2)] by blast
      with r False tab e assms(2) show ?thesis by (simp add: table_ok_def)
    qed (use r in simp)
  qed
  then show "section_headers f \<noteq> Inl OutOfBounds" "section_headers f = Inr s \<Longrightarrow> table_ok f s" by blast+
qed

lemma bytes_at_Some: "unat off + n \<le> length (f_data f) \<Longrightarrow> bytes_at f off n = Some (take n (drop (unat off) (f_data f)))"
  by (simp add: bytes_at_def)

lemma name_inside:
  assumes "table_ok f s" "\<not> name \<ge> s_str_size s" "\<not> s_str_size s - name < of_nat (length selfhash_section)"
  shows "unat (s_str s + name) + length selfhash_section \<le> length (f_data f)"
proof -
  have "unat (s_str_size s - name) = unat (s_str_size s) - unat name"
    using assms(2) by (subst unat_sub) simp_all
  then have "13 \<le> unat (s_str_size s) - unat name"
    using assms(3) by (simp add: word_less_nat_alt not_less selfhash_section_def)
  moreover have "unat (s_str s) + unat (s_str_size s) \<le> length (f_data f)" "length (f_data f) < 2 ^ 63"
    using assms(1) by (simp_all add: table_ok_def)
  ultimately show ?thesis by (subst unat_sum) (simp_all add: selfhash_section_def)
qed

lemma section_loop_ok:
  assumes "table_ok f s" "\<forall>i\<in>set is. i < unat (s_num s)"
    and "0 < found \<longrightarrow> unat slot + HM_SELFHASH_SIZE \<le> length (f_data f)"
  shows "section_loop f s is found slot \<noteq> Inl OutOfBounds \<and>
    (\<forall>n sl. section_loop f s is found slot = Inr (n, sl) \<longrightarrow> 0 < n \<longrightarrow> unat sl + HM_SELFHASH_SIZE \<le> length (f_data f))"
  using assms(2,3)
proof (induction "is" arbitrary: found slot)
  case Nil
  then show ?case by simp
next
  case (Cons i "is")
  let ?base = "s_off s + of_nat i * s_ent s" and ?len = "of_nat (length (f_data f)) :: ulong"
  have len: "length (f_data f) < 2 ^ 63" using assms(1) by (simp add: table_ok_def)
  have ins: "unat ?base + shdr_size f \<le> length (f_data f)" using entry_inside [OF assms(1), of i] Cons.prems(1) by simp
  note fld = entry_field [OF ins len]
  obtain name where 1: "field f ?base (0, 4) (0, 4) = Some name" by (rule fld [of "(0, 4)" "(0, 4)"]) auto
  obtain off where 2: "field f ?base (24, 8) (16, 4) = Some off" by (rule fld [of "(24, 8)" "(16, 4)"]) auto
  obtain size where 3: "field f ?base (32, 8) (20, 4) = Some size" by (rule fld [of "(32, 8)" "(20, 4)"]) auto
  obtain ty where 4: "field f ?base (4, 4) (4, 4) = Some ty" by (rule fld [of "(4, 4)" "(4, 4)"]) auto
  note IH = Cons.IH [of found slot] Cons.IH [of "Suc found" off]
  have step: "section_loop f s (i # is) found slot =
      (if name \<ge> s_str_size s \<or> s_str_size s - name < of_nat (length selfhash_section) then section_loop f s is found slot
       else ask (bytes_at f (s_str s + name) (length selfhash_section)) (\<lambda>nm.
         if nm \<noteq> selfhash_section then section_loop f s is found slot
         else if ty \<noteq> 1 \<or> size \<noteq> of_nat HM_SELFHASH_SIZE \<or> off > ?len \<or> ?len - off < of_nat HM_SELFHASH_SIZE
           then Inl MalformedSection else section_loop f s is (Suc found) off))"
    by (simp only: section_loop.simps Let_def 1 2 3 4 ask.simps)
  show ?case
  proof (cases "name \<ge> s_str_size s \<or> s_str_size s - name < of_nat (length selfhash_section)")
    case True
    with step have "section_loop f s (i # is) found slot = section_loop f s is found slot" by (simp only: if_True)
    with IH(1) Cons.prems show ?thesis by simp
  next
    case False
    then obtain nm where nm: "bytes_at f (s_str s + name) (length selfhash_section) = Some nm"
      using name_inside [OF assms(1), of name] bytes_at_Some by blast
    let ?bad = "ty \<noteq> 1 \<or> size \<noteq> of_nat HM_SELFHASH_SIZE \<or> off > ?len \<or> ?len - off < of_nat HM_SELFHASH_SIZE"
    from step False nm have eq: "section_loop f s (i # is) found slot =
        (if nm \<noteq> selfhash_section then section_loop f s is found slot
         else if ?bad then Inl MalformedSection else section_loop f s is (Suc found) off)"
      by (simp only: if_False ask.simps)
    have "unat off + HM_SELFHASH_SIZE \<le> length (f_data f)" if "\<not> ?bad"
    proof -
      have "unat off + unat (of_nat HM_SELFHASH_SIZE :: ulong) \<le> length (f_data f)"
        by (rule names_bounds [OF len]) (use that in \<open>auto simp: not_less\<close>)
      then show ?thesis by (simp add: HM_SELFHASH_SIZE_def)
    qed
    then have b: "\<not> ?bad \<Longrightarrow> 0 < Suc found \<longrightarrow> unat off + HM_SELFHASH_SIZE \<le> length (f_data f)" by blast
    have i: "\<forall>i\<in>set is. i < unat (s_num s)" using Cons.prems(1) by simp
    consider "nm \<noteq> selfhash_section" | "nm = selfhash_section" "?bad" | "nm = selfhash_section" "\<not> ?bad" by blast
    then show ?thesis
    proof cases
      case 1
      then have e: "section_loop f s (i # is) found slot = section_loop f s is found slot" unfolding eq by (simp only: if_True not_False_eq_True)
      show ?thesis unfolding e by (rule IH(1) [OF i Cons.prems(2)])
    next
      case 2
      then show ?thesis unfolding eq by (simp only: if_True if_False not_True_eq_False) simp
    next
      case 3
      then have e: "section_loop f s (i # is) found slot = section_loop f s is (Suc found) off"
        unfolding eq by (simp only: if_False not_True_eq_False simp_thms)
      show ?thesis unfolding e by (rule IH(2) [OF i b [OF 3(2)]])
    qed
  qed
qed

lemma find_slot_inside:
  assumes "length data < 2 ^ 63"
  shows "find_slot data \<noteq> Inl OutOfBounds"
    and "find_slot data = Inr (f, slot) \<Longrightarrow> f_data f = data \<and> unat slot + HM_SELFHASH_SIZE \<le> length data"
proof -
  have "find_slot data \<noteq> Inl OutOfBounds \<and>
    (\<forall>f slot. find_slot data = Inr (f, slot) \<longrightarrow> f_data f = data \<and> unat slot + HM_SELFHASH_SIZE \<le> length data)"
  proof (cases "open_elf data")
    case (Inl e)
    then have "e \<noteq> OutOfBounds" by (auto simp: open_elf_def Let_def split: if_split_asm)
    with Inl show ?thesis by (simp add: find_slot_def)
  next
    case (Inr f)
    note f = open_elf_ok [OF Inr]
    have hdr: "ehdr_size f \<le> length (f_data f)" "length (f_data f) < 2 ^ 63" using f assms by simp_all
    show ?thesis
    proof (cases "section_headers f")
      case (Inl e)
      with section_headers_ok(1) [OF hdr] \<open>open_elf data = Inr f\<close> show ?thesis by (auto simp: find_slot_def)
    next
      case (Inr s)
      have s: "table_ok f s" by (rule section_headers_ok(2) [OF hdr Inr])
      have "\<forall>i\<in>set [0..<unat (s_num s)]. i < unat (s_num s)" by simp
      from section_loop_ok [OF s this, of 0 0] show ?thesis
        using \<open>open_elf data = Inr f\<close> Inr f
        by (cases "section_loop f s [0..<unat (s_num s)] 0 0") (auto simp: find_slot_def split: prod.splits)
    qed
  qed
  then show "find_slot data \<noteq> Inl OutOfBounds"
    "find_slot data = Inr (f, slot) \<Longrightarrow> f_data f = data \<and> unat slot + HM_SELFHASH_SIZE \<le> length data" by blast+
qed

section \<open>Fields as byte strings\<close>

definition le_bytes :: "ulong \<Rightarrow> byte list" where
  "le_bytes v = map (\<lambda>i. ucast (drop_bit (8 * i) v)) [0..<8]"

definition in_order :: "bool \<Rightarrow> 'a list \<Rightarrow> 'a list" where
  "in_order msb bs = (if msb then bs else rev bs)"

definition join_bytes :: "byte list \<Rightarrow> ulong" where
  "join_bytes bs = foldl (\<lambda>v b. push_bit 8 v OR ucast b) 0 bs"

lemma length_le_bytes [simp]: "length (le_bytes v) = 8"
  by (simp add: le_bytes_def)

lemma length_in_order [simp]: "length (in_order m bs) = length bs"
  by (simp add: in_order_def)

lemma in_order_twice [simp]: "in_order m (in_order m bs) = bs"
  by (simp add: in_order_def)

lemma byte_of_word: "ucast (ucast (x :: ulong) :: byte) = take_bit 8 x"
  by (rule bit_word_eqI) (simp add: bit_simps)

lemma join_prefix:
  "foldl (\<lambda>v b. push_bit 8 v OR ucast b) acc (rev (map (\<lambda>i. ucast (drop_bit (8 * i) v) :: byte) [0..<k])) =
     push_bit (8 * k) acc OR take_bit (8 * k) (v :: ulong)"
proof (induction k arbitrary: acc)
  case 0
  then show ?case by simp
next
  case (Suc k)
  have "push_bit (8 * k) (push_bit 8 acc OR take_bit 8 (drop_bit (8 * k) v)) OR take_bit (8 * k) v =
      push_bit (8 * Suc k) acc OR take_bit (8 * Suc k) v"
    by (rule bit_word_eqI) (auto simp: bit_simps ac_simps)
  then show ?case using Suc.IH by (simp add: byte_of_word)
qed

lemma join_le_bytes: "join_bytes (rev (le_bytes v)) = v"
  using join_prefix [of 0 v 8] by (simp add: join_bytes_def le_bytes_def take_bit_word_eq_self)

lemma take_drop_nth: "off + n \<le> length xs \<Longrightarrow> take n (drop off xs) = map (\<lambda>i. xs ! (off + i)) [0..<n]"
  by (rule nth_equalityI) simp_all

lemma rd_bytes:
  "rd f off n = map_option (\<lambda>bs. join_bytes (in_order (f_msb f) bs)) (bytes_at f off n)"
proof (cases "unat off + n \<le> length (f_data f)")
  case True
  let ?bs = "take n (drop (unat off) (f_data f))"
  have "map (\<lambda>i. f_data f ! (unat off + (if f_msb f then i else n - 1 - i))) [0..<n] = in_order (f_msb f) ?bs"
    unfolding take_drop_nth [OF True] by (rule nth_equalityI) (auto simp: in_order_def rev_nth)
  then show ?thesis
    using True foldl_map [of "\<lambda>v b. push_bit 8 v OR ucast b" "0 :: ulong"
        "\<lambda>i. f_data f ! (unat off + (if f_msb f then i else n - 1 - i))" "[0..<n]"]
    by (simp add: rd_def bytes_at_def join_bytes_def)
qed (simp add: rd_def bytes_at_def)

lemma wr64_bytes:
  "wr64 f off v =
    (if unat off + 8 \<le> length (f_data f)
     then Some (f\<lparr>f_data := take (unat off) (f_data f) @ in_order (f_msb f) (rev (le_bytes v)) @
             drop (unat off + 8) (f_data f)\<rparr>)
     else None)"
proof (cases "unat off + 8 \<le> length (f_data f)")
  case True
  define pre post where "pre = take (unat off) (f_data f)" and "post = drop (unat off + 8) (f_data f)"
  have eight: "\<exists>a b c d e g h k. xs = [a, b, c, d, e, g, h, k]" if "length xs = 8" for xs :: "byte list"
    using that by (auto simp: numeral_eq_Suc length_Suc_conv)
  have "length (take 8 (drop (unat off) (f_data f))) = 8" using True by simp
  from eight [OF this] obtain a b c d e g h k where mid: "take 8 (drop (unat off) (f_data f)) = [a, b, c, d, e, g, h, k]"
    by blast
  have "f_data f = pre @ take 8 (drop (unat off) (f_data f)) @ post"
    using append_take_drop_id [of 8 "drop (unat off) (f_data f)"] append_take_drop_id [of "unat off" "f_data f"]
    by (simp add: pre_def post_def add.commute)
  then have data: "f_data f = pre @ [a, b, c, d, e, g, h, k] @ post" by (simp add: mid)
  have pre: "length pre = unat off" using True by (simp add: pre_def)
  have "foldl (\<lambda>d i. d[unat off + (if f_msb f then 7 - i else i) := ucast (drop_bit (8 * i) v)]) (f_data f) [0..<8] =
      pre @ in_order (f_msb f) (rev (le_bytes v)) @ post"
    unfolding data by (cases "f_msb f") (simp_all add: upt_rec list_update_append pre in_order_def le_bytes_def)
  then show ?thesis using True by (simp add: wr64_def pre_def post_def)
qed (simp add: wr64_def)

section \<open>Changing only the slot\<close>

definition apart :: "nat \<Rightarrow> nat \<Rightarrow> nat \<Rightarrow> bool" where
  "apart slot a n \<longleftrightarrow> a + n \<le> slot \<or> slot + 8 \<le> a"

definition patched :: "nat \<Rightarrow> elf_file \<Rightarrow> elf_file \<Rightarrow> bool" where
  "patched slot f g \<longleftrightarrow>
     f_is64 g = f_is64 f \<and> f_msb g = f_msb f \<and> length (f_data g) = length (f_data f) \<and>
     take slot (f_data g) = take slot (f_data f) \<and> drop (slot + 8) (f_data g) = drop (slot + 8) (f_data f)"

lemma apart_sub: "apart slot a n \<Longrightarrow> a \<le> b \<Longrightarrow> b + m \<le> a + n \<Longrightarrow> apart slot b m"
  by (auto simp: apart_def)

lemma bytes_patched:
  assumes "patched slot f g" "apart slot (unat off) n"
  shows "bytes_at g off n = bytes_at f off n"
proof -
  have "take n (drop (unat off) (f_data g)) = take n (drop (unat off) (f_data f))"
  proof (cases "unat off + n \<le> slot")
    case True
    have "take n (drop (unat off) xs) = drop (unat off) (take (unat off + n) (take slot xs))" for xs :: "byte list"
      using True by (simp add: take_drop min_def add.commute)
    then show ?thesis using assms(1) unfolding patched_def by (simp only:)
  next
    case False
    then have "slot + 8 \<le> unat off" using assms(2) by (simp add: apart_def)
    then have "drop (unat off) xs = drop (unat off - (slot + 8)) (drop (slot + 8) xs)" for xs :: "byte list"
      by simp
    then show ?thesis using assms(1) unfolding patched_def by (simp only:)
  qed
  then show ?thesis using assms(1) by (simp add: bytes_at_def patched_def)
qed

lemma field_patched:
  assumes "patched slot f g" "apart slot (unat base) n" "unat base + n < 2 ^ 63"
    and "fst (if f_is64 f then l64 else l32) + snd (if f_is64 f then l64 else l32) \<le> n"
  shows "field g base l64 l32 = field f base l64 l32"
proof -
  define l where "l = (if f_is64 f then l64 else l32)"
  have "unat (base + of_nat (fst l)) = unat base + fst l" using assms(3,4) by (intro unat_offset) (simp add: l_def)
  then have "apart slot (unat (base + of_nat (fst l))) (snd l)"
    using assms(4) by (intro apart_sub [OF assms(2)]) (simp_all add: l_def)
  from bytes_patched [OF assms(1) this] assms(1) show ?thesis
    by (auto simp: field_def rd_bytes patched_def l_def)
qed

text \<open>The slot lies outside everything that finding it looks at.\<close>

definition slot_apart :: "elf_file \<Rightarrow> section_table \<Rightarrow> nat \<Rightarrow> bool" where
  "slot_apart f s slot \<longleftrightarrow>
     apart slot 0 (ehdr_size f) \<and> apart slot (unat (s_off s)) (unat (s_num s) * shdr_size f) \<and>
     apart slot (unat (s_str s)) (unat (s_str_size s))"

lemma entry_pos:
  assumes "table_ok f s" "i < unat (s_num s)"
  shows "unat (s_off s + of_nat i * s_ent s) = unat (s_off s) + i * shdr_size f"
    and "i * shdr_size f + shdr_size f \<le> unat (s_num s) * shdr_size f"
proof -
  show le: "i * shdr_size f + shdr_size f \<le> unat (s_num s) * shdr_size f"
    using assms(2) mult_le_mono1 [of "Suc i" "unat (s_num s)" "shdr_size f"] by simp
  have t: "length (f_data f) < 2 ^ 63" "unat (s_ent s) = shdr_size f"
    "unat (s_off s) + unat (s_num s) * shdr_size f \<le> length (f_data f)"
    using assms(1) by (simp_all add: table_ok_def)
  have "unat (s_off s) + i * shdr_size f < 2 ^ 63" using le t(1,3) by linarith
  then show "unat (s_off s + of_nat i * s_ent s) = unat (s_off s) + i * shdr_size f"
    using unat_entry [of "s_off s" i "s_ent s"] t(2) by simp
qed

lemma entry_patched:
  assumes "patched slot f g" "table_ok f s" "slot_apart f s slot" "i < unat (s_num s)"
    and "fst l64 + snd l64 \<le> 64" "fst l32 + snd l32 \<le> 40"
  shows "field g (s_off s + of_nat i * s_ent s) l64 l32 = field f (s_off s + of_nat i * s_ent s) l64 l32"
proof -
  obtain base where base: "base = s_off s + of_nat i * s_ent s" by simp
  note pos = entry_pos [OF assms(2,4), folded base]
  have "apart slot (unat (s_off s)) (unat (s_num s) * shdr_size f)" using assms(3) by (simp add: slot_apart_def)
  then have ap: "apart slot (unat base) (shdr_size f)"
    by (rule apart_sub) (use pos in linarith)+
  have "unat base + shdr_size f \<le> length (f_data f)" using entry_inside [OF assms(2,4)] base by simp
  moreover have "length (f_data f) < 2 ^ 63" using assms(2) by (simp add: table_ok_def)
  ultimately have lt: "unat base + shdr_size f < 2 ^ 63" by linarith
  have "fst (if f_is64 f then l64 else l32) + snd (if f_is64 f then l64 else l32) \<le> shdr_size f"
    using assms(5,6) by (simp add: shdr_size_def)
  from field_patched [OF assms(1) ap lt this] base show ?thesis by simp
qed

lemma name_patched:
  assumes "patched slot f g" "table_ok f s" "slot_apart f s slot"
    and "\<not> (name \<ge> s_str_size s \<or> s_str_size s - name < of_nat (length selfhash_section))"
  shows "bytes_at g (s_str s + name) (length selfhash_section) = bytes_at f (s_str s + name) (length selfhash_section)"
proof (rule bytes_patched [OF assms(1)])
  have "unat (s_str_size s - name) = unat (s_str_size s) - unat name"
    using assms(4) by (subst unat_sub) (auto simp: not_le less_imp_le)
  moreover have "13 \<le> unat (s_str_size s - name)"
    using assms(4) by (simp add: word_less_nat_alt not_less selfhash_section_def)
  ultimately have le: "unat name + 13 \<le> unat (s_str_size s)" by linarith
  have "unat (s_str s) + unat (s_str_size s) < 2 ^ 63" using assms(2) by (simp add: table_ok_def)
  then have "unat (s_str s + name) = unat (s_str s) + unat name" using le by (intro unat_sum) linarith
  then have "unat (s_str s) \<le> unat (s_str s + name)"
    "unat (s_str s + name) + length selfhash_section \<le> unat (s_str s) + unat (s_str_size s)"
    using le by (simp_all add: selfhash_section_def)
  moreover have "apart slot (unat (s_str s)) (unat (s_str_size s))" using assms(3) by (simp add: slot_apart_def)
  ultimately show "apart slot (unat (s_str s + name)) (length selfhash_section)" by (rule apart_sub [rotated])
qed

lemma section_loop_patched:
  assumes "patched slot f g" "table_ok f s" "slot_apart f s slot" "\<forall>i\<in>set is. i < unat (s_num s)"
  shows "section_loop g s is found sl = section_loop f s is found sl"
  using assms(4)
proof (induction "is" arbitrary: found sl)
  case Nil
  then show ?case by simp
next
  case (Cons i "is")
  have len: "length (f_data g) = length (f_data f)" using assms(1) by (simp add: patched_def)
  have i: "i < unat (s_num s)" using Cons.prems by simp
  have IH: "section_loop g s is n x = section_loop f s is n x" for n x using Cons by simp
  show ?case
    unfolding section_loop.simps Let_def len
    by (intro ask_cong entry_patched [OF assms(1-3) i] if_cong refl IH name_patched [OF assms(1-3)]) simp_all
qed

lemma ask_InrE:
  assumes "ask x k = Inr r"
  obtains v where "x = Some v" "k v = Inr r"
  using assms by (cases x) simp_all

lemma if_InrE:
  assumes "(if b then Inl e else y) = Inr r"
  obtains "\<not> b" "y = Inr r"
  using assms by (cases b) simp_all

lemma section_headersE:
  assumes "section_headers f = Inr s"
  obtains ndx where "field f 0 (40, 8) (32, 4) = Some (s_off s)" "field f 0 (58, 2) (46, 2) = Some (s_ent s)"
    "field f 0 (60, 2) (48, 2) = Some (s_num s)" "field f 0 (62, 2) (50, 2) = Some ndx"
    "\<not> (s_ent s \<noteq> of_nat (shdr_size f) \<or> s_num s = 0 \<or> ndx \<ge> s_num s \<or> s_off s > of_nat (length (f_data f)) \<or>
       s_num s > (of_nat (length (f_data f)) - s_off s) div s_ent s)"
    "field f (s_off s + ndx * s_ent s) (24, 8) (16, 4) = Some (s_str s)"
    "field f (s_off s + ndx * s_ent s) (32, 8) (20, 4) = Some (s_str_size s)"
    "\<not> (s_str s > of_nat (length (f_data f)) \<or> s_str_size s > of_nat (length (f_data f)) - s_str s)"
  using assms unfolding section_headers_def Let_def
  apply (elim ask_InrE if_InrE)
  apply (drule Inr_inject)
  apply hypsubst
  apply (rule that)
         apply (simp_all only: section_table.select_convs not_False_eq_True)
  done

lemma section_headers_patched:
  assumes "patched slot f g" "section_headers f = Inr s" "ehdr_size f \<le> length (f_data f)"
    and "length (f_data f) < 2 ^ 63" "slot_apart f s slot"
  shows "section_headers g = Inr s"
proof -
  have hdr: "field g 0 l64 l32 = field f 0 l64 l32" if "fst l64 + snd l64 \<le> 64" "fst l32 + snd l32 \<le> 52" for l64 l32
    by (rule field_patched [OF assms(1), of _ "ehdr_size f"])
      (use assms(5) that in \<open>auto simp: slot_apart_def ehdr_size_def\<close>)
  have len: "length (f_data g) = length (f_data f)" "shdr_size g = shdr_size f"
    using assms(1) by (simp_all add: patched_def shdr_size_def)
  have t: "table_ok f s" by (rule section_headers_ok(2) [OF assms(3,4,2)])
  have ent: "field g (s_off s + x * s_ent s) l64 l32 = field f (s_off s + x * s_ent s) l64 l32"
    if "x < s_num s" "fst l64 + snd l64 \<le> 64" "fst l32 + snd l32 \<le> 40" for x l64 l32
    using entry_patched [OF assms(1) t assms(5) _ that(2,3), of "unat x"] that(1) by (simp add: word_less_nat_alt)
  obtain ndx where x: "field f 0 (40, 8) (32, 4) = Some (s_off s)" "field f 0 (58, 2) (46, 2) = Some (s_ent s)"
    "field f 0 (60, 2) (48, 2) = Some (s_num s)" "field f 0 (62, 2) (50, 2) = Some ndx"
    and c: "\<not> (s_ent s \<noteq> of_nat (shdr_size f) \<or> s_num s = 0 \<or> ndx \<ge> s_num s \<or> s_off s > of_nat (length (f_data f)) \<or>
       s_num s > (of_nat (length (f_data f)) - s_off s) div s_ent s)"
    and y: "field f (s_off s + ndx * s_ent s) (24, 8) (16, 4) = Some (s_str s)"
    "field f (s_off s + ndx * s_ent s) (32, 8) (20, 4) = Some (s_str_size s)"
    and d: "\<not> (s_str s > of_nat (length (f_data f)) \<or> s_str_size s > of_nat (length (f_data f)) - s_str s)"
    by (rule section_headersE [OF assms(2)])
  have lt: "ndx < s_num s" using c by (simp add: not_le)
  have "field g 0 (40, 8) (32, 4) = Some (s_off s)" "field g 0 (58, 2) (46, 2) = Some (s_ent s)"
    "field g 0 (60, 2) (48, 2) = Some (s_num s)" "field g 0 (62, 2) (50, 2) = Some ndx"
    using x by (subst hdr; simp)+
  moreover have "field g (s_off s + ndx * s_ent s) (24, 8) (16, 4) = Some (s_str s)"
    "field g (s_off s + ndx * s_ent s) (32, 8) (20, 4) = Some (s_str_size s)"
    using y by (subst ent [OF lt]; simp)+
  ultimately show ?thesis
    unfolding section_headers_def Let_def len using c d by (simp only: ask.simps if_False) simp
qed

lemma open_elf_patched:
  assumes "open_elf data = Inr f" "slot \<le> length data" "ehdr_size f \<le> slot"
    and "length new = length data" "take slot new = take slot data"
  shows "open_elf new = Inr (f\<lparr>f_data := new\<rparr>)"
proof -
  have "16 \<le> slot" using assms(3) by (simp add: ehdr_size_def split: if_splits)
  then have t: "take 16 new = take 16 data" using arg_cong [OF assms(5), of "take 16"] by (simp add: min_def)
  have "take 4 new = take 4 data" using arg_cong [OF t, of "take 4"] by (simp add: min_def)
  moreover have "new ! 4 = data ! 4" using arg_cong [OF t, of "\<lambda>xs. xs ! 4"] by simp
  moreover have "new ! 5 = data ! 5" using arg_cong [OF t, of "\<lambda>xs. xs ! 5"] by simp
  ultimately show ?thesis
    using assms(1,4) by (auto simp: open_elf_def Let_def ehdr_size_def split: if_split_asm)
qed

lemma find_slotE:
  assumes "find_slot data = Inr (f, slot)"
  obtains s where "open_elf data = Inr f" "section_headers f = Inr s"
    "section_loop f s [0..<unat (s_num s)] 0 0 = Inr (1, slot)"
  using assms by (auto simp: find_slot_def split: sum.split_asm prod.split_asm if_split_asm)

text \<open>Patching the slot of a file keeps the slot where it is.\<close>

lemma find_slot_patched:
  assumes "find_slot data = Inr (f, slot)" "section_headers f = Inr s" "slot_apart f s (unat slot)"
    and "length data < 2 ^ 63" "length new = length data" "take (unat slot) new = take (unat slot) data"
    and "drop (unat slot + 8) new = drop (unat slot + 8) data"
  shows "find_slot new = Inr (f\<lparr>f_data := new\<rparr>, slot)"
proof -
  from find_slotE [OF assms(1)] assms(2) have o: "open_elf data = Inr f"
    and l: "section_loop f s [0..<unat (s_num s)] 0 0 = Inr (1, slot)" by (metis sum.inject(2))+
  note od = open_elf_ok [OF o]
  have ins: "unat slot + 8 \<le> length data"
    using find_slot_inside(2) [OF assms(4,1)] by (simp add: HM_SELFHASH_SIZE_def)
  have ap: "ehdr_size f \<le> unat slot"
    using assms(3) by (simp add: slot_apart_def apart_def ehdr_size_def)
  let ?g = "f\<lparr>f_data := new\<rparr>"
  have p: "patched (unat slot) f ?g" using od assms(5-7) by (simp add: patched_def)
  have len: "ehdr_size f \<le> length (f_data f)" "length (f_data f) < 2 ^ 63" using od assms(4) by simp_all
  have "section_headers ?g = Inr s" by (rule section_headers_patched [OF p assms(2) len assms(3)])
  moreover have "section_loop ?g s [0..<unat (s_num s)] 0 0 = section_loop f s [0..<unat (s_num s)] 0 0"
    by (rule section_loop_patched [OF p section_headers_ok(2) [OF len assms(2)] assms(3)]) simp
  moreover have "open_elf new = Inr ?g"
    using open_elf_patched [OF o _ ap assms(5,6)] ins by simp
  ultimately show ?thesis using l by (simp add: find_slot_def)
qed

section \<open>Properties\<close>


definition sample_elf :: "byte list" where
  "sample_elf =
     [0x7f, 0x45, 0x4c, 0x46, 1, 1, 1] @ replicate 25 0 @ [76, 0, 0, 0] @ replicate 10 0 @
     [40, 0, 2, 0, 0, 0] @ replicate 8 0 @ [0] @ selfhash_section @ [0, 0] @
     [0, 0, 0, 0, 3, 0, 0, 0] @ replicate 8 0 @ [60, 0, 0, 0, 14, 0, 0, 0] @ replicate 16 0 @
     [1, 0, 0, 0, 1, 0, 0, 0] @ replicate 8 0 @ [52, 0, 0, 0, 8, 0, 0, 0] @ replicate 16 0"

definition sample_elf_file :: elf_file where
  "sample_elf_file = \<lparr>f_data = sample_elf, f_is64 = False, f_msb = False\<rparr>"

lemma sample_elf_open: "open_elf sample_elf = Inr sample_elf_file"
  by code_simp

lemma sample_elf_headers:
  "section_headers sample_elf_file = Inr \<lparr>s_off = 76, s_ent = 40, s_num = 2, s_str = 60, s_str_size = 14\<rparr>"
  by code_simp

lemma sample_elf_slot: "find_slot sample_elf = Inr (sample_elf_file, 52)"
  by code_simp


text \<open>
  C22: Stamping and checking fit together: a file stamped with its digest is accepted by the check, which
  finds the slot at the same place and reads back exactly the digest of the file as linked; nothing
  but the eight bytes of the slot has changed; and a second stamping is refused. The slot has to lie
  outside the headers and the name table, which is where a linker puts a section's content.
\<close>
theorem stamp_then_check:
  assumes "length data < 2 ^ 63" "find_slot data = Inr (f, slot)" "section_headers f = Inr s"
    and "slot_apart f s (unat slot)" "stamp_data xxh3 data = Inr new" "xxh3 data \<noteq> 0"
  shows "check_data xxh3 new = Inr (xxh3 data, xxh3 data) \<and>
    take (unat slot) new = take (unat slot) data \<and> drop (unat slot + 8) new = drop (unat slot + 8) data \<and>
    stamp_data xxh3 new = Inl AlreadyStamped"
proof -
  note ins = find_slot_inside(2) [OF assms(1,2)]
  then have len: "unat slot + 8 \<le> length data" and d: "f_data f = data" by (simp_all add: HM_SELFHASH_SIZE_def)
  define mid where "mid = in_order (f_msb f) (rev (le_bytes (xxh3 data)))"
  have old: "bytes_at f slot HM_SELFHASH_SIZE = Some (take 8 (drop (unat slot) data))"
    using len d by (simp add: bytes_at_def HM_SELFHASH_SIZE_def)
  have zero: "take 8 (drop (unat slot) data) = replicate 8 0"
  proof -
    have "\<not> list_ex (\<lambda>b. b \<noteq> 0) (take 8 (drop (unat slot) data))"
      using assms(2,5) old by (auto simp: stamp_data_def split: if_split_asm)
    then show ?thesis using len by (intro replicate_eqI) (auto simp: list_ex_iff)
  qed
  have new: "new = take (unat slot) data @ mid @ drop (unat slot + 8) data"
    using assms(2,5) old len d by (auto simp: stamp_data_def wr64_bytes mid_def split: if_split_asm)
  have m: "length mid = 8" by (simp add: mid_def)
  have keep: "length new = length data" "take (unat slot) new = take (unat slot) data"
    "drop (unat slot + 8) new = drop (unat slot + 8) data" using len m by (simp_all add: new)
  have fs: "find_slot new = Inr (f\<lparr>f_data := new\<rparr>, slot)"
    by (rule find_slot_patched [OF assms(2,3,4,1) keep])
  have at: "bytes_at (f\<lparr>f_data := new\<rparr>) slot 8 = Some mid" using len m by (simp add: bytes_at_def new)
  have val: "rd (f\<lparr>f_data := new\<rparr>) slot 8 = Some (xxh3 data)"
    using at by (simp add: rd_bytes mid_def join_le_bytes)
  have "le_bytes 0 = replicate 8 0" by (simp add: le_bytes_def upt_rec numeral_eq_Suc)
  then have "take (unat slot) data @ in_order (f_msb f) (rev (le_bytes 0)) @ drop (unat slot + 8) data = data"
    using zero append_take_drop_id [of 8 "drop (unat slot) data"] append_take_drop_id [of "unat slot" data]
    by (simp add: in_order_def add.commute)
  then have wr: "wr64 (f\<lparr>f_data := new\<rparr>) slot 0 = Some (f\<lparr>f_data := data\<rparr>)"
    using len m by (simp add: wr64_bytes keep new)
  have "check_data xxh3 new = Inr (xxh3 data, xxh3 data)"
    using fs val wr by (simp add: check_data_def HM_SELFHASH_SIZE_def)
  moreover have "list_ex (\<lambda>b. b \<noteq> 0) mid"
  proof (rule ccontr)
    assume "\<not> list_ex (\<lambda>b. b \<noteq> 0) mid"
    then have "mid = replicate 8 0" using m by (intro replicate_eqI) (auto simp: list_ex_iff)
    then have "rev (le_bytes (xxh3 data)) = replicate 8 0" by (auto simp: mid_def in_order_def split: if_splits)
    then have "join_bytes (replicate 8 0) = xxh3 data" using join_le_bytes [of "xxh3 data"] by simp
    then show False using assms(6) by (simp add: join_bytes_def numeral_eq_Suc)
  qed
  then have "stamp_data xxh3 new = Inl AlreadyStamped"
    using fs at by (simp add: stamp_data_def HM_SELFHASH_SIZE_def)
  ultimately show ?thesis using keep by simp
qed

theorem stamp_then_check_witness:
  "\<exists>new. stamp_data (\<lambda>d. 0x1122334455667788) sample_elf = Inr new \<and>
     check_data (\<lambda>d. 0x1122334455667788) new = Inr (0x1122334455667788, 0x1122334455667788)"
proof -
  let ?h = "\<lambda>d :: byte list. 0x1122334455667788 :: ulong"
  have l: "length sample_elf < 2 ^ 63" by (simp add: sample_elf_def selfhash_section_def)
  have a: "slot_apart sample_elf_file \<lparr>s_off = 76, s_ent = 40, s_num = 2, s_str = 60, s_str_size = 14\<rparr> (unat (52 :: ulong))"
    by code_simp
  obtain new where n: "stamp_data ?h sample_elf = Inr new"
  proof -
    have "\<not> list_ex (\<lambda>b. b \<noteq> 0) (take 8 (drop 52 sample_elf))"
      by (simp add: sample_elf_def list_ex_iff)
    then show ?thesis
      using that find_slot_inside(2) [OF l sample_elf_slot]
      by (auto simp: stamp_data_def sample_elf_slot bytes_at_def wr64_def HM_SELFHASH_SIZE_def sample_elf_file_def)
  qed
  from stamp_then_check [OF l sample_elf_slot sample_elf_headers a n] n show ?thesis by auto
qed

end
