(* ===== verification/HM_Files.thy ===== *)
theory HM_Files
  imports HM_Prelude
begin

text \<open>
  The files the slow path works on: a tree with symbolic links, named by canonical paths (lists of
  names), and the system calls the program makes on it, with the kernel's path resolution. Any call
  may also be refused (\<open>os_refuse\<close>), for whatever reason the kernel has. Only what the program
  observes is kept: whether an entry is a directory the owner may read, write and search, a regular
  file with its bytes, or a symbolic link with its target.
\<close>

section \<open>The tree\<close>

datatype entry = EDir bool | EReg string | ELink string

type_synonym path = "string list"

type_synonym files = "(path \<times> entry) list"

definition look :: "files \<Rightarrow> path \<Rightarrow> entry option" where
  "look fs p = (if p = [] then Some (EDir True) else map_of fs p)"

definition put :: "path \<Rightarrow> entry \<Rightarrow> files \<Rightarrow> files" where
  "put p e fs = (p, e) # filter (\<lambda>(q, _). q \<noteq> p) fs"

definition drop_entry :: "path \<Rightarrow> files \<Rightarrow> files" where
  "drop_entry p fs = filter (\<lambda>(q, _). q \<noteq> p) fs"

definition under :: "path \<Rightarrow> path \<Rightarrow> bool" where
  "under d p \<longleftrightarrow> take (length d) p = d"

definition names_in :: "files \<Rightarrow> path \<Rightarrow> string list" where
  "names_in fs d = remdups (map (last \<circ> fst) (filter (\<lambda>(q, _). q \<noteq> [] \<and> butlast q = d) fs))"

lemma map_of_filter_neq: "map_of (filter (\<lambda>(q, _). q \<noteq> p) fs) q = (if q = p then None else map_of fs q)"
  by (induction fs) auto

lemma look_put [simp]: "look (put p e fs) q = (if q = [] then Some (EDir True) else if q = p then Some e else look fs q)"
  by (simp add: look_def put_def map_of_filter_neq)

lemma look_drop_entry [simp]:
  "look (drop_entry p fs) q = (if q = [] then Some (EDir True) else if q = p then None else look fs q)"
  by (simp add: look_def drop_entry_def map_of_filter_neq)

lemma look_Nil [simp]: "look fs [] = Some (EDir True)"
  by (simp add: look_def)

lemma under_refl [simp]: "under p p"
  by (simp add: under_def)

lemma under_append [simp]: "under d (d @ q)"
  by (simp add: under_def)

lemma underE: "under d p \<Longrightarrow> (\<And>q. p = d @ q \<Longrightarrow> P) \<Longrightarrow> P"
  unfolding under_def by (metis append_take_drop_id)

lemma under_trans: "under d p \<Longrightarrow> under p q \<Longrightarrow> under d q"
  by (auto elim!: underE)

lemma in_names_in: "nm \<in> set (names_in fs d) \<longleftrightarrow> (\<exists>e. (d @ [nm], e) \<in> set fs)"
proof
  assume "nm \<in> set (names_in fs d)"
  then obtain q e where "(q, e) \<in> set fs" "q \<noteq> []" "butlast q = d" "last q = nm" by (auto simp: names_in_def)
  then show "\<exists>e. (d @ [nm], e) \<in> set fs" by (metis append_butlast_last_id)
next
  assume "\<exists>e. (d @ [nm], e) \<in> set fs"
  then show "nm \<in> set (names_in fs d)"
    unfolding names_in_def by (force simp: image_iff)
qed

lemma look_names: "look fs (d @ [nm]) \<noteq> None \<longleftrightarrow> nm \<in> set (names_in fs d)"
  by (auto simp: look_def in_names_in weak_map_of_SomeI dest: map_of_SomeD)

section \<open>Path resolution\<close>

text \<open>
  Walking the components of a path from a directory: \<open>NoEnt\<close> when a component is missing, \<open>Bad\<close> when
  a non-directory is walked through or too many links are met. The last component need not exist; a
  link there is followed only when \<open>follow\<close> says so.
\<close>

datatype walked = At path | NoEnt | Bad

function walk :: "nat \<Rightarrow> files \<Rightarrow> path \<Rightarrow> string list \<Rightarrow> bool \<Rightarrow> walked" where
  "walk links fs d [] follow = At d"
| "walk links fs d (c # cs) follow =
     (if c = [] \<or> c = ''.'' then walk links fs d cs follow
      else if c = ''..'' then walk links fs (butlast d) cs follow
      else
        (case look fs (d @ [c]) of
           None \<Rightarrow> if cs = [] then At (d @ [c]) else NoEnt
         | Some (EReg _) \<Rightarrow> if cs = [] then At (d @ [c]) else Bad
         | Some (EDir _) \<Rightarrow> walk links fs (d @ [c]) cs follow
         | Some (ELink t) \<Rightarrow>
             if cs = [] \<and> \<not> follow then At (d @ [c])
             else (case links of
                     0 \<Rightarrow> Bad
                   | Suc l \<Rightarrow> walk l fs (if take 1 t = [SLASH] then [] else d) (split_on SLASH t @ cs) follow)))"
  by pat_completeness auto
termination
  by (relation "measures [\<lambda>(links, _). links, \<lambda>(_, _, _, cs, _). length cs]") auto

declare walk.simps [simp del]
lemmas walk_Nil [simp] = walk.simps(1)

text \<open>The kernel follows at most 40 links. \<open>os_written\<close>: the bytes that got out before a refused write.\<close>

datatype syscall =
    SysMkdir | SysLstat | SysChmod | SysOpendir | SysReaddir | SysClosedir | SysRmdir | SysUnlink | SysMalloc
  | SysOpen | SysFdopen | SysWrite | SysClose | SysRename | SysDup

record os_env =
  os_cwd :: path
  os_refuse :: "syscall \<Rightarrow> string \<Rightarrow> bool"
  os_written :: nat

definition resolve :: "os_env \<Rightarrow> files \<Rightarrow> string \<Rightarrow> bool \<Rightarrow> walked" where
  "resolve e fs path follow =
     walk 40 fs (if take 1 path = [SLASH] then [] else os_cwd e) (split_on SLASH path) follow"

section \<open>System calls\<close>

datatype stat_result = StDir bool | StOther | StNoEnt | StErr

definition sys_lstat :: "os_env \<Rightarrow> files \<Rightarrow> string \<Rightarrow> stat_result" where
  "sys_lstat e fs path =
     (if os_refuse e SysLstat path then StErr
      else
        (case resolve e fs path False of
           NoEnt \<Rightarrow> StNoEnt
         | Bad \<Rightarrow> StErr
         | At p \<Rightarrow>
             (case look fs p of
                None \<Rightarrow> StNoEnt
              | Some (EDir w) \<Rightarrow> StDir w
              | Some _ \<Rightarrow> StOther)))"

datatype mkdir_result = MkMade | MkExists | MkFail

definition sys_mkdir :: "os_env \<Rightarrow> files \<Rightarrow> string \<Rightarrow> mkdir_result \<times> files" where
  "sys_mkdir e fs path =
     (if os_refuse e SysMkdir path then (MkFail, fs)
      else
        (case resolve e fs path False of
           At p \<Rightarrow> if look fs p \<noteq> None then (MkExists, fs) else (MkMade, put p (EDir True) fs)
         | _ \<Rightarrow> (MkFail, fs)))"

definition sys_unlink :: "os_env \<Rightarrow> files \<Rightarrow> string \<Rightarrow> bool \<times> files" where
  "sys_unlink e fs path =
     (if os_refuse e SysUnlink path then (False, fs)
      else
        (case resolve e fs path False of
           At p \<Rightarrow>
             (case look fs p of
                None \<Rightarrow> (False, fs)
              | Some (EDir _) \<Rightarrow> (False, fs)
              | Some _ \<Rightarrow> (True, drop_entry p fs))
         | _ \<Rightarrow> (False, fs)))"

definition empty_dir :: "files \<Rightarrow> path \<Rightarrow> bool" where
  "empty_dir fs p \<longleftrightarrow> list_all (\<lambda>(q, _). under p q \<longrightarrow> q = p) fs"

definition sys_rmdir :: "os_env \<Rightarrow> files \<Rightarrow> string \<Rightarrow> bool \<times> files" where
  "sys_rmdir e fs path =
     (if os_refuse e SysRmdir path then (False, fs)
      else
        (case resolve e fs path False of
           At p \<Rightarrow>
             (case look fs p of
                Some (EDir _) \<Rightarrow> if p \<noteq> [] \<and> empty_dir fs p then (True, drop_entry p fs) else (False, fs)
              | _ \<Rightarrow> (False, fs))
         | _ \<Rightarrow> (False, fs)))"

text \<open>\<open>chmod\<close> to owner read, write and search, as the program uses it, and \<open>opendir\<close>: both follow links.\<close>

definition sys_chmod_rwx :: "os_env \<Rightarrow> files \<Rightarrow> string \<Rightarrow> bool \<times> files" where
  "sys_chmod_rwx e fs path =
     (if os_refuse e SysChmod path then (False, fs)
      else
        (case resolve e fs path True of
           At p \<Rightarrow>
             (case look fs p of
                None \<Rightarrow> (False, fs)
              | Some (EDir _) \<Rightarrow> (True, put p (EDir True) fs)
              | Some _ \<Rightarrow> (True, fs))
         | _ \<Rightarrow> (False, fs)))"

definition sys_opendir :: "os_env \<Rightarrow> files \<Rightarrow> string \<Rightarrow> string list option" where
  "sys_opendir e fs path =
     (if os_refuse e SysOpendir path then None
      else
        (case resolve e fs path True of
           At p \<Rightarrow> (case look fs p of Some (EDir _) \<Rightarrow> Some (names_in fs p) | _ \<Rightarrow> None)
         | _ \<Rightarrow> None))"

text \<open>\<open>open(O_CREAT | O_EXCL)\<close> on a new file, and \<open>rename\<close> of a file onto a name.\<close>

definition sys_create :: "os_env \<Rightarrow> files \<Rightarrow> string \<Rightarrow> path option" where
  "sys_create e fs path =
     (if os_refuse e SysOpen path then None
      else (case resolve e fs path False of At p \<Rightarrow> if look fs p = None then Some p else None | _ \<Rightarrow> None))"

definition sys_rename :: "os_env \<Rightarrow> files \<Rightarrow> string \<Rightarrow> string \<Rightarrow> bool \<times> files" where
  "sys_rename e fs old new =
     (if os_refuse e SysRename old then (False, fs)
      else
        (case (resolve e fs old False, resolve e fs new False) of
           (At p, At q) \<Rightarrow>
             (case (look fs p, look fs q) of
                (Some (EReg s), Some (EDir _)) \<Rightarrow> (False, fs)
              | (Some (EReg s), _) \<Rightarrow> (True, put q (EReg s) (drop_entry p fs))
              | _ \<Rightarrow> (False, fs))
         | _ \<Rightarrow> (False, fs)))"

section \<open>Walking one component further\<close>

text \<open>A name that can appear in a directory.\<close>

definition real_name :: "string \<Rightarrow> bool" where
  "real_name c \<longleftrightarrow> c \<noteq> [] \<and> c \<noteq> ''.'' \<and> c \<noteq> ''..'' \<and> SLASH \<notin> set c"

lemma walk_one:
  assumes "real_name c" "\<not> follow \<or> (\<nexists>t. look fs (d @ [c]) = Some (ELink t))"
  shows "walk links fs d [c] follow = At (d @ [c])"
  using assms by (auto simp: walk.simps real_name_def split: option.split entry.split)

lemma walk_append:
  assumes "walk links fs d cs follow = At q" "look fs q = Some (EDir w)"
  shows "\<exists>l. walk links fs d (cs @ bs) follow = walk l fs q bs follow"
  using assms
proof (induction links fs d cs follow rule: walk.induct)
  case (1 links fs d follow)
  then show ?case by auto
next
  case (2 links fs d c' cs follow)
  consider (dot) "c' = [] \<or> c' = ''.''" | (dotdot) "c' = ''..''" | (name) "\<not> (c' = [] \<or> c' = ''.'')" "c' \<noteq> ''..''" by blast
  then show ?case
  proof cases
    case dot
    with 2 show ?thesis by (auto simp: walk.simps(2) [of _ _ _ c'])
  next
    case dotdot
    with 2 show ?thesis by (auto simp: walk.simps(2) [of _ _ _ "''..''"])
  next
    case name
    show ?thesis
    proof (cases "look fs (d @ [c'])")
      case None
      with 2 name show ?thesis by (auto simp: walk.simps(2) [of _ _ _ c'] split: if_split_asm)
    next
      case (Some en)
      show ?thesis
      proof (cases en)
        case (EDir v)
        with 2 name Some show ?thesis by (auto simp: walk.simps(2) [of _ _ _ c'])
      next
        case (EReg v)
        with 2 name Some show ?thesis by (auto simp: walk.simps(2) [of _ _ _ c'] split: if_split_asm)
      next
        case (ELink t)
        show ?thesis
        proof (cases "cs = [] \<and> \<not> follow")
          case True
          with 2 name Some ELink show ?thesis by (auto simp: walk.simps(2) [of _ _ _ c'])
        next
          case False
          then obtain l where l: "links = Suc l"
            using 2 name Some ELink by (cases links) (auto simp: walk.simps(2) [of _ _ _ c'])
          have w: "walk l fs (if take 1 t = [SLASH] then [] else d) (split_on SLASH t @ cs) follow = At q"
            using 2(5) name Some ELink False l by (auto simp: walk.simps(2) [of _ _ _ c'])
          have "\<exists>l'. walk l fs (if take 1 t = [SLASH] then [] else d) ((split_on SLASH t @ cs) @ bs) follow = walk l' fs q bs follow"
            by (rule 2(4) [OF name Some ELink _ l w 2(6)]) (use False in simp)
          then show ?thesis
            using name Some ELink l False by (auto simp: walk.simps(2) [of _ _ _ c'])
        qed
      qed
    qed
  qed
qed

lemma split_on_child: "SLASH \<notin> set nm \<Longrightarrow> split_on SLASH (path @ SLASH # nm) = split_on SLASH path @ [nm]"
  by (induction path) (auto simp: split_on_no_sep split: list.split)

text \<open>An entry of a directory that a path names is named by the path with the entry's name appended.\<close>

lemma resolve_child:
  assumes "resolve e fs path follow = At d" "look fs d = Some (EDir w)" "real_name nm" "path \<noteq> []"
    and "\<not> follow \<or> (\<nexists>t. look fs (d @ [nm]) = Some (ELink t))"
  shows "resolve e fs (path @ SLASH # nm) follow = At (d @ [nm])"
proof -
  have nm: "SLASH \<notin> set nm" using assms(3) by (simp add: real_name_def)
  have t: "take 1 (path @ SLASH # nm) = take 1 path" using assms(4) by (cases path) auto
  from walk_append [OF assms(1) [unfolded resolve_def] assms(2), of "[nm]"] walk_one [OF assms(3,5)]
  show ?thesis unfolding resolve_def split_on_child [OF nm] t by auto
qed

text \<open>A directory that a path names without following its last component is what it names anyway.\<close>

lemma walk_follow_dir:
  "walk links fs d cs follow = At q \<Longrightarrow> look fs q = Some (EDir w) \<Longrightarrow> walk links fs d cs True = At q"
proof (induction links fs d cs follow rule: walk.induct)
  case (1 links fs d follow)
  then show ?case by simp
next
  case (2 links fs d c' cs follow)
  consider (dot) "c' = [] \<or> c' = ''.''" | (dotdot) "c' = ''..''" | (name) "\<not> (c' = [] \<or> c' = ''.'')" "c' \<noteq> ''..''" by blast
  then show ?case
  proof cases
    case dot
    with 2 show ?thesis by (auto simp: walk.simps(2) [of _ _ _ c'])
  next
    case dotdot
    with 2 show ?thesis by (auto simp: walk.simps(2) [of _ _ _ "''..''"])
  next
    case name
    show ?thesis
    proof (cases "look fs (d @ [c'])")
      case None
      with 2 name show ?thesis by (auto simp: walk.simps(2) [of _ _ _ c'] split: if_split_asm)
    next
      case (Some en)
      show ?thesis
      proof (cases en)
        case (EDir v)
        with 2 name Some show ?thesis by (auto simp: walk.simps(2) [of _ _ _ c'])
      next
        case (EReg v)
        with 2 name Some show ?thesis by (auto simp: walk.simps(2) [of _ _ _ c'] split: if_split_asm)
      next
        case (ELink t)
        show ?thesis
        proof (cases "cs = [] \<and> \<not> follow")
          case True
          with 2 name Some ELink show ?thesis by (auto simp: walk.simps(2) [of _ _ _ c'])
        next
          case False
          then obtain l where l: "links = Suc l"
            using 2 name Some ELink by (cases links) (auto simp: walk.simps(2) [of _ _ _ c'])
          have w: "walk l fs (if take 1 t = [SLASH] then [] else d) (split_on SLASH t @ cs) follow = At q"
            using 2(5) name Some ELink False l by (auto simp: walk.simps(2) [of _ _ _ c'])
          have "walk l fs (if take 1 t = [SLASH] then [] else d) (split_on SLASH t @ cs) True = At q"
            by (rule 2(4) [OF name Some ELink _ l w 2(6)]) (use False in simp)
          then show ?thesis using name Some ELink l by (simp add: walk.simps(2) [of _ _ _ c'])
        qed
      qed
    qed
  qed
qed

lemma resolve_follow_dir:
  "resolve e fs path False = At p \<Longrightarrow> look fs p = Some (EDir w) \<Longrightarrow> resolve e fs path True = At p"
  unfolding resolve_def by (rule walk_follow_dir)

end
