(* ===== verification/HM_Workdir.thy ===== *)
theory HM_Workdir
  imports HM_Files HM_Lines
begin

text \<open>
  The work directory of a project, from \<^verbatim>\<open>src/install.c\<close>: creating it (\<open>mkdir_p\<close> of that file,
  \<open>hm_workdir_ensure\<close>), removing it (\<open>remove_tree\<close>, \<open>hm_workdir_reset\<close>) and writing a project's
  embedded files into it (\<open>write_embedded_file\<close>, \<open>hm_materialize_files\<close>), on the tree of
  \<open>HM_Files\<close>. \<open>remove_tree\<close> recurses on the file system, so it takes the depth it may go as fuel; the
  depth of the tree is enough (\<open>remove_tree_returns\<close>).
\<close>

section \<open>Creating directories\<close>

definition prefixes :: "string \<Rightarrow> string list" where
  "prefixes path = map (\<lambda>i. take i path) (filter (\<lambda>i. i = length path \<or> path ! i = SLASH) [1..<Suc (length path)])"

fun mkdir_each :: "os_env \<Rightarrow> string list \<Rightarrow> files \<Rightarrow> bool \<times> files" where
  "mkdir_each e [] fs = (True, fs)"
| "mkdir_each e (pre # pres) fs =
     (case sys_mkdir e fs pre of
        (MkFail, fs') \<Rightarrow> (False, fs')
      | (_, fs') \<Rightarrow> mkdir_each e pres fs')"

definition make_dirs :: "os_env \<Rightarrow> string \<Rightarrow> files \<Rightarrow> bool \<times> files" where
  "make_dirs e path fs =
     (if length path = 0 \<or> length path \<ge> HM_PATH_MAX * 2 + 2 then (False, fs)
      else mkdir_each e (prefixes path) fs)"

definition hm_workdir_ensure :: "os_env \<Rightarrow> string \<Rightarrow> files \<Rightarrow> bool \<times> files" where
  "hm_workdir_ensure e workdir fs =
     (case make_dirs e workdir fs of
        (False, fs') \<Rightarrow> (False, fs')
      | (True, fs') \<Rightarrow> (case sys_lstat e fs' workdir of StDir w \<Rightarrow> (True, fs') | _ \<Rightarrow> (False, fs')))"

section \<open>Removing a tree\<close>

text \<open>The loop over the entries of an open directory. \<open>None\<close>: the depth bound was reached.\<close>

fun each_entry :: "(string \<Rightarrow> files \<Rightarrow> (bool \<times> files) option) \<Rightarrow> os_env \<Rightarrow> string \<Rightarrow> string list \<Rightarrow> files \<Rightarrow>
    (bool \<times> files) option" where
  "each_entry rm e path [] fs = Some (\<not> os_refuse e SysReaddir path, fs)"
| "each_entry rm e path (nm # nms) fs =
     (if nm = ''.'' \<or> nm = ''..'' then each_entry rm e path nms fs
      else if os_refuse e SysMalloc (path @ SLASH # nm) then Some (False, fs)
      else
        (case rm (path @ SLASH # nm) fs of
           None \<Rightarrow> None
         | Some (False, fs') \<Rightarrow> Some (False, fs')
         | Some (True, fs') \<Rightarrow> each_entry rm e path nms fs'))"

primrec remove_tree :: "nat \<Rightarrow> os_env \<Rightarrow> string \<Rightarrow> files \<Rightarrow> (bool \<times> files) option" where
  "remove_tree 0 e path fs = None"
| "remove_tree (Suc n) e path fs =
     (case sys_lstat e fs path of
        StNoEnt \<Rightarrow> Some (True, fs)
      | StErr \<Rightarrow> Some (False, fs)
      | StOther \<Rightarrow> Some (sys_unlink e fs path)
      | StDir w \<Rightarrow>
          (case (if w then (True, fs) else sys_chmod_rwx e fs path) of
             (False, fs1) \<Rightarrow> Some (False, fs1)
           | (True, fs1) \<Rightarrow>
               (case sys_opendir e fs1 path of
                  None \<Rightarrow> Some (False, fs1)
                | Some names \<Rightarrow>
                    (case each_entry (remove_tree n e) e path names fs1 of
                       None \<Rightarrow> None
                     | Some (False, fs2) \<Rightarrow> Some (False, fs2)
                     | Some (True, fs2) \<Rightarrow>
                         if os_refuse e SysClosedir path then Some (False, fs2)
                         else Some (sys_rmdir e fs2 path)))))"

text \<open>The depth of a tree bounds the recursion.\<close>

definition depth :: "files \<Rightarrow> nat" where
  "depth fs = Max (insert 0 (set (map (length \<circ> fst) fs)))"

definition hm_workdir_reset :: "os_env \<Rightarrow> string \<Rightarrow> files \<Rightarrow> (bool \<times> files) option" where
  "hm_workdir_reset e workdir fs = remove_tree (depth fs + 2) e workdir fs"

section \<open>Embedded files\<close>

text \<open>Everything before the last slash (not looking at the first character).\<close>

definition parent_of :: "string \<Rightarrow> string" where
  "parent_of target =
     (case filter (\<lambda>i. target ! i = SLASH) (rev [1..<length target]) of
        [] \<Rightarrow> target
      | i # _ \<Rightarrow> take i target)"

fun file_text :: "string list \<Rightarrow> string" where
  "file_text [] = []"
| "file_text (l # ls) = l @ LF # file_text ls"

definition embedded_text :: "hm_embedded_file \<Rightarrow> string" where
  "embedded_text f = file_text (collect (hm_file_next_line f) (length (ef_content f)) 0)"

definition write_embedded_file :: "os_env \<Rightarrow> nat \<Rightarrow> hm_embedded_file \<Rightarrow> string \<Rightarrow> files \<Rightarrow> bool \<times> files" where
  "write_embedded_file e pid f workdir fs =
     (let target = workdir @ SLASH # ef_path f; temp = target @ ''.tmp.'' @ dec pid
      in if length target \<ge> HM_PATH_MAX * 2 + 2 then (False, fs)
         else
           (case make_dirs e (parent_of target) fs of
              (False, fs1) \<Rightarrow> (False, fs1)
            | (True, fs1) \<Rightarrow>
                if length temp \<ge> HM_PATH_MAX * 2 + 32 then (False, fs1)
                else
                  (case sys_create e fs1 temp of
                     None \<Rightarrow> (False, fs1)
                   | Some t \<Rightarrow>
                       let text = embedded_text f; fs2 = put t (EReg text) fs1 in
                       if os_refuse e SysFdopen temp then (False, snd (sys_unlink e (put t (EReg []) fs1) temp))
                       else if os_refuse e SysWrite temp \<or> os_refuse e SysClose temp
                       then (False, snd (sys_unlink e (put t (EReg (take (os_written e) text)) fs1) temp))
                       else
                         (case sys_rename e fs2 temp target of
                            (True, fs3) \<Rightarrow> (True, fs3)
                          | (False, fs3) \<Rightarrow> (False, snd (sys_unlink e fs3 temp))))))"

fun write_all_files :: "os_env \<Rightarrow> nat \<Rightarrow> hm_embedded_file list \<Rightarrow> string \<Rightarrow> files \<Rightarrow> bool \<times> files" where
  "write_all_files e pid [] workdir fs = (True, fs)"
| "write_all_files e pid (f # ff) workdir fs =
     (case write_embedded_file e pid f workdir fs of
        (False, fs') \<Rightarrow> (False, fs')
      | (True, fs') \<Rightarrow> write_all_files e pid ff workdir fs')"

definition hm_materialize_files :: "os_env \<Rightarrow> nat \<Rightarrow> hm_project \<Rightarrow> string \<Rightarrow> files \<Rightarrow> bool \<times> files" where
  "hm_materialize_files e pid p workdir fs =
     (case hm_workdir_ensure e workdir fs of
        (False, fs') \<Rightarrow> (False, fs')
      | (True, fs') \<Rightarrow> write_all_files e pid (p_files p) workdir fs')"

section \<open>What removing a tree does\<close>

text \<open>The changes a removal at \<open>p\<close> may make: nothing outside \<open>p\<close> changes and nothing appears.\<close>

definition pruned :: "path \<Rightarrow> files \<Rightarrow> files \<Rightarrow> bool" where
  "pruned p fs fs' \<longleftrightarrow>
     (\<forall>q. \<not> under p q \<longrightarrow> look fs' q = look fs q) \<and> (\<forall>q. look fs' q \<noteq> None \<longrightarrow> look fs q \<noteq> None)"

definition gone :: "path \<Rightarrow> files \<Rightarrow> bool" where
  "gone p fs \<longleftrightarrow> (\<forall>q. under p q \<longrightarrow> look fs q = None)"

text \<open>A path that names \<open>p\<close> however the entries below \<open>p\<close> change.\<close>

definition anchored :: "os_env \<Rightarrow> string \<Rightarrow> path \<Rightarrow> files \<Rightarrow> bool" where
  "anchored e path p fs \<longleftrightarrow>
     path \<noteq> [] \<and> p \<noteq> [] \<and>
     (\<forall>fs'. (\<forall>q. \<not> under p q \<longrightarrow> look fs' q = look fs q) \<longrightarrow> resolve e fs' path False = At p)"

definition named :: "files \<Rightarrow> bool" where
  "named fs \<longleftrightarrow> (\<forall>q. look fs q \<noteq> None \<longrightarrow> list_all real_name q)"

lemma pruned_refl [simp]: "pruned p fs fs"
  by (simp add: pruned_def)

lemma pruned_trans: "pruned p fs fs' \<Longrightarrow> pruned p fs' fs'' \<Longrightarrow> pruned p fs fs''"
  by (auto simp: pruned_def)

lemma pruned_mono: "pruned (p @ q) fs fs' \<Longrightarrow> pruned p fs fs'"
  unfolding pruned_def using under_trans [of p "p @ q"] by (meson under_append)

lemma pruned_named: "pruned p fs fs' \<Longrightarrow> named fs \<Longrightarrow> named fs'"
  by (simp add: pruned_def named_def)

lemma anchored_pruned: "anchored e path p fs \<Longrightarrow> pruned p fs fs' \<Longrightarrow> anchored e path p fs'"
  unfolding anchored_def pruned_def by simp

lemma anchored_resolve: "anchored e path p fs \<Longrightarrow> resolve e fs path False = At p"
  by (simp add: anchored_def)

lemma not_under_longer: "\<not> under (p @ [x]) p"
  by (simp add: under_def)

lemma anchored_child:
  assumes "anchored e path p fs" "look fs p = Some (EDir w)" "real_name nm"
  shows "anchored e (path @ SLASH # nm) (p @ [nm]) fs"
  unfolding anchored_def
proof (intro conjI allI impI)
  fix fs'
  assume same: "\<forall>q. \<not> under (p @ [nm]) q \<longrightarrow> look fs' q = look fs q"
  then have "\<forall>q. \<not> under p q \<longrightarrow> look fs' q = look fs q" using under_trans [of p "p @ [nm]"] by (meson under_append)
  with assms(1) have "resolve e fs' path False = At p" by (simp add: anchored_def)
  moreover have "look fs' p = Some (EDir w)" using same assms(2) not_under_longer by simp
  ultimately show "resolve e fs' (path @ SLASH # nm) False = At (p @ [nm])"
    using assms(1,3) by (intro resolve_child) (simp_all add: anchored_def)
qed (use assms(1) in \<open>simp_all add: anchored_def\<close>)

lemma unlink_pruned:
  assumes "sys_unlink e fs path = (ok, fs')" "resolve e fs path False = At p" "p \<noteq> []"
  shows "pruned p fs fs' \<and> (ok \<longrightarrow> look fs' p = None)"
  using assms by (auto simp: sys_unlink_def pruned_def split: if_split_asm option.split_asm entry.split_asm)

lemma rmdir_pruned:
  assumes "sys_rmdir e fs path = (ok, fs')" "resolve e fs path False = At p"
  shows "pruned p fs fs' \<and> (ok \<longrightarrow> gone p fs')"
proof -
  have only: "look fs q = None" if q: "empty_dir fs p" "under p q" "q \<noteq> p" "q \<noteq> []" for q
  proof (rule ccontr)
    assume "look fs q \<noteq> None"
    then obtain r where "(q, r) \<in> set fs" using q(4) by (auto simp: look_def dest: map_of_SomeD)
    with q show False by (auto simp: empty_dir_def list_all_iff)
  qed
  have "look (drop_entry p fs) q = None" if "empty_dir fs p" "p \<noteq> []" "under p q" for q
    using only [OF that(1,3)] that(2,3) by (auto simp: under_def)
  then show ?thesis
    using assms by (auto simp: sys_rmdir_def pruned_def gone_def split: if_split_asm option.split_asm entry.split_asm)
qed

lemma chmod_pruned:
  assumes "sys_chmod_rwx e fs path = (ok, fs')" "resolve e fs path True = At p" "look fs p = Some (EDir w)" "p \<noteq> []"
  shows "pruned p fs fs' \<and> (\<exists>w. look fs' p = Some (EDir w))"
  using assms by (auto simp: sys_chmod_rwx_def pruned_def split: if_split_asm)

text \<open>The loop over the entries, for any removal of an entry that only prunes below it.\<close>

lemma each_entry_pruned:
  assumes "\<And>nm fs fs' ok. rm (path @ SLASH # nm) fs = Some (ok, fs') \<Longrightarrow>
      anchored e (path @ SLASH # nm) (p @ [nm]) fs \<Longrightarrow> named fs \<Longrightarrow> pruned (p @ [nm]) fs fs'"
    and "each_entry rm e path nms fs = Some (ok, fs')"
    and "anchored e path p fs" "look fs p = Some (EDir w)" "named fs" "list_all real_name nms"
  shows "pruned p fs fs' \<and> look fs' p = Some (EDir w)"
  using assms(2-)
proof (induction nms arbitrary: fs)
  case Nil
  then show ?case by simp
next
  case (Cons nm nms)
  have nm: "real_name nm" "\<not> (nm = ''.'' \<or> nm = ''..'')" using Cons.prems(5) by (auto simp: real_name_def)
  show ?case
  proof (cases "os_refuse e SysMalloc (path @ SLASH # nm)")
    case True
    with Cons.prems nm show ?thesis by simp
  next
    case False
    with Cons.prems(1) nm obtain ok1 fs1 where rm: "rm (path @ SLASH # nm) fs = Some (ok1, fs1)"
      by (auto split: option.split_asm)
    have p1: "pruned (p @ [nm]) fs fs1"
      by (rule assms(1) [OF rm anchored_child [OF Cons.prems(2,3) nm(1)] Cons.prems(4)])
    have d1: "look fs1 p = Some (EDir w)" using p1 not_under_longer Cons.prems(3) by (simp add: pruned_def)
    note p2 = pruned_mono [OF p1]
    show ?thesis
    proof (cases ok1)
      case True
      then have "each_entry rm e path nms fs1 = Some (ok, fs')" using Cons.prems(1) nm rm False by simp
      from Cons.IH [OF this anchored_pruned [OF Cons.prems(2) p2] d1 pruned_named [OF p2 Cons.prems(4)]] Cons.prems(5)
      show ?thesis using pruned_trans [OF p2] by simp
    next
      case False
      then have "fs' = fs1" using Cons.prems(1) nm rm \<open>\<not> os_refuse e SysMalloc _\<close> by simp
      with p2 d1 show ?thesis by simp
    qed
  qed
qed

lemma opendir_names:
  assumes "sys_opendir e fs path = Some names" "resolve e fs path True = At p" "look fs p = Some (EDir w)" "named fs"
  shows "list_all real_name names"
proof -
  have "names = names_in fs p" using assms(1-3) by (auto simp: sys_opendir_def split: if_split_asm)
  moreover have "real_name nm" if "nm \<in> set (names_in fs p)" for nm
    using that assms(4) look_names [of fs p nm] unfolding named_def by fastforce
  ultimately show ?thesis by (simp add: list_all_iff)
qed

lemma remove_tree_prunes:
  "remove_tree n e path fs = Some (ok, fs') \<Longrightarrow> anchored e path p fs \<Longrightarrow> named fs \<Longrightarrow>
   pruned p fs fs' \<and> (ok \<longrightarrow> look fs' p = None \<and> (look fs p = Some (EDir w) \<longrightarrow> gone p fs'))"
proof (induction n arbitrary: path fs fs' ok p w)
  case 0
  then show ?case by simp
next
  case (Suc n)
  note res = anchored_resolve [OF Suc.prems(2)]
  have pne: "p \<noteq> []" using Suc.prems(2) by (simp add: anchored_def)
  show ?case
  proof (cases "sys_lstat e fs path")
    case StNoEnt
    with Suc.prems(1) res show ?thesis by (auto simp: sys_lstat_def split: if_split_asm option.split_asm entry.split_asm)
  next
    case StErr
    with Suc.prems(1) show ?thesis by simp
  next
    case StOther
    then have "look fs p \<noteq> Some (EDir w)" for w using res by (auto simp: sys_lstat_def split: if_split_asm)
    with StOther Suc.prems(1) unlink_pruned [OF _ res pne, of ok fs'] show ?thesis by auto
  next
    case (StDir v)
    then have dir: "look fs p = Some (EDir v)" using res
      by (auto simp: sys_lstat_def split: if_split_asm option.split_asm entry.split_asm)
    obtain ok1 fs1 where c: "(if v then (True, fs) else sys_chmod_rwx e fs path) = (ok1, fs1)" by fastforce
    have c1: "pruned p fs fs1 \<and> (\<exists>w. look fs1 p = Some (EDir w))"
      using c dir chmod_pruned [OF _ resolve_follow_dir [OF res dir] dir pne] by (auto split: if_split_asm)
    then obtain w1 where dir1: "look fs1 p = Some (EDir w1)" by blast
    have a1: "anchored e path p fs1" "named fs1"
      using anchored_pruned [OF Suc.prems(2)] pruned_named [OF _ Suc.prems(3)] c1 by blast+
    show ?thesis
    proof (cases "ok1 \<and> sys_opendir e fs1 path \<noteq> None")
      case False
      then have "fs' = fs1 \<and> \<not> ok" using Suc.prems(1) StDir c by (cases ok1) (auto split: option.split_asm)
      with c1 show ?thesis by simp
    next
      case True
      then obtain names where names: "sys_opendir e fs1 path = Some names" by blast
      have real: "list_all real_name names"
        by (rule opendir_names [OF names resolve_follow_dir [OF anchored_resolve [OF a1(1)] dir1] dir1 a1(2)])
      obtain ok2 fs2 where loop: "each_entry (remove_tree n e) e path names fs1 = Some (ok2, fs2)"
        using Suc.prems(1) StDir c True names by (auto split: option.split_asm)
      have l2: "pruned p fs1 fs2 \<and> look fs2 p = Some (EDir w1)"
        by (rule each_entry_pruned [OF _ loop a1(1) dir1 a1(2) real]) (use Suc.IH in blast)
      then have p2: "pruned p fs fs2" using c1 pruned_trans by blast
      show ?thesis
      proof (cases "ok2 \<and> \<not> os_refuse e SysClosedir path")
        case False
        then have "fs' = fs2 \<and> \<not> ok" using Suc.prems(1) StDir c True names loop by (cases ok2) auto
        with p2 show ?thesis by simp
      next
        case t2: True
        then have "sys_rmdir e fs2 path = (ok, fs')" using Suc.prems(1) StDir c True names loop by simp
        from rmdir_pruned [OF this anchored_resolve [OF anchored_pruned [OF a1(1)]]] l2
        have "pruned p fs2 fs' \<and> (ok \<longrightarrow> gone p fs')" by blast
        with pruned_trans [OF p2] show ?thesis by (auto simp: gone_def)
      qed
    qed
  qed
qed

section \<open>Removal ends, and succeeds when nothing is refused\<close>

definition depth_below :: "files \<Rightarrow> path \<Rightarrow> nat \<Rightarrow> bool" where
  "depth_below fs p n \<longleftrightarrow> (\<forall>q. under p q \<longrightarrow> look fs q \<noteq> None \<longrightarrow> length q \<le> length p + n)"

lemma depth_below_pruned: "depth_below fs p n \<Longrightarrow> pruned r fs fs' \<Longrightarrow> depth_below fs' p n"
  by (simp add: depth_below_def pruned_def)

lemma depth_below_child: "depth_below fs p (Suc n) \<Longrightarrow> depth_below fs (p @ [nm]) n"
  unfolding depth_below_def using under_trans [of p "p @ [nm]"] by fastforce

lemma each_entry_returns:
  assumes "\<And>nm fs. nm \<in> set nms \<Longrightarrow> anchored e (path @ SLASH # nm) (p @ [nm]) fs \<Longrightarrow> named fs \<Longrightarrow> depth_below fs (p @ [nm]) n \<Longrightarrow>
      \<exists>ok fs'. rm (path @ SLASH # nm) fs = Some (ok, fs') \<and> pruned (p @ [nm]) fs fs'"
    and "anchored e path p fs" "look fs p = Some (EDir w)" "named fs" "list_all real_name nms"
    and "\<forall>nm\<in>set nms. depth_below fs (p @ [nm]) n"
  shows "each_entry rm e path nms fs \<noteq> None"
  using assms
proof (induction nms arbitrary: fs)
  case Nil
  then show ?case by simp
next
  case (Cons nm nms)
  have nm: "real_name nm" "\<not> (nm = ''.'' \<or> nm = ''..'')" using Cons.prems(5) by (auto simp: real_name_def)
  have "anchored e (path @ SLASH # nm) (p @ [nm]) fs" by (rule anchored_child [OF Cons.prems(2,3) nm(1)])
  then obtain ok1 fs1 where rm: "rm (path @ SLASH # nm) fs = Some (ok1, fs1)" and p1: "pruned (p @ [nm]) fs fs1"
    using Cons.prems(1) [of nm fs] Cons.prems(4,6) by auto
  note p2 = pruned_mono [OF p1]
  have "each_entry rm e path nms fs1 \<noteq> None"
  proof (rule Cons.IH)
    show "look fs1 p = Some (EDir w)" using p1 not_under_longer Cons.prems(3) by (simp add: pruned_def)
    show "anchored e path p fs1" by (rule anchored_pruned [OF Cons.prems(2) p2])
    show "named fs1" by (rule pruned_named [OF p2 Cons.prems(4)])
    show "\<forall>nm\<in>set nms. depth_below fs1 (p @ [nm]) n" using Cons.prems(6) depth_below_pruned [OF _ p2] by simp
  qed (use Cons.prems in auto)
  then show ?case using nm rm by (cases ok1) (simp_all del: not_None_eq)
qed

lemma remove_tree_returns:
  assumes "anchored e path p fs" "named fs" "depth_below fs p n"
  shows "\<exists>ok fs'. remove_tree (Suc n) e path fs = Some (ok, fs')"
  using assms
proof (induction n arbitrary: path fs p)
  case 0
  note res = anchored_resolve [OF 0(1)]
  have pne: "p \<noteq> []" using 0(1) by (simp add: anchored_def)
  have none: "names = []" if n: "sys_opendir e fs1 path = Some names" "pruned p fs fs1" "look fs1 p = Some (EDir v)" for names fs1 v
  proof (rule ccontr)
    assume "names \<noteq> []"
    have "resolve e fs1 path True = At p"
      by (rule resolve_follow_dir [OF anchored_resolve [OF anchored_pruned [OF 0(1) n(2)]] n(3)])
    then have "names = names_in fs1 p" using n(1,3) by (auto simp: sys_opendir_def split: if_split_asm)
    with \<open>names \<noteq> []\<close> obtain nm where "nm \<in> set (names_in fs1 p)" by (metis list.set_intros(1) neq_Nil_conv)
    then have "look fs1 (p @ [nm]) \<noteq> None" using look_names by metis
    with depth_below_pruned [OF 0(3) n(2)] have "length (p @ [nm]) \<le> length p + 0"
      unfolding depth_below_def by (meson under_append)
    then show False by simp
  qed
  show ?case
  proof (cases "sys_lstat e fs path")
    case (StDir v)
    then have dir: "look fs p = Some (EDir v)" using res
      by (auto simp: sys_lstat_def split: if_split_asm option.split_asm entry.split_asm)
    obtain ok1 fs1 where c: "(if v then (True, fs) else sys_chmod_rwx e fs path) = (ok1, fs1)" by fastforce
    have c1: "pruned p fs fs1 \<and> (\<exists>w. look fs1 p = Some (EDir w))"
      using c dir chmod_pruned [OF _ resolve_follow_dir [OF res dir] dir pne] by (auto split: if_split_asm)
    show ?thesis
    proof (cases "sys_opendir e fs1 path")
      case None
      then show ?thesis using StDir c by (cases ok1) auto
    next
      case (Some names)
      with none c1 have "names = []" by blast
      then show ?thesis using StDir c Some
        by (cases ok1; cases "os_refuse e SysReaddir path"; cases "sys_rmdir e fs1 path") auto
    qed
  qed (auto simp: sys_unlink_def)
next
  case (Suc n)
  note res = anchored_resolve [OF Suc.prems(1)]
  have pne: "p \<noteq> []" using Suc.prems(1) by (simp add: anchored_def)
  show ?case
  proof (cases "sys_lstat e fs path")
    case (StDir v)
    then have dir: "look fs p = Some (EDir v)" using res
      by (auto simp: sys_lstat_def split: if_split_asm option.split_asm entry.split_asm)
    obtain ok1 fs1 where c: "(if v then (True, fs) else sys_chmod_rwx e fs path) = (ok1, fs1)" by fastforce
    have c1: "pruned p fs fs1 \<and> (\<exists>w. look fs1 p = Some (EDir w))"
      using c dir chmod_pruned [OF _ resolve_follow_dir [OF res dir] dir pne] by (auto split: if_split_asm)
    then obtain w1 where p1: "pruned p fs fs1" and dir1: "look fs1 p = Some (EDir w1)" by blast
    have a1: "anchored e path p fs1" "named fs1" "depth_below fs1 p (Suc n)"
      using anchored_pruned [OF Suc.prems(1) p1] pruned_named [OF p1 Suc.prems(2)] depth_below_pruned [OF Suc.prems(3) p1] .
    show ?thesis
    proof (cases "ok1 \<and> sys_opendir e fs1 path \<noteq> None")
      case False
      then show ?thesis using StDir c by (cases ok1) auto
    next
      case True
      then obtain names where names: "sys_opendir e fs1 path = Some names" by blast
      have real: "list_all real_name names"
        by (rule opendir_names [OF names resolve_follow_dir [OF anchored_resolve [OF a1(1)] dir1] dir1 a1(2)])
      have "each_entry (remove_tree (Suc n) e) e path names fs1 \<noteq> None"
      proof (rule each_entry_returns [OF _ a1(1) dir1 a1(2) real])
        fix nm fs2
        assume x: "anchored e (path @ SLASH # nm) (p @ [nm]) fs2" "named fs2" "depth_below fs2 (p @ [nm]) n"
        from Suc.IH [OF x] obtain ok fs' where "remove_tree (Suc n) e (path @ SLASH # nm) fs2 = Some (ok, fs')" by blast
        with remove_tree_prunes [OF this x(1,2)] show "\<exists>ok fs'. remove_tree (Suc n) e (path @ SLASH # nm) fs2 = Some (ok, fs') \<and> pruned (p @ [nm]) fs2 fs'"
          by blast
      qed (use depth_below_child [OF a1(3)] in blast)
      then obtain ok2 fs2 where loop: "each_entry (remove_tree (Suc n) e) e path names fs1 = Some (ok2, fs2)" by auto
      obtain ok3 fs3 where "sys_rmdir e fs2 path = (ok3, fs3)" by fastforce
      then show ?thesis using StDir c True names loop
        by (cases ok2; cases "os_refuse e SysClosedir path") (simp_all only: remove_tree.simps stat_result.simps, auto)
    qed
  qed (auto simp: sys_unlink_def)
qed

lemma depth_bound: "depth_below fs p (depth fs + 1)"
proof -
  have "length q \<le> depth fs" if "look fs q \<noteq> None" for q
  proof (cases "q = []")
    case False
    with that obtain r where "(q, r) \<in> set fs" by (auto simp: look_def dest: map_of_SomeD)
    then have "length q \<in> set (map (length \<circ> fst) fs)" by force
    then show ?thesis unfolding depth_def by (intro Max_ge) auto
  qed simp
  then show ?thesis by (fastforce simp: depth_below_def)
qed

definition closed :: "files \<Rightarrow> bool" where
  "closed fs \<longleftrightarrow> (\<forall>q nm. look fs (q @ [nm]) \<noteq> None \<longrightarrow> (\<exists>w. look fs q = Some (EDir w)))"

definition unrefused :: "os_env \<Rightarrow> bool" where
  "unrefused e \<longleftrightarrow> os_refuse e = (\<lambda>_ _. False)"

lemma closed_below:
  "closed fs \<Longrightarrow> look fs (q @ r) \<noteq> None \<Longrightarrow> r \<noteq> [] \<Longrightarrow> \<exists>w. look fs q = Some (EDir w)"
proof (induction r rule: rev_induct)
  case (snoc x xs)
  from snoc.prems(1,2) have "\<exists>w. look fs (q @ xs) = Some (EDir w)" by (metis append.assoc closed_def)
  with snoc show ?case by (cases xs) auto
qed simp

lemma gone_leaf: "closed fs \<Longrightarrow> (\<And>w. look fs p \<noteq> Some (EDir w)) \<Longrightarrow> p \<noteq> [] \<Longrightarrow> gone p (drop_entry p fs)"
  by (auto simp: gone_def elim!: underE dest: closed_below)

lemma gone_missing: "closed fs \<Longrightarrow> look fs p = None \<Longrightarrow> gone p fs"
  unfolding gone_def by (metis append_self_conv closed_below option.distinct(1) underE)

lemma closed_gone:
  assumes "closed fs" "pruned p fs fs'" "gone p fs'"
  shows "closed fs'"
  unfolding closed_def
proof (intro allI impI)
  fix q nm
  assume l: "look fs' (q @ [nm]) \<noteq> None"
  then have nu: "\<not> under p (q @ [nm])" using assms(3) by (auto simp: gone_def)
  then have "\<not> under p q" using under_trans [of p q "q @ [nm]"] by auto
  then have "look fs' q = look fs q" "look fs' (q @ [nm]) = look fs (q @ [nm])"
    using assms(2) nu by (auto simp: pruned_def)
  with assms(1) l show "\<exists>w. look fs' q = Some (EDir w)" by (auto simp: closed_def)
qed

lemma closed_dir_update: "closed fs \<Longrightarrow> look fs p = Some (EDir v) \<Longrightarrow> closed (put p (EDir w) fs)"
  by (auto simp: closed_def)

lemma gone_pruned: "gone p fs \<Longrightarrow> pruned r fs fs' \<Longrightarrow> gone p fs'"
  by (auto simp: gone_def pruned_def)

lemma each_entry_removes:
  assumes "\<And>nm fs. nm \<in> set nms \<Longrightarrow> anchored e (path @ SLASH # nm) (p @ [nm]) fs \<Longrightarrow> named fs \<Longrightarrow> depth_below fs (p @ [nm]) n \<Longrightarrow>
      closed fs \<Longrightarrow> \<exists>fs'. rm (path @ SLASH # nm) fs = Some (True, fs') \<and> pruned (p @ [nm]) fs fs' \<and> gone (p @ [nm]) fs'"
    and "unrefused e" "anchored e path p fs" "look fs p = Some (EDir w)" "named fs" "list_all real_name nms"
    and "\<forall>nm\<in>set nms. depth_below fs (p @ [nm]) n" "closed fs"
  shows "\<exists>fs'. each_entry rm e path nms fs = Some (True, fs') \<and> pruned p fs fs' \<and>
      look fs' p = Some (EDir w) \<and> (\<forall>nm\<in>set nms. gone (p @ [nm]) fs')"
  using assms(1,3-)
proof (induction nms arbitrary: fs)
  case Nil
  then show ?case using assms(2) by (simp add: unrefused_def)
next
  case (Cons nm nms)
  have nm: "real_name nm" "\<not> (nm = ''.'' \<or> nm = ''..'')" using Cons.prems(5) by (auto simp: real_name_def)
  have "anchored e (path @ SLASH # nm) (p @ [nm]) fs" by (rule anchored_child [OF Cons.prems(2,3) nm(1)])
  then obtain fs1 where rm: "rm (path @ SLASH # nm) fs = Some (True, fs1)" and p1: "pruned (p @ [nm]) fs fs1"
    and g1: "gone (p @ [nm]) fs1"
    using Cons.prems(1) [of nm fs] Cons.prems(4,6,7) by auto
  note p2 = pruned_mono [OF p1]
  have "\<exists>fs'. each_entry rm e path nms fs1 = Some (True, fs') \<and> pruned p fs1 fs' \<and>
      look fs' p = Some (EDir w) \<and> (\<forall>nm\<in>set nms. gone (p @ [nm]) fs')"
  proof (rule Cons.IH)
    show "look fs1 p = Some (EDir w)" using p1 not_under_longer Cons.prems(3) by (simp add: pruned_def)
    show "anchored e path p fs1" by (rule anchored_pruned [OF Cons.prems(2) p2])
    show "named fs1" by (rule pruned_named [OF p2 Cons.prems(4)])
    show "\<forall>nm\<in>set nms. depth_below fs1 (p @ [nm]) n" using Cons.prems(6) depth_below_pruned [OF _ p2] by simp
    show "closed fs1" by (rule closed_gone [OF Cons.prems(7) p1 g1])
  qed (use Cons.prems in auto)
  then obtain fs' where "each_entry rm e path nms fs1 = Some (True, fs')" "pruned p fs1 fs'" "look fs' p = Some (EDir w)"
      "\<forall>nm\<in>set nms. gone (p @ [nm]) fs'"
    by blast
  then show ?case using nm rm assms(2) gone_pruned [OF g1] pruned_trans [OF p2]
    by (auto simp: unrefused_def)
qed

lemma all_children_gone:
  assumes "closed fs" "\<forall>nm\<in>set (names_in fs p). gone (p @ [nm]) fs'" "pruned p fs fs'" "p \<noteq> []"
  shows "\<forall>q. under p q \<longrightarrow> q \<noteq> p \<longrightarrow> look fs' q = None"
proof (intro allI impI)
  fix q
  assume q: "under p q" "q \<noteq> p"
  then obtain nm r where r: "q = (p @ [nm]) @ r" by (metis append.assoc append_Cons append_Nil append_Nil2 list.exhaust underE)
  show "look fs' q = None"
  proof (rule ccontr)
    assume l: "look fs' q \<noteq> None"
    then have "look fs q \<noteq> None" using assms(3) by (simp add: pruned_def)
    then have "look fs (p @ [nm]) \<noteq> None" using closed_below [OF assms(1), of "p @ [nm]" r] r by (cases r) auto
    then have "gone (p @ [nm]) fs'" using assms(2) look_names by blast
    then have "look fs' ((p @ [nm]) @ r) = None" unfolding gone_def by (metis under_append)
    with l r show False by simp
  qed
qed

lemma remove_step:
  assumes "anchored e path p fs" "named fs" "closed fs" "unrefused e"
    and loop: "\<And>fs1 w. anchored e path p fs1 \<Longrightarrow> named fs1 \<Longrightarrow> closed fs1 \<Longrightarrow> look fs1 p = Some (EDir w) \<Longrightarrow> pruned p fs fs1 \<Longrightarrow>
      \<exists>fs2. each_entry (remove_tree n e) e path (names_in fs1 p) fs1 = Some (True, fs2) \<and> pruned p fs1 fs2 \<and> look fs2 p = Some (EDir w) \<and>
        (\<forall>nm\<in>set (names_in fs1 p). gone (p @ [nm]) fs2)"
  shows "\<exists>fs'. remove_tree (Suc n) e path fs = Some (True, fs') \<and> pruned p fs fs' \<and> gone p fs'"
proof -
  have nr: "\<And>c s. \<not> os_refuse e c s" using assms(4) by (simp add: unrefused_def)
  note res = anchored_resolve [OF assms(1)]
  have pne: "p \<noteq> []" using assms(1) by (simp add: anchored_def)
  show ?thesis
  proof (cases "look fs p")
    case None
    with res nr gone_missing [OF assms(3)] show ?thesis by (auto simp: sys_lstat_def)
  next
    case (Some en)
    show ?thesis
    proof (cases "\<exists>w. en = EDir w")
      case False
      then have "sys_lstat e fs path = StOther" "sys_unlink e fs path = (True, drop_entry p fs)"
        using Some res nr by (auto simp: sys_lstat_def sys_unlink_def split: entry.split)
      moreover have "pruned p fs (drop_entry p fs)" using pne by (auto simp: pruned_def)
      moreover have "gone p (drop_entry p fs)" using gone_leaf [OF assms(3)] Some False pne by auto
      ultimately show ?thesis by simp
    next
      case True
      then obtain v where dir: "look fs p = Some (EDir v)" using Some by blast
      define fs1 where "fs1 = (if v then fs else put p (EDir True) fs)"
      have st: "sys_lstat e fs path = StDir v" using dir res nr by (simp add: sys_lstat_def)
      have c: "(if v then (True, fs) else sys_chmod_rwx e fs path) = (True, fs1)"
        using dir nr resolve_follow_dir [OF res dir] by (simp add: fs1_def sys_chmod_rwx_def)
      have d1: "look fs1 p = Some (EDir True)" using dir pne by (cases v) (auto simp: fs1_def)
      have p1: "pruned p fs fs1" using dir pne by (auto simp: fs1_def pruned_def)
      have cl1: "closed fs1" using closed_dir_update [OF assms(3) dir] assms(3) by (simp add: fs1_def)
      note a1 = anchored_pruned [OF assms(1) p1] and n1 = pruned_named [OF p1 assms(2)]
      have op: "sys_opendir e fs1 path = Some (names_in fs1 p)"
        using nr d1 resolve_follow_dir [OF anchored_resolve [OF a1] d1] by (simp add: sys_opendir_def)
      from loop [OF a1 n1 cl1 d1 p1] obtain fs2 where l: "each_entry (remove_tree n e) e path (names_in fs1 p) fs1 = Some (True, fs2)"
        and p2: "pruned p fs1 fs2" and d2: "look fs2 p = Some (EDir True)" and g2: "\<forall>nm\<in>set (names_in fs1 p). gone (p @ [nm]) fs2" by blast
      have below: "\<forall>q. under p q \<longrightarrow> q \<noteq> p \<longrightarrow> look fs2 q = None" by (rule all_children_gone [OF cl1 g2 p2 pne])
      have "empty_dir fs2 p"
        unfolding empty_dir_def list_all_iff
      proof (clarify)
        fix q en
        assume q: "(q, en) \<in> set fs2" "under p q"
        have ne: "look fs2 q \<noteq> None" using weak_map_of_SomeI [OF q(1)] by (simp add: look_def)
        show "q = p" by (rule ccontr) (use below [rule_format, OF q(2)] ne in simp)
      qed
      then have "sys_rmdir e fs2 path = (True, drop_entry p fs2)"
        using d2 pne nr anchored_resolve [OF anchored_pruned [OF a1 p2]] by (simp add: sys_rmdir_def)
      moreover have "pruned p fs (drop_entry p fs2)"
        using pruned_trans [OF p1 p2] by (auto simp: pruned_def under_def)
      moreover have "gone p (drop_entry p fs2)"
        using below pne by (auto simp: gone_def under_def)
      ultimately show ?thesis using st c op l nr by simp
    qed
  qed
qed

lemma no_names: "depth_below fs p 0 \<Longrightarrow> names_in fs p = []"
proof (rule ccontr)
  assume d: "depth_below fs p 0" and "names_in fs p \<noteq> []"
  then obtain nm where "nm \<in> set (names_in fs p)" by (metis list.set_intros(1) neq_Nil_conv)
  then have "look fs (p @ [nm]) \<noteq> None" using look_names by metis
  with d have "length (p @ [nm]) \<le> length p + 0" unfolding depth_below_def by (meson under_append)
  then show False by simp
qed

lemma remove_tree_removes:
  assumes "anchored e path p fs" "named fs" "depth_below fs p n" "closed fs" "unrefused e"
  shows "\<exists>fs'. remove_tree (Suc n) e path fs = Some (True, fs') \<and> pruned p fs fs' \<and> gone p fs'"
  using assms
proof (induction n arbitrary: path fs p)
  case 0
  show ?case
  proof (rule remove_step [OF 0(1,2,4,5)])
    fix fs1 w
    assume "pruned p fs fs1" "look fs1 p = Some (EDir w)"
    then show "\<exists>fs2. each_entry (remove_tree 0 e) e path (names_in fs1 p) fs1 = Some (True, fs2) \<and> pruned p fs1 fs2 \<and>
        look fs2 p = Some (EDir w) \<and> (\<forall>nm\<in>set (names_in fs1 p). gone (p @ [nm]) fs2)"
      using no_names [OF depth_below_pruned [OF 0(3)]] 0(5) by (simp add: unrefused_def)
  qed
next
  case (Suc n)
  show ?case
  proof (rule remove_step [OF Suc.prems(1,2,4,5)])
    fix fs1 w
    assume x: "anchored e path p fs1" "named fs1" "closed fs1" "look fs1 p = Some (EDir w)" "pruned p fs fs1"
    have d: "depth_below fs1 p (Suc n)" by (rule depth_below_pruned [OF Suc.prems(3) x(5)])
    have "real_name nm" if "nm \<in> set (names_in fs1 p)" for nm
      using that x(2) look_names [of fs1 p nm] unfolding named_def by fastforce
    then have real: "list_all real_name (names_in fs1 p)" by (simp add: list_all_iff)
    show "\<exists>fs2. each_entry (remove_tree (Suc n) e) e path (names_in fs1 p) fs1 = Some (True, fs2) \<and> pruned p fs1 fs2 \<and>
        look fs2 p = Some (EDir w) \<and> (\<forall>nm\<in>set (names_in fs1 p). gone (p @ [nm]) fs2)"
      by (rule each_entry_removes [OF _ Suc.prems(5) x(1,4,2) real _ x(3)])
        (use Suc.IH Suc.prems(5) depth_below_child [OF d] in blast)+
  qed
qed

section \<open>Plain paths\<close>

definition path_string :: "path \<Rightarrow> string" where
  "path_string p = concat (map (\<lambda>c. SLASH # c) p)"

lemma split_path_string: "list_all real_name p \<Longrightarrow> split_on SLASH (path_string p) = [] # p"
proof (induction p rule: rev_induct)
  case (snoc c p)
  then have "split_on SLASH (path_string p @ SLASH # c) = split_on SLASH (path_string p) @ [c]"
    by (intro split_on_child) (simp add: real_name_def)
  with snoc show ?case by (simp add: path_string_def)
qed (simp add: path_string_def)

lemma walk_plain:
  assumes "list_all real_name cs" "\<forall>i. 0 < i \<longrightarrow> i < length cs \<longrightarrow> (\<exists>w. look fs (d @ take i cs) = Some (EDir w))"
  shows "walk links fs d cs False = At (d @ cs)"
  using assms
proof (induction cs arbitrary: d)
  case (Cons c cs)
  have c: "c \<noteq> []" "c \<noteq> ''.''" "c \<noteq> ''..''" using Cons.prems(1) by (simp_all add: real_name_def)
  show ?case
  proof (cases "cs = []")
    case True
    with c show ?thesis by (auto simp: walk.simps split: option.split entry.split)
  next
    case False
    then obtain w where "look fs (d @ [c]) = Some (EDir w)" using Cons.prems(2) [rule_format, of 1] by auto
    moreover have "walk links fs (d @ [c]) cs False = At ((d @ [c]) @ cs)"
    proof (rule Cons.IH)
      show "\<forall>i. 0 < i \<longrightarrow> i < length cs \<longrightarrow> (\<exists>w. look fs ((d @ [c]) @ take i cs) = Some (EDir w))"
        using Cons.prems(2) [rule_format, of "Suc i" for i] by auto
    qed (use Cons.prems(1) in simp)
    ultimately show ?thesis using c by (simp add: walk.simps(2))
  qed
qed simp

lemma plain_anchored:
  assumes "list_all real_name p" "p \<noteq> []" "\<forall>i<length p. \<exists>w. look fs (take i p) = Some (EDir w)"
  shows "anchored e (path_string p) p fs"
  unfolding anchored_def
proof (intro conjI allI impI)
  obtain c p' where p: "p = c # p'" using assms(2) by (cases p) auto
  then show "path_string p \<noteq> []" by (simp add: path_string_def)
  fix fs'
  assume same: "\<forall>q. \<not> under p q \<longrightarrow> look fs' q = look fs q"
  have "\<not> under p (take i p)" if "i < length p" for i
    using that arg_cong [of "take (length p) (take i p)" p length] by (auto simp: under_def)
  with same assms(3) have "\<forall>i<length p. \<exists>w. look fs' (take i p) = Some (EDir w)" by simp
  then have "walk 40 fs' [] p False = At ([] @ p)" by (intro walk_plain assms(1)) simp
  moreover have "take 1 (path_string p) = [SLASH]" by (simp add: p path_string_def)
  ultimately show "resolve e fs' (path_string p) False = At p"
    unfolding resolve_def split_path_string [OF assms(1)] by (simp add: walk.simps(2) [of _ _ _ "[]"])
qed (rule assms(2))

text \<open>A reset returns, prunes, and on success leaves nothing.\<close>

lemma workdir_reset_spec:
  assumes "anchored e workdir p fs" "named fs" "closed fs"
  shows "\<exists>ok fs'. hm_workdir_reset e workdir fs = Some (ok, fs') \<and> pruned p fs fs' \<and>
    (ok \<longrightarrow> gone p fs') \<and> (unrefused e \<longrightarrow> ok)"
proof -
  have d: "depth_below fs p (depth fs + 1)" by (rule depth_bound)
  from remove_tree_returns [OF assms(1,2) d] obtain ok fs' where
    r: "remove_tree (Suc (depth fs + 1)) e workdir fs = Some (ok, fs')" by blast
  have pr: "pruned p fs fs'" and none: "ok \<longrightarrow> look fs' p = None"
    and dir: "\<And>w. ok \<longrightarrow> look fs p = Some (EDir w) \<longrightarrow> gone p fs'"
    using remove_tree_prunes [OF r assms(1,2)] by blast+
  have "gone p fs'" if "ok"
  proof (cases "\<exists>w. look fs p = Some (EDir w)")
    case True
    with dir that show ?thesis by blast
  next
    case False
    have "look fs' q = None" if q: "under p q" for q
    proof -
      from q obtain r where r: "q = p @ r" by (rule underE)
      have "look fs q = None" if "r \<noteq> []"
        using closed_below [OF assms(3), of p r] False r that by (cases "look fs q") auto
      then show ?thesis using none pr \<open>ok\<close> r by (cases r) (auto simp: pruned_def)
    qed
    then show ?thesis by (simp add: gone_def)
  qed
  moreover have "ok" if "unrefused e"
    using remove_tree_removes [OF assms(1,2) d assms(3) that] r by auto
  ultimately show ?thesis using r pr by (auto simp: hm_workdir_reset_def)
qed

section \<open>Properties\<close>

text \<open>
  C13: Resetting a work directory removes that tree and nothing else. Whatever is below it (symbolic links
  to anywhere, directories without permissions, any depth), the removal returns; no entry outside the
  tree changes and none appears, whether it succeeds or not; on success nothing is left at or below
  the path; and if the kernel refuses no call it succeeds.
\<close>
theorem workdir_reset_removes_exactly:
  assumes "anchored e workdir p fs" "named fs" "closed fs"
  shows "\<exists>ok fs'. hm_workdir_reset e workdir fs = Some (ok, fs') \<and> pruned p fs fs' \<and>
    (ok \<longrightarrow> gone p fs') \<and> (unrefused e \<longrightarrow> ok)"
  by (rule workdir_reset_spec [OF assms])

definition quiet_os :: os_env where
  "quiet_os = \<lparr>os_cwd = [], os_refuse = (\<lambda>_ _. False), os_written = 0\<rparr>"

definition sample_tree :: files where
  "sample_tree =
     [([''c''], EDir True), ([''c'', ''w''], EDir False), ([''c'', ''w'', ''l''], ELink ''/home''),
      ([''c'', ''w'', ''d''], EDir False), ([''c'', ''w'', ''d'', ''f''], EReg ''x''), ([''home''], EDir True),
      ([''home'', ''f''], EReg ''keep'')]"

lemma sample_tree_look:
  "look sample_tree q \<noteq> None \<longleftrightarrow> q \<in> {[], [''c''], [''c'', ''w''], [''c'', ''w'', ''l''], [''c'', ''w'', ''d''],
     [''c'', ''w'', ''d'', ''f''], [''home''], [''home'', ''f'']}"
  by (auto simp: look_def sample_tree_def)

theorem workdir_reset_removes_exactly_witness:
  "\<exists>fs'. hm_workdir_reset quiet_os ''/c/w'' sample_tree = Some (True, fs') \<and> look fs' [''c'', ''w'', ''d'', ''f''] = None \<and>
     look fs' [''home'', ''f''] = Some (EReg ''keep'')"
proof -
  have "anchored quiet_os (path_string [''c'', ''w'']) [''c'', ''w''] sample_tree"
    by (rule plain_anchored) (auto simp: real_name_def less_Suc_eq sample_tree_def look_def)
  then have a: "anchored quiet_os ''/c/w'' [''c'', ''w''] sample_tree" by (simp add: path_string_def)
  have n: "named sample_tree" unfolding named_def sample_tree_look by (auto simp: real_name_def)
  have c: "closed sample_tree"
    unfolding closed_def sample_tree_look by (auto simp: look_def sample_tree_def)
  have u: "unrefused quiet_os" by (simp add: unrefused_def quiet_os_def)
  from workdir_reset_removes_exactly [OF a n c] u obtain fs' where
    r: "hm_workdir_reset quiet_os ''/c/w'' sample_tree = Some (True, fs')" "pruned [''c'', ''w''] sample_tree fs'"
    "gone [''c'', ''w''] fs'" by auto
  moreover have "under [''c'', ''w''] [''c'', ''w'', ''d'', ''f'']" "\<not> under [''c'', ''w''] [''home'', ''f'']"
    by (simp_all add: under_def)
  moreover have "look sample_tree [''home'', ''f''] = Some (EReg ''keep'')" by (simp add: look_def sample_tree_def)
  ultimately show ?thesis unfolding gone_def pruned_def by metis
qed

end
