(* ===== verification/HM_Materialize.thy ===== *)
theory HM_Materialize
  imports HM_Workdir
begin

text \<open>
  Where \<open>hm_materialize_files\<close> (\<^verbatim>\<open>src/install.c\<close>) writes: below the work directory as long as no symbolic
  link lies there, and through such a link otherwise.
\<close>

section \<open>Staying inside the work directory\<close>

definition linkless :: "path \<Rightarrow> files \<Rightarrow> bool" where
  "linkless w fs \<longleftrightarrow> (\<forall>q t. under w q \<longrightarrow> look fs q \<noteq> Some (ELink t))"

definition plain_dir :: "files \<Rightarrow> path \<Rightarrow> bool" where
  "plain_dir fs w \<longleftrightarrow> w \<noteq> [] \<and> list_all real_name w \<and> (\<forall>i\<le>length w. \<exists>v. look fs (take i w) = Some (EDir v))"

text \<open>Only entries at or below \<open>w\<close> change, no link appears there, and \<open>w\<close> stays a plain directory.\<close>

definition kept :: "path \<Rightarrow> files \<Rightarrow> files \<Rightarrow> bool" where
  "kept w fs fs' \<longleftrightarrow>
     (\<forall>q. \<not> under w q \<longrightarrow> look fs' q = look fs q) \<and> (linkless w fs \<longrightarrow> linkless w fs') \<and>
     (plain_dir fs w \<longrightarrow> plain_dir fs' w)"

lemma kept_refl [simp]: "kept w fs fs"
  by (simp add: kept_def)

lemma kept_trans: "kept w fs fs' \<Longrightarrow> kept w fs' fs'' \<Longrightarrow> kept w fs fs''"
  by (auto simp: kept_def)

lemma kept_put:
  assumes "under w q" "\<And>v. look fs q \<noteq> Some (EDir v)" "\<And>t. en \<noteq> ELink t"
  shows "kept w fs (put q en fs)"
  using assms unfolding kept_def linkless_def plain_dir_def by (auto simp: under_def)

lemma kept_drop:
  assumes "under w q" "\<And>v. look fs q \<noteq> Some (EDir v)"
  shows "kept w fs (drop_entry q fs)"
  using assms unfolding kept_def linkless_def plain_dir_def by (auto simp: under_def)

lemma walk_stays:
  "list_all real_name cs \<Longrightarrow> linkless w fs \<Longrightarrow> under w d \<Longrightarrow> walk links fs d cs follow = At q \<Longrightarrow> under w q"
proof (induction cs arbitrary: d)
  case (Cons c cs)
  have c: "\<not> (c = [] \<or> c = ''.'')" "c \<noteq> ''..''" using Cons.prems(1) by (auto simp: real_name_def)
  have u: "under w (d @ [c])" using under_trans [OF Cons.prems(3)] by simp
  have nl: "look fs (d @ [c]) \<noteq> Some (ELink t)" for t using Cons.prems(2) u by (simp add: linkless_def)
  show ?case
    using Cons.prems(1,4) Cons.IH [OF _ Cons.prems(2) u] c u nl
    by (auto simp: walk.simps(2) split: option.split_asm entry.split_asm if_split_asm)
qed simp

lemma split_on_Cons_Nil: "split_on c s = [] # x # xs \<Longrightarrow> \<exists>r. s = c # r \<and> split_on c r = x # xs"
  by (cases s) (auto split: if_split_asm list.split_asm)

lemma resolve_plain:
  assumes "split_on SLASH path = [] # w @ cs" "list_all real_name w" "w \<noteq> []"
    and "\<forall>i\<le>length w. \<exists>v. look fs (take i w) = Some (EDir v)"
  shows "\<exists>l. resolve e fs path False = walk l fs w cs False"
proof -
  obtain x xs where "w = x # xs" using assms(3) by (cases w) auto
  then have "\<exists>r. path = SLASH # r" using split_on_Cons_Nil [of SLASH path] assms(1) by auto
  then have t: "take 1 path = [SLASH]" by auto
  have "walk 40 fs [] w False = At ([] @ w)" by (rule walk_plain) (use assms(2,4) in auto)
  moreover obtain v where "look fs w = Some (EDir v)" using assms(4) [rule_format, of "length w"] by auto
  ultimately obtain l where "walk 40 fs [] (w @ cs) False = walk l fs w cs False"
    using walk_append [of 40 fs "[]" w False w v cs] by auto
  then show ?thesis unfolding resolve_def assms(1) t by (auto simp: walk.simps(2) [of _ _ _ "[]"])
qed

lemma resolve_inside:
  assumes "plain_dir fs w" "linkless w fs" "split_on SLASH path = [] # w @ cs" "list_all real_name cs"
    and "resolve e fs path False = At q"
  shows "under w q"
  using resolve_plain [OF assms(3), of fs e] assms(1,5) walk_stays [OF assms(4,2) under_refl]
  unfolding plain_dir_def by auto

lemma walk_exact:
  "list_all real_name cs \<Longrightarrow> linkless w fs \<Longrightarrow> under w d \<Longrightarrow> walk links fs d cs follow = At q \<Longrightarrow> q = d @ cs"
proof (induction cs arbitrary: d)
  case (Cons c cs)
  have c: "\<not> (c = [] \<or> c = ''.'')" "c \<noteq> ''..''" using Cons.prems(1) by (auto simp: real_name_def)
  have u: "under w (d @ [c])" using under_trans [OF Cons.prems(3)] by simp
  have nl: "look fs (d @ [c]) \<noteq> Some (ELink t)" for t using Cons.prems(2) u by (simp add: linkless_def)
  show ?case
    using Cons.prems(1,4) Cons.IH [OF _ Cons.prems(2) u] c u nl
    by (auto simp: walk.simps(2) split: option.split_asm entry.split_asm if_split_asm)
qed simp

lemma resolve_exact:
  assumes "plain_dir fs w" "linkless w fs" "split_on SLASH path = [] # w @ cs" "list_all real_name cs"
    and "resolve e fs path False = At q"
  shows "q = w @ cs"
  using resolve_plain [OF assms(3), of fs e] assms(1,5) walk_exact [OF assms(4,2) under_refl]
  unfolding plain_dir_def by auto

text \<open>A path on the way to an entry of the work directory.\<close>

definition toward :: "path \<Rightarrow> string list \<Rightarrow> string \<Rightarrow> bool" where
  "toward w cs path \<longleftrightarrow> path \<noteq> [] \<and> (\<exists>more. split_on SLASH path @ more = [] # w @ cs) \<and> list_all real_name cs"

text \<open>It names an existing directory above \<open>w\<close>, or what it says below.\<close>

lemma toward_names:
  assumes "plain_dir fs w" "linkless w fs" "split_on SLASH path @ ms = [] # w @ cs" "list_all real_name cs"
    and "path \<noteq> []" "resolve e fs path False = At q"
  shows "look fs q \<noteq> None \<or> (\<exists>cs1 cs2. q = w @ cs1 \<and> cs = cs1 @ cs2)"
proof -
  obtain x where x: "split_on SLASH path = [] # x" "x @ ms = w @ cs"
    using assms(3) by (cases "split_on SLASH path") auto
  have pd: "list_all real_name w" "\<forall>i\<le>length w. \<exists>v. look fs (take i w) = Some (EDir v)"
    using assms(1) by (simp_all add: plain_dir_def)
  show ?thesis
  proof (cases "length w \<le> length x")
    case True
    then obtain cs1 where cs1: "x = w @ cs1" "cs = cs1 @ ms" using x(2) by (auto simp: append_eq_append_conv2)
    have "q = w @ cs1"
      by (rule resolve_exact [OF assms(1,2) x(1) [unfolded cs1(1)] _ assms(6)]) (use assms(4) cs1 in simp)
    with cs1 show ?thesis by blast
  next
    case False
    then obtain k where k: "x = take k w" "k = length x" "k \<le> length w"
      using x(2) by (metis append_eq_append_conv_if nat_le_linear)
    have "x \<noteq> []"
    proof
      assume "x = []"
      with x(1) have "split_on SLASH path = [[]]" by simp
      with assms(5) show False by (cases path) (auto split: if_split_asm list.split_asm)
    qed
    have "\<exists>l. resolve e fs path False = walk l fs x [] False"
    proof (rule resolve_plain)
      show "split_on SLASH path = [] # x @ []" using x(1) by simp
      show "list_all real_name x" unfolding k(1) using pd(1) by (auto simp: list_all_iff dest: in_set_takeD)
      show "x \<noteq> []" by fact
      show "\<forall>i\<le>length x. \<exists>v. look fs (take i x) = Some (EDir v)"
      proof (intro allI impI)
        fix i
        assume "i \<le> length x"
        then have "i \<le> k" by (simp add: k(2))
        then have "take i x = take i w" "i \<le> length w" using k(1,3) by (simp_all add: min_def)
        with pd(2) show "\<exists>v. look fs (take i x) = Some (EDir v)" by simp
      qed
    qed
    then have "q = x" using assms(6) by simp
    then show ?thesis using pd(2) k by (metis option.distinct(1))
  qed
qed

text \<open>What appears below \<open>w\<close> lies on the way to one of the given entries.\<close>

definition grown :: "path \<Rightarrow> path set \<Rightarrow> files \<Rightarrow> files \<Rightarrow> bool" where
  "grown w ts fs fs' \<longleftrightarrow>
     (\<forall>q. under w q \<longrightarrow> look fs' q \<noteq> None \<longrightarrow> look fs q \<noteq> None \<or> (\<exists>t\<in>ts. under q t))"

lemma grown_refl [simp]: "grown w ts fs fs"
  by (simp add: grown_def)

lemma grown_trans: "grown w ts fs fs' \<Longrightarrow> grown w ts fs' fs'' \<Longrightarrow> grown w ts fs fs''"
  unfolding grown_def by blast

lemma grown_mono: "grown w ts fs fs' \<Longrightarrow> ts \<subseteq> us \<Longrightarrow> grown w us fs fs'"
  unfolding grown_def by blast

lemma mkdir_toward:
  assumes "plain_dir fs w" "linkless w fs" "split_on SLASH path @ ms = [] # w @ cs" "list_all real_name cs"
    and "path \<noteq> []" "sys_mkdir e fs path = (r, fs')"
  shows "kept w fs fs' \<and> grown w {w @ cs} fs fs'"
proof (cases "r = MkMade")
  case True
  with assms(6) obtain q where q: "resolve e fs path False = At q" "look fs q = None" "fs' = put q (EDir True) fs"
    by (auto simp: sys_mkdir_def split: if_split_asm walked.split_asm)
  from toward_names [OF assms(1-5) q(1)] q(2) obtain cs1 cs2 where "q = w @ cs1" "cs = cs1 @ cs2" by auto
  then have "under w q" "under q (w @ cs)" by (simp_all add: under_def)
  moreover from this(1) q(2) have "kept w fs fs'" unfolding q(3) by (intro kept_put) simp_all
  ultimately show ?thesis by (auto simp: grown_def q(3))
next
  case False
  with assms(6) have "fs' = fs" by (auto simp: sys_mkdir_def split: if_split_asm walked.split_asm)
  then show ?thesis by simp
qed

lemma split_on_append: "split_on c (a @ c # b) = split_on c a @ split_on c b"
proof (induction a)
  case (Cons x a)
  show ?case using Cons by (cases "split_on c a") auto
qed simp

lemma split_on_suffix: "c \<notin> set s \<Longrightarrow> split_on c (a @ s) = butlast (split_on c a) @ [last (split_on c a) @ s]"
proof (induction a)
  case (Cons x a)
  then show ?case by (cases "split_on c a") auto
qed (simp add: split_on_no_sep)

text \<open>The start of a path up to a separator.\<close>

definition boundary :: "string \<Rightarrow> string \<Rightarrow> bool" where
  "boundary path pre \<longleftrightarrow> pre = path \<or> (\<exists>rest. path = pre @ SLASH # rest)"

lemma boundary_trans: "boundary path pre \<Longrightarrow> boundary pre pre' \<Longrightarrow> boundary path pre'"
  by (auto simp: boundary_def)

lemma boundary_take:
  assumes "i = length path \<or> (i < length path \<and> path ! i = SLASH)"
  shows "boundary path (take i path)"
proof (cases "i = length path")
  case False
  with assms have "path = take i path @ SLASH # drop (Suc i) path" by (metis id_take_nth_drop)
  then show ?thesis unfolding boundary_def by blast
qed (simp add: boundary_def)

lemma boundary_split: "boundary path pre \<Longrightarrow> \<exists>more. split_on SLASH path = split_on SLASH pre @ more"
  by (auto simp: boundary_def split_on_append)

lemma prefixes_boundary: "pre \<in> set (prefixes path) \<Longrightarrow> boundary path pre \<and> pre \<noteq> []"
  by (auto simp: prefixes_def intro: boundary_take)

lemma parent_boundary: "boundary path (parent_of path)"
proof (cases "filter (\<lambda>i. path ! i = SLASH) (rev [1..<length path])")
  case Nil
  then show ?thesis by (simp add: parent_of_def boundary_def)
next
  case (Cons i rest)
  then have "i \<in> set (filter (\<lambda>i. path ! i = SLASH) (rev [1..<length path]))" by simp
  then have "i < length path" "path ! i = SLASH" by auto
  with Cons boundary_take [of i path] show ?thesis by (simp add: parent_of_def)
qed

text \<open>The target of an embedded file: the work directory's names, then the file's.\<close>

lemma split_target:
  assumes "list_all real_name w"
  shows "split_on SLASH (path_string w @ SLASH # f) = [] # w @ split_on SLASH f"
  by (simp add: split_on_append split_path_string [OF assms])

definition safe_path :: "string \<Rightarrow> bool" where
  "safe_path f \<longleftrightarrow> list_all real_name (split_on SLASH f)"

lemma toward_boundary:
  assumes "list_all real_name w" "safe_path f" "boundary (path_string w @ SLASH # f) pre" "pre \<noteq> []"
  shows "toward w (split_on SLASH f) pre"
proof -
  obtain more where "split_on SLASH (path_string w @ SLASH # f) = split_on SLASH pre @ more"
    using boundary_split [OF assms(3)] by blast
  then have "split_on SLASH pre @ more = [] # w @ split_on SLASH f" using split_target [OF assms(1), of f] by simp
  then show ?thesis unfolding toward_def using assms(2,4) unfolding safe_path_def by blast
qed

lemma mkdir_each_kept:
  assumes "plain_dir fs w" "linkless w fs" "list_all (toward w cs) pres" "mkdir_each e pres fs = (ok, fs')"
  shows "kept w fs fs' \<and> grown w {w @ cs} fs fs'"
  using assms
proof (induction pres arbitrary: fs)
  case (Cons pre pres)
  obtain r fs1 where m: "sys_mkdir e fs pre = (r, fs1)" by fastforce
  have k: "kept w fs fs1 \<and> grown w {w @ cs} fs fs1"
    using Cons.prems(3) mkdir_toward [OF Cons.prems(1,2) _ _ _ m] by (auto simp: toward_def)
  then have "plain_dir fs1 w" "linkless w fs1" using Cons.prems(1,2) by (simp_all add: kept_def)
  then have "kept w fs1 fs' \<and> grown w {w @ cs} fs1 fs'" if "r \<noteq> MkFail"
    using Cons.IH Cons.prems(3,4) m that by (cases r) auto
  with k m Cons.prems(4) show ?case by (cases r) (auto intro: kept_trans grown_trans)
qed simp

lemma make_dirs_kept:
  assumes "plain_dir fs w" "linkless w fs" "safe_path f" "boundary (path_string w @ SLASH # f) path"
    and "make_dirs e path fs = (ok, fs')"
  shows "kept w fs fs' \<and> grown w {w @ split_on SLASH f} fs fs'"
proof (cases "length path = 0 \<or> length path \<ge> HM_PATH_MAX * 2 + 2")
  case False
  have w: "list_all real_name w" using assms(1) by (simp add: plain_dir_def)
  have "toward w (split_on SLASH f) pre" if "pre \<in> set (prefixes path)" for pre
    using prefixes_boundary [OF that] boundary_trans [OF assms(4)] toward_boundary [OF w assms(3)] by blast
  then have "list_all (toward w (split_on SLASH f)) (prefixes path)" by (simp add: list_all_iff)
  then show ?thesis by (rule mkdir_each_kept [OF assms(1,2)]) (use False assms(5) in \<open>simp add: make_dirs_def\<close>)
qed (use assms(5) in \<open>simp add: make_dirs_def\<close>)

lemma temp_split:
  assumes "list_all real_name w" "safe_path f"
  shows "\<exists>cs. split_on SLASH ((path_string w @ SLASH # f) @ ''.tmp.'' @ dec pid) = [] # w @ cs \<and> list_all real_name cs"
proof -
  have s: "SLASH \<notin> set (''.tmp.'' @ dec pid)" using dec_digits [of SLASH pid] by (auto simp: is_digit_def)
  have "split_on SLASH ((path_string w @ SLASH # f) @ ''.tmp.'' @ dec pid) =
      [] # w @ butlast (split_on SLASH f) @ [last (split_on SLASH f) @ ''.tmp.'' @ dec pid]"
    unfolding split_on_suffix [OF s] split_target [OF assms(1)] by (simp add: butlast_append)
  moreover have "real_name (last (split_on SLASH f) @ ''.tmp.'' @ dec pid)"
  proof -
    have "SLASH \<notin> set (last (split_on SLASH f))" by (rule split_on_pieces [OF last_in_set]) simp
    moreover have "length (last (split_on SLASH f) @ ''.tmp.'' @ dec pid) \<ge> 5" by simp
    ultimately show ?thesis using s by (auto simp: real_name_def)
  qed
  moreover have "list_all real_name (butlast (split_on SLASH f))"
    using assms(2) by (auto simp: safe_path_def list_all_iff dest: in_set_butlastD)
  ultimately show ?thesis by auto
qed

text \<open>The steps of writing one file, each keeping the work directory and every other file.\<close>

definition files_stay :: "path set \<Rightarrow> files \<Rightarrow> files \<Rightarrow> bool" where
  "files_stay except fs fs' \<longleftrightarrow> (\<forall>q s. q \<notin> except \<longrightarrow> look fs q = Some (EReg s) \<longrightarrow> look fs' q = Some (EReg s))"

lemma files_stay_refl [simp]: "files_stay x fs fs"
  by (simp add: files_stay_def)

lemma files_stay_trans: "files_stay x fs fs' \<Longrightarrow> files_stay x fs' fs'' \<Longrightarrow> files_stay x fs fs''"
  by (auto simp: files_stay_def)

lemma mkdir_files_stay: "sys_mkdir e fs path = (r, fs') \<Longrightarrow> files_stay x fs fs'"
  by (auto simp: sys_mkdir_def files_stay_def split: if_split_asm walked.split_asm)

lemma make_dirs_files_stay: "make_dirs e path fs = (ok, fs') \<Longrightarrow> files_stay x fs fs'"
proof -
  have "files_stay x fs fs'" if "mkdir_each e pres fs = (ok, fs')" for pres
    using that
  proof (induction pres arbitrary: fs)
    case (Cons pre pres)
    obtain r fs1 where m: "sys_mkdir e fs pre = (r, fs1)" by fastforce
    with Cons show ?case using mkdir_files_stay [OF m, of x]
      by (cases r) (auto intro: files_stay_trans)
  qed simp
  then show "make_dirs e path fs = (ok, fs') \<Longrightarrow> files_stay x fs fs'"
    by (auto simp: make_dirs_def split: if_split_asm)
qed

lemma write_embedded_file_ok:
  assumes "plain_dir fs w" "linkless w fs" "safe_path (ef_path f)"
    and "write_embedded_file e pid f (path_string w) fs = (ok, fs')"
  shows "kept w fs fs'"
    and "files_stay {w @ split_on SLASH (ef_path f)} fs fs'"
    and "ok \<Longrightarrow> look fs' (w @ split_on SLASH (ef_path f)) = Some (EReg (embedded_text f)) \<and>
      grown w {w @ split_on SLASH (ef_path f)} fs fs'"
proof -
  let ?path = "ef_path f"
  define target where "target = path_string w @ SLASH # ?path"
  define temp where "temp = target @ ''.tmp.'' @ dec pid"
  have w: "list_all real_name w" "w \<noteq> []" using assms(1) by (simp_all add: plain_dir_def)
  have st: "split_on SLASH target = [] # w @ split_on SLASH ?path" "list_all real_name (split_on SLASH ?path)"
    using split_target [OF w(1)] assms(3) by (simp_all add: target_def safe_path_def)
  obtain cs where tt: "split_on SLASH temp = [] # w @ cs" "list_all real_name cs"
    using temp_split [OF w(1) assms(3), of pid] unfolding temp_def target_def by blast
  obtain ok1 fs1 where m: "make_dirs e (parent_of target) fs = (ok1, fs1)" by fastforce
  have m1: "kept w fs fs1 \<and> grown w {w @ split_on SLASH ?path} fs fs1"
    by (rule make_dirs_kept [OF assms(1-3) _ m]) (simp add: target_def parent_boundary)
  then have k1: "kept w fs fs1" by simp
  then have p1: "plain_dir fs1 w" "linkless w fs1" using assms(1,2) by (simp_all add: kept_def)
  note s1 = make_dirs_files_stay [OF m]
  let ?t = "w @ cs" and ?q = "w @ split_on SLASH ?path"
  have under: "under w ?t" "under w ?q" by simp_all
  text \<open>Giving up after the temporary file was created.\<close>
  have undo: "kept w fs1 (snd (sys_unlink e (put ?t (EReg x) fs1) temp)) \<and>
      files_stay {?q} fs1 (snd (sys_unlink e (put ?t (EReg x) fs1) temp))" if "look fs1 ?t = None" for x
  proof -
    let ?fs2 = "put ?t (EReg x) fs1"
    have k: "kept w fs1 ?fs2" by (rule kept_put) (use that in auto)
    then have p2: "plain_dir ?fs2 w" "linkless w ?fs2" using p1 by (simp_all add: kept_def)
    have "snd (sys_unlink e ?fs2 temp) = ?fs2 \<or> snd (sys_unlink e ?fs2 temp) = drop_entry ?t ?fs2"
      using resolve_exact [OF p2 tt] by (auto simp: sys_unlink_def split: walked.split option.split entry.split)
    moreover have "kept w ?fs2 (drop_entry ?t ?fs2)" by (rule kept_drop) (use w in auto)
    ultimately show ?thesis using k that kept_trans [OF k] by (auto simp: files_stay_def)
  qed
  text \<open>What follows once the temporary file exists.\<close>
  have body: "kept w fs1 fs3 \<and> files_stay {?q} fs1 fs3 \<and>
      look fs3 ?q = Some (EReg (embedded_text f)) \<and> grown w {?q} fs1 fs3"
    if new: "look fs1 ?t = None" and rn: "sys_rename e (put ?t (EReg (embedded_text f)) fs1) temp target = (True, fs3)" for fs3
  proof -
    let ?fs2 = "put ?t (EReg (embedded_text f)) fs1"
    have k: "kept w fs1 ?fs2" by (rule kept_put) (use new in auto)
    then have p2: "plain_dir ?fs2 w" "linkless w ?fs2" using p1 by (simp_all add: kept_def)
    from rn obtain p q where pq: "resolve e ?fs2 temp False = At p" "resolve e ?fs2 target False = At q"
      by (auto simp: sys_rename_def split: if_split_asm walked.split_asm)
    have "p = ?t" "q = ?q" using resolve_exact [OF p2 tt pq(1)] resolve_exact [OF p2 st pq(2)] by simp_all
    with pq have rs: "resolve e ?fs2 temp False = At ?t" "resolve e ?fs2 target False = At ?q" by simp_all
    have lt: "look ?fs2 ?t = Some (EReg (embedded_text f))" using w(2) by simp
    have nd: "look ?fs2 ?q \<noteq> Some (EDir v)" for v
    proof
      assume "look ?fs2 ?q = Some (EDir v)"
      with rn rs lt show False by (simp add: sys_rename_def del: look_put split: if_split_asm)
    qed
    from rn rs lt nd have fs3: "fs3 = put ?q (EReg (embedded_text f)) (drop_entry ?t ?fs2)"
      by (auto simp add: sys_rename_def simp del: look_put split: if_split_asm option.split_asm entry.split_asm)
    have k2: "kept w ?fs2 (drop_entry ?t ?fs2)" by (rule kept_drop) (use w in auto)
    have nd2: "look (drop_entry ?t ?fs2) ?q \<noteq> Some (EDir v)" for v using nd [of v] w(2) by (simp split: if_splits)
    have "kept w (drop_entry ?t ?fs2) fs3" unfolding fs3 by (rule kept_put [OF under(2) nd2]) simp
    then have "kept w fs1 fs3" using kept_trans [OF k] kept_trans [OF k2] by blast
    moreover have "files_stay {?q} fs1 fs3" using new by (auto simp: fs3 files_stay_def)
    moreover have "grown w {?q} fs1 fs3" by (auto simp: fs3 grown_def)
    ultimately show ?thesis using w by (simp add: fs3)
  qed
  have fails: "snd (sys_rename e fs2 a b) = fs2" if "\<not> fst (sys_rename e fs2 a b)" for fs2 a b
    using that by (auto simp: sys_rename_def split: walked.split option.split entry.split)
  consider (long) "length target \<ge> HM_PATH_MAX * 2 + 2" | (nodir) "\<not> length target \<ge> HM_PATH_MAX * 2 + 2" "\<not> ok1"
    | (temp) "\<not> length target \<ge> HM_PATH_MAX * 2 + 2" "ok1" "length temp \<ge> HM_PATH_MAX * 2 + 32 \<or> sys_create e fs1 temp = None"
    | (made) t where "\<not> length target \<ge> HM_PATH_MAX * 2 + 2" "ok1" "\<not> length temp \<ge> HM_PATH_MAX * 2 + 32" "sys_create e fs1 temp = Some t"
    by (cases "sys_create e fs1 temp") auto
  then have "(fs' = fs \<and> \<not> ok) \<or> (kept w fs1 fs' \<and> files_stay {?q} fs1 fs' \<and> (ok \<longrightarrow>
      look fs' ?q = Some (EReg (embedded_text f)) \<and> grown w {?q} fs1 fs'))"
  proof cases
    case long
    then have "(ok, fs') = (False, fs)"
      using assms(4) unfolding write_embedded_file_def Let_def target_def [symmetric] by (simp only: if_True)
    then show ?thesis by simp
  next
    case nodir
    then have "(ok, fs') = (False, fs1)"
      using assms(4) m unfolding write_embedded_file_def Let_def target_def [symmetric] by simp
    then show ?thesis by simp
  next
    case temp
    then have "(ok, fs') = (False, fs1)"
      using assms(4) m unfolding write_embedded_file_def Let_def target_def [symmetric] temp_def [symmetric] by (auto split: if_split_asm)
    then show ?thesis by simp
  next
    case (made t)
    then have "resolve e fs1 temp False = At t" "look fs1 t = None"
      by (auto simp: sys_create_def split: if_split_asm walked.split_asm)
    then have t: "t = ?t" "look fs1 ?t = None" using resolve_exact [OF p1 tt] by auto
    let ?fs2 = "put ?t (EReg (embedded_text f)) fs1"
    have eq: "(ok, fs') =
        (if os_refuse e SysFdopen temp then (False, snd (sys_unlink e (put ?t (EReg []) fs1) temp))
         else if os_refuse e SysWrite temp \<or> os_refuse e SysClose temp
           then (False, snd (sys_unlink e (put ?t (EReg (take (os_written e) (embedded_text f))) fs1) temp))
         else (case sys_rename e ?fs2 temp target of
              (True, fs3) \<Rightarrow> (True, fs3)
            | (False, fs3) \<Rightarrow> (False, snd (sys_unlink e fs3 temp))))"
      using assms(4) m made t(1) unfolding write_embedded_file_def Let_def target_def [symmetric] temp_def [symmetric]
      by simp
    show ?thesis
    proof (cases "os_refuse e SysFdopen temp \<or> os_refuse e SysWrite temp \<or> os_refuse e SysClose temp")
      case True
      then show ?thesis using eq undo [OF t(2)] by (auto split: if_split_asm)
    next
      case False
      obtain r fs3 where rn: "sys_rename e ?fs2 temp target = (r, fs3)" by fastforce
      show ?thesis
      proof (cases r)
        case True
        then show ?thesis using eq False rn body [OF t(2)] by simp
      next
        case r: False
        then have "fs3 = ?fs2" using fails [of ?fs2 temp target] rn by simp
        then show ?thesis using eq False rn r undo [OF t(2)] by simp
      qed
    qed
  qed
  then show "kept w fs fs'" "files_stay {?q} fs fs'" "ok \<Longrightarrow> look fs' ?q = Some (EReg (embedded_text f)) \<and> grown w {?q} fs fs'"
    using kept_trans [OF k1] files_stay_trans [OF s1] grown_trans [OF conjunct2 [OF m1]] kept_refl files_stay_refl
    by blast+
qed

lemma safe_components_path: "list_all safe_component (split_on SLASH f) \<Longrightarrow> safe_path f"
  using split_on_pieces [of _ SLASH f] by (auto simp: safe_path_def list_all_iff safe_component_def real_name_def)

lemma write_all_files_ok:
  assumes "plain_dir fs w" "linkless w fs" "list_all (\<lambda>f. safe_path (ef_path f)) ff" "distinct (map ef_path ff)"
    and "write_all_files e pid ff (path_string w) fs = (ok, fs')"
  shows "kept w fs fs' \<and> files_stay {w @ split_on SLASH (ef_path f) | f. f \<in> set ff} fs fs' \<and>
    (ok \<longrightarrow> (\<forall>f\<in>set ff. look fs' (w @ split_on SLASH (ef_path f)) = Some (EReg (embedded_text f))) \<and>
      grown w {w @ split_on SLASH (ef_path f) | f. f \<in> set ff} fs fs')"
  using assms
proof (induction ff arbitrary: fs)
  case Nil
  then show ?case by simp
next
  case (Cons f ff)
  let ?q = "\<lambda>f. w @ split_on SLASH (ef_path f)"
  have inj: "split_on SLASH a = split_on SLASH b \<Longrightarrow> a = b" for a b
  proof (induction a arbitrary: b)
    case Nil
    then show ?case by (cases b) (auto simp: split_on_nonempty [symmetric] split: if_split_asm list.split_asm)
  next
    case (Cons x a)
    from Cons.prems obtain y b' where b: "b = y # b'"
      by (cases b) (auto simp: split_on_nonempty split: if_split_asm list.split_asm)
    from Cons.prems have "x = y \<and> split_on SLASH a = split_on SLASH b'"
      unfolding b by (cases "split_on SLASH a"; cases "split_on SLASH b'") (auto split: if_split_asm)
    with Cons.IH b show ?case by simp
  qed
  obtain ok1 fs1 where w1: "write_embedded_file e pid f (path_string w) fs = (ok1, fs1)" by fastforce
  have sp: "safe_path (ef_path f)" using Cons.prems(3) by simp
  note one = write_embedded_file_ok [OF Cons.prems(1,2) sp w1]
  have sub: "files_stay {?q g | g. g \<in> set (f # ff)} fs fs1" using one(2) by (auto simp: files_stay_def)
  show ?case
  proof (cases ok1)
    case False
    then have "fs' = fs1 \<and> \<not> ok" using Cons.prems(5) w1 by simp
    then show ?thesis using one(1) sub by simp
  next
    case True
    then have rest: "write_all_files e pid ff (path_string w) fs1 = (ok, fs')" using Cons.prems(5) w1 by simp
    have p1: "plain_dir fs1 w" "linkless w fs1" using one(1) Cons.prems(1,2) by (simp_all add: kept_def)
    have "list_all (\<lambda>f. safe_path (ef_path f)) ff" "distinct (map ef_path ff)" using Cons.prems(3,4) by simp_all
    note IH = Cons.IH [OF p1 this rest]
    have "?q f \<notin> {?q g | g. g \<in> set ff}"
    proof
      assume "?q f \<in> {?q g | g. g \<in> set ff}"
      then obtain g where "g \<in> set ff" "split_on SLASH (ef_path f) = split_on SLASH (ef_path g)" by auto
      with inj have "ef_path f \<in> ef_path ` set ff" by blast
      then show False using Cons.prems(4) by simp
    qed
    then have "look fs' (?q f) = Some (EReg (embedded_text f))"
      using IH conjunct1 [OF one(3) [OF True]] unfolding files_stay_def by blast
    moreover have "grown w {?q g | g. g \<in> set (f # ff)} fs fs1"
      by (rule grown_mono [OF conjunct2 [OF one(3) [OF True]]]) auto
    moreover have "ok \<longrightarrow> grown w {?q g | g. g \<in> set (f # ff)} fs1 fs'"
      using IH grown_mono [where us = "{?q g | g. g \<in> set (f # ff)}"] by fastforce
    moreover have "files_stay {?q g | g. g \<in> set (f # ff)} fs1 fs'" using IH by (auto simp: files_stay_def)
    ultimately show ?thesis
      using IH kept_trans [OF one(1)] files_stay_trans [OF sub] grown_trans by (auto simp del: grown_refl)
  qed
qed

lemma workdir_ensure_kept:
  assumes "plain_dir fs w" "linkless w fs" "hm_workdir_ensure e (path_string w) fs = (ok, fs')"
  shows "kept w fs fs' \<and> grown w {w} fs fs' \<and> files_stay x fs fs'"
proof -
  have w: "list_all real_name w" using assms(1) by (simp add: plain_dir_def)
  obtain ok1 fs1 where m: "make_dirs e (path_string w) fs = (ok1, fs1)" by fastforce
  then have eq: "fs' = fs1" using assms(3) by (cases ok1) (auto simp: hm_workdir_ensure_def split: stat_result.split_asm)
  show ?thesis
  proof (cases "length (path_string w) = 0 \<or> length (path_string w) \<ge> HM_PATH_MAX * 2 + 2")
    case True
    with m eq show ?thesis by (auto simp: make_dirs_def)
  next
    case False
    have "toward w [] pre" if "pre \<in> set (prefixes (path_string w))" for pre
    proof -
      from prefixes_boundary [OF that] boundary_split obtain more where
        "split_on SLASH (path_string w) = split_on SLASH pre @ more" "pre \<noteq> []" by blast
      then have "split_on SLASH pre @ more = [] # w @ []" using split_path_string [OF w] by simp
      then show ?thesis unfolding toward_def using \<open>pre \<noteq> []\<close> by (intro conjI exI [of _ more]) simp_all
    qed
    then have "list_all (toward w []) (prefixes (path_string w))" by (simp add: list_all_iff)
    from mkdir_each_kept [OF assms(1,2) this] show ?thesis
      using False m eq make_dirs_files_stay [OF m] by (auto simp: make_dirs_def)
  qed
qed

section \<open>Properties\<close>

text \<open>
  C14: Embedded files land where they belong: when the work directory is a real directory with no symbolic
  link in it (as after a reset), materialising a project's files touches nothing outside it and creates
  no link, whatever calls fail half way; and if it succeeds, every file is there with exactly its block's
  lines. The project's paths have to be distinct and made of real names, which the parser checks.
\<close>
theorem materialize_writes_below_workdir:
  assumes "plain_dir fs w" "linkless w fs" "list_all (\<lambda>f. safe_path (ef_path f)) (p_files p)"
    and "distinct (map ef_path (p_files p))" "hm_materialize_files e pid p (path_string w) fs = (ok, fs')"
  shows "(\<forall>q. \<not> under w q \<longrightarrow> look fs' q = look fs q) \<and> linkless w fs' \<and>
    (ok \<longrightarrow> list_all (\<lambda>f. look fs' (w @ split_on SLASH (ef_path f)) = Some (EReg (file_text (block_lines f)))) (p_files p))"
proof -
  obtain ok1 fs1 where en: "hm_workdir_ensure e (path_string w) fs = (ok1, fs1)" by fastforce
  note k1 = conjunct1 [OF workdir_ensure_kept [OF assms(1,2) en]]
  have "kept w fs fs' \<and> (ok \<longrightarrow> (\<forall>f\<in>set (p_files p). look fs' (w @ split_on SLASH (ef_path f)) = Some (EReg (embedded_text f))))"
  proof (cases ok1)
    case False
    then show ?thesis using assms(5) en k1 by (simp add: hm_materialize_files_def)
  next
    case True
    then have "write_all_files e pid (p_files p) (path_string w) fs1 = (ok, fs')"
      using assms(5) en by (simp add: hm_materialize_files_def)
    from write_all_files_ok [OF _ _ assms(3,4) this] k1 assms(1,2) show ?thesis
      using kept_trans [OF k1] by (auto simp: kept_def)
  qed
  then show ?thesis
    using assms(2) by (auto simp: kept_def list_all_iff embedded_text_def collect_block_lines)
qed

theorem materialize_writes_below_workdir_witness:
  "let fs = [([''c''], EDir True), ([''c'', ''w''], EDir True)];
       p = (project_defaults 1)\<lparr>p_files := [\<lparr>ef_path = ''d/f'', ef_content = ''  a'', ef_content_indent = 2, ef_line = 1\<rparr>]\<rparr>;
       r = hm_materialize_files quiet_os 7 p (path_string [''c'', ''w'']) fs
   in fst r \<and> look (snd r) [''c'', ''w'', ''d'', ''f''] = Some (EReg (''a'' @ [LF]))"
proof -
  let ?fs = "[([''c''], EDir True), ([''c'', ''w''], EDir True)]"
  let ?p = "(project_defaults 1)\<lparr>p_files := [\<lparr>ef_path = ''d/f'', ef_content = ''  a'', ef_content_indent = 2, ef_line = 1\<rparr>]\<rparr>"
  let ?r = "hm_materialize_files quiet_os 7 ?p (path_string [''c'', ''w'']) ?fs"
  have r: "?r = (fst ?r, snd ?r)" by simp
  have d: "plain_dir ?fs [''c'', ''w'']" by (auto simp: plain_dir_def real_name_def look_def le_Suc_eq)
  have l: "linkless [''c'', ''w''] ?fs" by (auto simp: linkless_def look_def)
  have s: "list_all (\<lambda>f. safe_path (ef_path f)) (p_files ?p)" by (simp add: safe_path_def real_name_def)
  have "fst ?r" by code_simp
  moreover have "block_lines \<lparr>ef_path = ''d/f'', ef_content = ''  a'', ef_content_indent = 2, ef_line = 1\<rparr> = [''a'']"
    by code_simp
  ultimately show ?thesis
    using materialize_writes_below_workdir [OF d l s _ r] by (simp add: Let_def)
qed


end
