(* ===== verification/HM_Unpack.thy ===== *)
theory HM_Unpack
  imports HM_Materialize HM_Paths
begin

text \<open>
  \<^verbatim>\<open>src/unpack.c\<close>: extracting the embedded files and the setup script of a project into a directory.
  A directory descriptor is the canonical path of the directory it was opened on, so the calls
  relative to one (\<open>mkdirat\<close>, \<open>openat\<close>, \<open>unlinkat\<close>) see one name in that directory and, with
  \<^verbatim>\<open>O_NOFOLLOW\<close> or \<^verbatim>\<open>O_EXCL\<close>, never go through a link. The state also keeps the permissions each new
  file was created with. The interpreter \<^verbatim>\<open>HM_SHELL\<close> is the parameter \<open>shell\<close>.
\<close>

record unpack_state =
  us_files :: files
  us_modes :: "(path \<times> nat) list"

section \<open>Calls relative to a directory\<close>

definition sys_mkdirat :: "os_env \<Rightarrow> files \<Rightarrow> path \<Rightarrow> string \<Rightarrow> mkdir_result \<times> files" where
  "sys_mkdirat e fs d name =
     (if os_refuse e SysMkdir (path_string (d @ [name])) \<or> name = [] then (MkFail, fs)
      else if name = ''.'' \<or> name = ''..'' \<or> look fs (d @ [name]) \<noteq> None then (MkExists, fs)
      else (MkMade, put (d @ [name]) (EDir True) fs))"

text \<open>\<^verbatim>\<open>O_DIRECTORY | O_NOFOLLOW\<close>: neither a file nor a link can be opened.\<close>

definition sys_opendirat :: "os_env \<Rightarrow> files \<Rightarrow> path \<Rightarrow> string \<Rightarrow> path option" where
  "sys_opendirat e fs d name =
     (if os_refuse e SysOpen (path_string (d @ [name])) \<or> name = [] then None
      else if name = ''.'' then Some d
      else if name = ''..'' then Some (butlast d)
      else (case look fs (d @ [name]) of Some (EDir _) \<Rightarrow> Some (d @ [name]) | _ \<Rightarrow> None))"

text \<open>\<^verbatim>\<open>O_CREAT | O_EXCL\<close>: anything in the way, a dangling link included, is an error.\<close>

definition sys_createat :: "os_env \<Rightarrow> files \<Rightarrow> path \<Rightarrow> string \<Rightarrow> path option" where
  "sys_createat e fs d name =
     (if os_refuse e SysOpen (path_string (d @ [name])) \<or> name = [] \<or> name = ''.'' \<or> name = ''..'' then None
      else if look fs (d @ [name]) = None then Some (d @ [name]) else None)"

definition sys_unlinkat :: "os_env \<Rightarrow> files \<Rightarrow> path \<Rightarrow> string \<Rightarrow> files" where
  "sys_unlinkat e fs d name =
     (if os_refuse e SysUnlink (path_string (d @ [name])) then fs
      else
        (case look fs (d @ [name]) of
           None \<Rightarrow> fs
         | Some (EDir _) \<Rightarrow> fs
         | Some _ \<Rightarrow> drop_entry (d @ [name]) fs))"

text \<open>\<open>open(target, O_DIRECTORY)\<close>, which does follow links.\<close>

definition sys_open_root :: "os_env \<Rightarrow> files \<Rightarrow> string \<Rightarrow> path option" where
  "sys_open_root e fs target =
     (if os_refuse e SysOpen target then None
      else
        (case resolve e fs target True of
           At p \<Rightarrow> (case look fs p of Some (EDir _) \<Rightarrow> Some p | _ \<Rightarrow> None)
         | _ \<Rightarrow> None))"

section \<open>One file\<close>

text \<open>The loop over the slashes of the path: make each parent, then open it.\<close>

fun descend :: "os_env \<Rightarrow> path \<Rightarrow> string list \<Rightarrow> files \<Rightarrow> path option \<times> files" where
  "descend e d [] fs = (Some d, fs)"
| "descend e d (name # names) fs =
     (case sys_mkdirat e fs d name of
        (MkFail, fs') \<Rightarrow> (None, fs')
      | (_, fs') \<Rightarrow>
          (case sys_opendirat e fs' d name of
             None \<Rightarrow> (None, fs')
           | Some d' \<Rightarrow> descend e d' names fs'))"

definition unpacked_text :: "string \<Rightarrow> hm_embedded_file \<Rightarrow> bool \<Rightarrow> string" where
  "unpacked_text shell f script =
     (let lines = collect (hm_file_next_line f) (length (ef_content f)) 0
      in (if script \<and> (lines = [] \<or> length (hd lines) < 2 \<or> take 2 (hd lines) \<noteq> ''#!'')
          then ''#!'' @ shell @ [LF] else []) @
         file_text lines)"

definition unpack_file ::
  "os_env \<Rightarrow> string \<Rightarrow> hm_embedded_file \<Rightarrow> path \<Rightarrow> bool \<Rightarrow> unpack_state \<Rightarrow> bool \<times> unpack_state" where
  "unpack_file e shell f root script st =
     (let names = split_on SLASH (copied (HM_FILE_PATH_MAX + 1) (ef_path f)); name = last names
      in if os_refuse e SysDup (path_string root) then (False, st)
         else
           (case descend e root (butlast names) (us_files st) of
              (None, fs1) \<Rightarrow> (False, st\<lparr>us_files := fs1\<rparr>)
            | (Some d, fs1) \<Rightarrow>
                (case sys_createat e fs1 d name of
                   None \<Rightarrow> (False, st\<lparr>us_files := fs1\<rparr>)
                 | Some t \<Rightarrow>
                     (let text = unpacked_text shell f script;
                          st1 = st\<lparr>us_modes := (t, if script then 448 else 384) # us_modes st\<rparr>
                      in if os_refuse e SysFdopen (path_string t)
                         then (False, st1\<lparr>us_files := sys_unlinkat e (put t (EReg []) fs1) d name\<rparr>)
                         else if os_refuse e SysWrite (path_string t) \<or> os_refuse e SysClose (path_string t)
                         then (False, st1\<lparr>us_files :=
                                 sys_unlinkat e (put t (EReg (take (os_written e) text)) fs1) d name\<rparr>)
                         else (True, st1\<lparr>us_files := put t (EReg text) fs1\<rparr>)))))"

section \<open>A project\<close>

definition script_name :: "hm_project \<Rightarrow> string option" where
  "script_name p =
     (if length (p_command p) > 0 then Some ''command.sh''
      else if length (p_install p) > 0 then Some ''install.sh'' else None)"

definition script_file :: "hm_project \<Rightarrow> string \<Rightarrow> hm_embedded_file" where
  "script_file p name =
     \<lparr>ef_path = name,
      ef_content = (if length (p_command p) > 0 then p_command p else p_install p),
      ef_content_indent = (if length (p_command p) > 0 then 0 else p_install_indent p),
      ef_line = 0\<rparr>"

definition script_conflict :: "string \<Rightarrow> hm_embedded_file \<Rightarrow> bool" where
  "script_conflict name f \<longleftrightarrow>
     length (ef_path f) \<ge> length name \<and> take (length name) (ef_path f) = name \<and>
     (length (ef_path f) = length name \<or> ef_path f ! length name = SLASH)"

fun unpack_each :: "os_env \<Rightarrow> string \<Rightarrow> hm_embedded_file list \<Rightarrow> path \<Rightarrow> unpack_state \<Rightarrow> bool \<times> unpack_state" where
  "unpack_each e shell [] root st = (True, st)"
| "unpack_each e shell (f # ff) root st =
     (case unpack_file e shell f root False st of
        (False, st') \<Rightarrow> (False, st')
      | (True, st') \<Rightarrow> unpack_each e shell ff root st')"

definition hm_unpack :: "os_env \<Rightarrow> string \<Rightarrow> hm_project \<Rightarrow> string \<Rightarrow> unpack_state \<Rightarrow> bool \<times> unpack_state" where
  "hm_unpack e shell p target st =
     (if (case script_name p of None \<Rightarrow> False | Some name \<Rightarrow> list_ex (script_conflict name) (p_files p))
      then (False, st)
      else
        (case hm_workdir_ensure e target (us_files st) of
           (False, fs) \<Rightarrow> (False, st\<lparr>us_files := fs\<rparr>)
         | (True, fs) \<Rightarrow>
             (case sys_open_root e fs target of
                None \<Rightarrow> (False, st\<lparr>us_files := fs\<rparr>)
              | Some root \<Rightarrow>
                  (case unpack_each e shell (p_files p) root (st\<lparr>us_files := fs\<rparr>) of
                     (False, st') \<Rightarrow> (False, st')
                   | (True, st') \<Rightarrow>
                       (case script_name p of
                          None \<Rightarrow> (True, st')
                        | Some name \<Rightarrow> unpack_file e shell (script_file p name) root True st')))))"

section \<open>Nothing that exists changes\<close>

text \<open>Every entry stays; new ones are below \<open>root\<close> (or anywhere, as directories, with \<open>grows\<close>).\<close>

definition stays :: "files \<Rightarrow> files \<Rightarrow> bool" where
  "stays fs fs' \<longleftrightarrow> (\<forall>q x. look fs q = Some x \<longrightarrow> look fs' q = Some x)"

definition adds :: "path \<Rightarrow> files \<Rightarrow> files \<Rightarrow> bool" where
  "adds root fs fs' \<longleftrightarrow> stays fs fs' \<and> (\<forall>q. look fs q = None \<longrightarrow> look fs' q \<noteq> None \<longrightarrow> under root q)"

definition grows :: "files \<Rightarrow> files \<Rightarrow> bool" where
  "grows fs fs' \<longleftrightarrow> stays fs fs' \<and> (\<forall>q. look fs q = None \<longrightarrow> look fs' q \<noteq> None \<longrightarrow> look fs' q = Some (EDir True))"

lemma adds_refl [simp]: "adds root fs fs"
  by (simp add: adds_def stays_def)

lemma grows_refl [simp]: "grows fs fs"
  by (simp add: grows_def stays_def)

lemma adds_trans: "adds root fs fs' \<Longrightarrow> adds root fs' fs'' \<Longrightarrow> adds root fs fs''"
  unfolding adds_def stays_def by (metis not_None_eq)

lemma grows_trans: "grows fs fs' \<Longrightarrow> grows fs' fs'' \<Longrightarrow> grows fs fs''"
  unfolding grows_def stays_def by (metis not_None_eq)

lemma adds_put: "look fs q = None \<Longrightarrow> under root q \<Longrightarrow> adds root fs (put q x fs)"
  by (auto simp: adds_def stays_def)

lemma adds_put_unlink:
  "look fs (d @ [name]) = None \<Longrightarrow> under root (d @ [name]) \<Longrightarrow>
   adds root fs (sys_unlinkat e (put (d @ [name]) (EReg s) fs) d name)"
  by (auto simp: adds_def stays_def sys_unlinkat_def)

lemma mkdirat_adds: "sys_mkdirat e fs d name = (r, fs') \<Longrightarrow> under root d \<Longrightarrow> adds root fs fs'"
  by (auto simp: sys_mkdirat_def intro!: adds_put under_trans [of root d] split: if_split_asm)

lemma mkdir_grows: "sys_mkdir e fs path = (r, fs') \<Longrightarrow> grows fs fs'"
  by (auto simp: sys_mkdir_def grows_def stays_def split: if_split_asm walked.split_asm)

lemma mkdir_each_grows: "mkdir_each e pres fs = (ok, fs') \<Longrightarrow> grows fs fs'"
proof (induction pres arbitrary: fs)
  case (Cons pre pres)
  obtain r fs1 where m: "sys_mkdir e fs pre = (r, fs1)" by fastforce
  with Cons mkdir_grows [OF m] show ?case by (cases r) (auto intro: grows_trans)
qed simp

lemma workdir_ensure_grows: "hm_workdir_ensure e path fs = (ok, fs') \<Longrightarrow> grows fs fs'"
  by (auto simp: hm_workdir_ensure_def make_dirs_def dest: mkdir_each_grows
      split: if_split_asm prod.split_asm bool.split_asm stat_result.split_asm)

lemma descend_adds:
  assumes "list_all real_name names" "under root d" "look fs d = Some (EDir w)" "descend e d names fs = (r, fs')"
  shows "adds root fs fs' \<and> (\<forall>d'. r = Some d' \<longrightarrow> d' = d @ names \<and> under root d')"
  using assms
proof (induction names arbitrary: d fs w)
  case Nil
  then show ?case by auto
next
  case (Cons name names)
  obtain m fs1 where m: "sys_mkdirat e fs d name = (m, fs1)" by fastforce
  note a = mkdirat_adds [OF m Cons.prems(2)]
  have nm: "name \<noteq> ''.''" "name \<noteq> ''..''" using Cons.prems(1) by (simp_all add: real_name_def)
  show ?case
  proof (cases "m = MkFail \<or> sys_opendirat e fs1 d name = None")
    case True
    then have "(r, fs') = (None, fs1)" using Cons.prems(4) m by (cases m) auto
    with a show ?thesis by simp
  next
    case False
    then obtain d1 where d1: "sys_opendirat e fs1 d name = Some d1" by auto
    then obtain v where v: "d1 = d @ [name]" "look fs1 d1 = Some (EDir v)"
      using nm by (auto simp: sys_opendirat_def split: if_split_asm option.split_asm entry.split_asm)
    have "descend e d1 names fs1 = (r, fs')" using Cons.prems(4) m d1 False by (cases m) auto
    moreover have "under root d1" unfolding v(1) by (rule under_trans [OF Cons.prems(2)]) simp
    ultimately show ?thesis using Cons.IH [of d1 fs1 v] Cons.prems(1) v adds_trans [OF a] by auto
  qed
qed

section \<open>One file\<close>

definition extractable :: "hm_embedded_file \<Rightarrow> bool" where
  "extractable f \<longleftrightarrow> valid_file_path (ef_path f) \<and> NUL \<notin> set (ef_path f)"

lemma extractable_names:
  assumes "extractable f"
  shows "split_on SLASH (copied (HM_FILE_PATH_MAX + 1) (ef_path f)) = split_on SLASH (ef_path f)"
    and "list_all real_name (split_on SLASH (ef_path f))"
proof -
  have v: "length (ef_path f) \<le> HM_FILE_PATH_MAX" "list_all safe_component (split_on SLASH (ef_path f))"
    using assms by (simp_all add: extractable_def valid_file_path_def valid_relative_path_iff)
  have "copied (HM_FILE_PATH_MAX + 1) (ef_path f) = ef_path f"
    using v(1) assms by (simp add: copied_def hm_str_copy_eq extractable_def)
  then show "split_on SLASH (copied (HM_FILE_PATH_MAX + 1) (ef_path f)) = split_on SLASH (ef_path f)" by simp
  show "list_all real_name (split_on SLASH (ef_path f))"
    using safe_components_path [OF v(2)] by (simp add: safe_path_def)
qed

lemma unpack_file_adds:
  assumes "extractable f" "look (us_files st) root = Some (EDir w)" "unpack_file e shell f root script st = (ok, st')"
  shows "adds root (us_files st) (us_files st') \<and>
    (ok \<longrightarrow> look (us_files st') (root @ split_on SLASH (ef_path f)) = Some (EReg (unpacked_text shell f script)))"
proof -
  let ?names = "split_on SLASH (ef_path f)"
  note n = extractable_names [OF assms(1)]
  have real: "list_all real_name (butlast ?names)" "real_name (last ?names)"
    using n(2) by (auto simp: list_all_iff dest: in_set_butlastD)
  note u = assms(3) [unfolded unpack_file_def Let_def n(1)]
  obtain r fs1 where d: "descend e root (butlast ?names) (us_files st) = (r, fs1)" by fastforce
  have a: "adds root (us_files st) fs1" and r: "\<And>d'. r = Some d' \<Longrightarrow> d' = root @ butlast ?names"
    using descend_adds [OF real(1) under_refl assms(2) d] by auto
  show ?thesis
  proof (cases "os_refuse e SysDup (path_string root) \<or> r = None \<or> sys_createat e fs1 (the r) (last ?names) = None")
    case True
    then have "\<not> ok \<and> (us_files st' = us_files st \<or> us_files st' = fs1)"
      using u d by (auto split: if_split_asm option.split_asm)
    with a show ?thesis by auto
  next
    case False
    then obtain d' t where d': "r = Some d'" and t: "sys_createat e fs1 d' (last ?names) = Some t" by auto
    then have tq: "t = d' @ [last ?names]" "look fs1 t = None"
      by (auto simp: sys_createat_def split: if_split_asm)
    then have tn: "t = root @ ?names" using r [OF d'] by simp
    have un: "under root (d' @ [last ?names])" using under_append [of root ?names] unfolding tn [symmetric] tq(1) .
    from u d d' t False have
      "us_files st' \<in> {sys_unlinkat e (put t (EReg s) fs1) d' (last ?names) | s. True} \<and> \<not> ok \<or>
       us_files st' = put t (EReg (unpacked_text shell f script)) fs1"
      by (auto split: if_split_asm)
    then show ?thesis
      using a adds_trans [OF a adds_put_unlink] adds_trans [OF a adds_put] un tq tn by auto
  qed
qed

lemma adds_dir: "adds root fs fs' \<Longrightarrow> look fs q = Some x \<Longrightarrow> look fs' q = Some x"
  by (simp add: adds_def stays_def)

lemma unpack_each_adds:
  assumes "list_all extractable ff" "look (us_files st) root = Some (EDir w)" "unpack_each e shell ff root st = (ok, st')"
  shows "adds root (us_files st) (us_files st') \<and>
    (ok \<longrightarrow> (\<forall>f\<in>set ff. look (us_files st') (root @ split_on SLASH (ef_path f)) = Some (EReg (unpacked_text shell f False))))"
  using assms
proof (induction ff arbitrary: st)
  case (Cons f ff)
  obtain ok1 st1 where u: "unpack_file e shell f root False st = (ok1, st1)" by fastforce
  have "extractable f" using Cons.prems(1) by simp
  note one = unpack_file_adds [OF this Cons.prems(2) u]
  show ?case
  proof (cases ok1)
    case True
    then have rest: "unpack_each e shell ff root st1 = (ok, st')" using Cons.prems(3) u by simp
    have "look (us_files st1) root = Some (EDir w)" using one Cons.prems(2) adds_dir by blast
    with Cons.IH [OF _ _ rest] Cons.prems(1) have
      "adds root (us_files st1) (us_files st') \<and> (ok \<longrightarrow> (\<forall>f\<in>set ff. look (us_files st')
         (root @ split_on SLASH (ef_path f)) = Some (EReg (unpacked_text shell f False))))" by simp
    moreover have "adds root (us_files st) (us_files st1)" using one by simp
    moreover from calculation have "look (us_files st') (root @ split_on SLASH (ef_path f)) =
        Some (EReg (unpacked_text shell f False))" using one True by (blast intro: adds_dir)
    ultimately show ?thesis using adds_trans by auto
  next
    case False
    then show ?thesis using one Cons.prems(3) u by simp
  qed
qed simp

lemma walk_stays_same:
  "walk links fs d cs True = At q \<Longrightarrow> look fs q \<noteq> None \<Longrightarrow> stays fs fs' \<Longrightarrow> walk links fs' d cs True = At q"
proof (induction links fs d cs True rule: walk.induct)
  case (1 links fs d)
  then show ?case by simp
next
  case (2 links fs d c' cs)
  consider (dot) "c' = [] \<or> c' = ''.''" | (dotdot) "c' = ''..''" | (name) "\<not> (c' = [] \<or> c' = ''.'')" "c' \<noteq> ''..''" by blast
  then show ?case
  proof cases
    case dot
    with 2 show ?thesis by (auto simp: walk.simps(2) [of _ _ _ c'])
  next
    case dotdot
    with 2 show ?thesis by (auto simp: walk.simps(2) [of _ _ _ "''..''"])
  next
    case name
    then obtain x where x: "look fs (d @ [c']) = Some x"
      using 2(5,6) by (cases "look fs (d @ [c'])") (auto simp: walk.simps(2) [of _ _ _ c'] split: if_split_asm)
    then have x': "look fs' (d @ [c']) = Some x" using 2(7) by (simp add: stays_def)
    show ?thesis
    proof (cases x)
      case (ELink t)
      then obtain l where l: "links = Suc l"
        using 2(5) name x by (cases links) (auto simp: walk.simps(2) [of _ _ _ c'])
      show ?thesis using 2(4) [OF name x ELink _ l] 2(5,6,7) name x x' ELink l
        by (auto simp: walk.simps(2) [of _ _ _ c'])
    qed (use 2 name x x' in \<open>auto simp: walk.simps(2) [of _ _ _ c'] split: if_split_asm\<close>)
  qed
qed

lemma stays_adds: "adds root fs fs' \<Longrightarrow> stays fs fs'"
  by (simp add: adds_def)

lemma unpacked_plain: "unpacked_text shell f False = embedded_text f"
  by (simp add: unpacked_text_def embedded_text_def)

lemma script_extractable: "script_name p = Some name \<Longrightarrow> extractable (script_file p name) \<and> split_on SLASH name = [name]"
  by (auto simp: script_name_def script_file_def extractable_def valid_file_path_def valid_relative_path_iff
      safe_component_def HM_FILE_PATH_MAX_def split: if_split_asm)

text \<open>The part below the opened target.\<close>

lemma unpack_below_root:
  assumes "list_all extractable (p_files p)" "look (us_files st) root = Some (EDir w)"
    and "(case unpack_each e shell (p_files p) root st of
            (False, st') \<Rightarrow> (False, st')
          | (True, st') \<Rightarrow>
              (case script_name p of
                 None \<Rightarrow> (True, st')
               | Some name \<Rightarrow> unpack_file e shell (script_file p name) root True st')) = (ok, st')"
  shows "adds root (us_files st) (us_files st') \<and>
    (ok \<longrightarrow> (\<forall>f\<in>set (p_files p). look (us_files st') (root @ split_on SLASH (ef_path f)) = Some (EReg (embedded_text f))) \<and>
      (\<forall>name. script_name p = Some name \<longrightarrow>
         look (us_files st') (root @ [name]) = Some (EReg (unpacked_text shell (script_file p name) True))))"
proof -
  obtain ok1 st1 where u: "unpack_each e shell (p_files p) root st = (ok1, st1)" by fastforce
  note one = unpack_each_adds [OF assms(1,2) u, unfolded unpacked_plain]
  show ?thesis
  proof (cases "ok1 \<and> script_name p \<noteq> None")
    case True
    then obtain name where nm: "script_name p = Some name" by auto
    then have f: "unpack_file e shell (script_file p name) root True st1 = (ok, st')" using assms(3) u True by simp
    have "look (us_files st1) root = Some (EDir w)" using one assms(2) adds_dir by blast
    from unpack_file_adds [OF _ this f] script_extractable [OF nm]
    have two: "adds root (us_files st1) (us_files st')"
      "ok \<longrightarrow> look (us_files st') (root @ [name]) = Some (EReg (unpacked_text shell (script_file p name) True))"
      by (simp_all add: script_file_def)
    have "look (us_files st') (root @ split_on SLASH (ef_path f)) = Some (EReg (embedded_text f))"
      if "f \<in> set (p_files p)" for f
      using one True two(1) that by (blast intro: adds_dir)
    then show ?thesis using one two nm adds_trans by auto
  next
    case False
    then show ?thesis using one assms(3) u by (cases ok1) auto
  qed
qed

section \<open>Properties\<close>


definition sample_unpack :: hm_project where
  "sample_unpack = (project_defaults 1)\<lparr>p_command := ''make'', p_files :=
     [\<lparr>ef_path = ''d/f'', ef_content = ''  hi'', ef_content_indent = 2, ef_line = 1\<rparr>]\<rparr>"


end
