(* ===== verification/HM_Plan.thy ===== *)
theory HM_Plan
  imports HM_Output HM_Lines HM_Store
begin

text \<open>
  The plan writer, \<^verbatim>\<open>src/plan.c\<close>: what \<^verbatim>\<open>--plan\<close> prints for a parsed project. Every \<open>hm_out\<close> call is
  a pair of its format and its arguments, a function that prints is the list of its calls, and
  \<open>out_calls\<close> performs them on the output state. The interpreter \<^verbatim>\<open>HM_SHELL\<close> is set by the build and is
  the parameter \<open>shell\<close>.
\<close>

type_synonym out_call = "string \<times> fmt_arg list"

fun out_calls :: "out_call list \<Rightarrow> out_state \<Rightarrow> out_state option" where
  "out_calls [] st = Some st"
| "out_calls ((fmt, args) # cs) st =
     (case hm_out fmt args st of None \<Rightarrow> None | Some st' \<Rightarrow> out_calls cs st')"

section \<open>The parts of a plan\<close>

definition print_env :: "hm_project \<Rightarrow> out_call list" where
  "print_env p =
     [(''install-env: [HACMAN_NAME,HACMAN_URL,HACMAN_CHECK,HACMAN_VERSION,HACMAN_PREVIOUS'', [])] @
     (if p_check p \<noteq> HM_CHECK_ETAG then [('',HACMAN_RESPONSE'', [])] else []) @
     [('']'' @ [LF], [])]"

definition print_check :: "hm_project \<Rightarrow> out_call list" where
  "print_check p =
     (''check: %s'' @ [LF], [AStr (Some (hm_check_name (p_check p)))]) #
     (case p_check p of
        HM_CHECK_ETAG \<Rightarrow>
          [(''request: HEAD %S'' @ [LF], [ASlice (p_url p)]),
           (''compare: the ETag header, or Last-Modified when absent'' @ [LF], [])]
      | HM_CHECK_HASH \<Rightarrow>
          [(''request: GET %S'' @ [LF], [ASlice (p_url p)]),
           (''compare: an XXH3 hash of the whole response body'' @ [LF], [])]
      | HM_CHECK_VERSION \<Rightarrow>
          [(''version-prefix: %S'' @ [LF], [ASlice (p_version_prefix p)])] @
          (if length (p_version_suffix p) > 0
           then [(''version-suffix: %S'' @ [LF], [ASlice (p_version_suffix p)])] else []) @
          [(''request: GET %S'' @ [LF], [ASlice (p_url p)])] @
          (if length (p_version_suffix p) > 0
           then [(''compare: the text between version-prefix and version-suffix'' @ [LF], [])]
           else [(''compare: the text from version-prefix to the end of that line'' @ [LF], [])]))"

text \<open>The loop bodies over the lines of a block; \<open>lead\<close> is the spaces in front of a non-empty one.\<close>

definition print_line :: "string \<Rightarrow> string \<Rightarrow> out_call" where
  "print_line lead l = (if length l = 0 then ([LF], []) else (lead @ ''%S'' @ [LF], [ASlice l]))"

definition print_install :: "string \<Rightarrow> hm_project \<Rightarrow> out_call list" where
  "print_install shell p =
     (if length (p_install p) = 0
      then [(''install: (none - a change would only be reported)'' @ [LF], [])]
      else
        [(''install-shell: %s -e <script>'' @ [LF], [AStr (Some shell)])] @
        print_env p @
        [(''install: |'' @ [LF], [])] @
        map (print_line ''  '') (collect (hm_install_next_line p) (length (p_install p)) 0))"

definition print_file :: "hm_embedded_file \<Rightarrow> out_call list" where
  "print_file f =
     (''  %S: |'' @ [LF], [ASlice (ef_path f)]) #
     map (print_line ''    '') (collect (hm_file_next_line f) (length (ef_content f)) 0)"

definition print_files :: "hm_project \<Rightarrow> hm_cache \<Rightarrow> out_call list" where
  "print_files p c =
     (if length (p_files p) = 0 then []
      else
        [(''files-dir: %s'' @ [LF], [AStr (Some (k_workdir c))]),
         (''files-written: before command execution'' @ [LF], []),
         (''files:'' @ [LF], [])] @
        concat (map print_file (p_files p)))"

definition print_sandbox :: "hm_project \<Rightarrow> hm_cache \<Rightarrow> out_call list" where
  "print_sandbox p c =
     (if p_sandboxed p then
        (''sandbox-write-dir: %s'' @ [LF], [AStr (Some (k_workdir c))]) #
        (if length (p_write_dirs p) > 0
         then (''sandbox-write-dirs:'' @ [LF], []) #
              map (\<lambda>d. (''  - %s'' @ [LF], [AStr (Some (wd_path d))])) (p_write_dirs p)
         else [])
      else [])"

definition print_schedule :: "hm_project \<Rightarrow> out_call list" where
  "print_schedule p =
     (let sched = (''schedule: %s'' @ [LF], [AStr (Some (hm_sched_describe p 32))])
      in if length (p_files p) > 0 then
           [(''cache-policy: input path, command, and embedded-file contents'' @ [LF], []),
            (''workdir-policy: stable per input path, cleared when inputs change'' @ [LF], [])] @
           (if \<not> p_schedule_explicit p \<or> p_sched_kind p = HM_SCHED_NEVER
            then [(''check-when: inputs change, cached executable is missing, or with --force'' @ [LF], [])]
            else
              [sched,
               (if p_sched_kind p = HM_SCHED_ALWAYS
                then (''check-when: inputs change, cached executable is missing, or on every invocation'' @ [LF], [])
                else (''check-when: inputs change, cached executable is missing, or %u seconds after the last run'' @ [LF],
                      [AULong (of_int (p_sched_interval p))]))])
         else
           [sched,
            (case p_sched_kind p of
               HM_SCHED_ALWAYS \<Rightarrow> (''check-when: on every invocation'' @ [LF], [])
             | HM_SCHED_NEVER \<Rightarrow> (''check-when: only with --force'' @ [LF], [])
             | HM_SCHED_EVERY \<Rightarrow>
                 (''check-when: %u seconds after the last run'' @ [LF], [AULong (of_int (p_sched_interval p))]))])"

definition print_bin :: "hm_project \<Rightarrow> out_call list" where
  "print_bin p =
     (if p_bin_path p \<noteq> [] then
        (if p_bin_choice p = HM_BIN_NAMED then [(''bin-name: %S'' @ [LF], [ASlice (p_bin_name p)])] else []) @
        (if p_bin_choice p = HM_BIN_DEFAULT
         then [(''bin-name: %S (default)'' @ [LF], [ASlice (p_bin_name p)])] else []) @
        [(''bin-path: %s'' @ [LF], [AStr (Some (p_bin_path p))]),
         (''exec: bin-path, with every argument that followed FILE'' @ [LF], [])]
      else [])"

definition plan_calls :: "string \<Rightarrow> hm_project \<Rightarrow> hm_cache \<Rightarrow> out_call list" where
  "plan_calls shell p c =
     [(''name: %S'' @ [LF], [ASlice (p_name p)]),
      (''sandboxed: %s'' @ [LF], [AStr (Some (if p_sandboxed p then ''true'' else ''false''))])] @
     print_sandbox p c @
     (if p_kind p = HM_KIND_COMMAND then
        [(''command: %S'' @ [LF], [ASlice (p_command p)]),
         (''workdir: %s'' @ [LF], [AStr (Some (k_workdir c))]),
         (''run: %s -c <command>, in workdir'' @ [LF], [AStr (Some shell)]),
         (''record-when: the command exits 0'' @ [LF], [])] @
        print_files p c
      else (''url: %S'' @ [LF], [ASlice (p_url p)]) # print_check p) @
     print_schedule p @
     [(''cache-identity: %s'' @ [LF], [AStr (Some (k_identity c))]),
      (''cache-file: %s'' @ [LF], [AStr (Some (k_path c))])] @
     print_bin p @
     (if p_kind p = HM_KIND_URL then print_install shell p else [])"

definition hm_plan_print :: "string \<Rightarrow> hm_project \<Rightarrow> hm_cache \<Rightarrow> out_state \<Rightarrow> out_state option" where
  "hm_plan_print shell p c st = out_calls (plan_calls shell p c) st"

section \<open>Every call is well typed\<close>

definition typed :: "out_call \<Rightarrow> bool" where
  "typed c \<longleftrightarrow> vformat_ref (fst c) (snd c) \<noteq> None \<and> list_all long_arg_ok (snd c)"

definition call_text :: "out_call \<Rightarrow> string" where
  "call_text c = take HM_LINE_CAP (the (vformat_ref (fst c) (snd c)))"

lemma out_typed: "typed (fmt, args) \<Longrightarrow> hm_out fmt args st = Some (hm_out_line (call_text (fmt, args)) st)"
  using vformat_loop_ref [of fmt args _ "[]" HM_LINE_CAP]
  by (auto simp: typed_def call_text_def hm_out_def hm_vformat_def)

lemma out_calls_typed: "list_all typed cs \<Longrightarrow> out_calls cs st = Some (fold hm_out_line (map call_text cs) st)"
  by (induction cs arbitrary: st) (auto simp: out_typed)

lemma typed_print_line: "typed (print_line ''  '' l)" "typed (print_line ''    '' l)"
  by (simp_all add: print_line_def typed_def conv_ref_def long_arg_ok_def)

lemma typed_lines: "list_all typed (map (print_line ''  '') ls)" "list_all typed (map (print_line ''    '') ls)"
  by (simp_all add: list_all_iff typed_print_line)

lemma typed_check: "list_all typed (print_check p)"
  by (cases "p_check p") (simp_all add: print_check_def typed_def conv_ref_def long_arg_ok_def)

lemma typed_env: "list_all typed (print_env p)"
  by (simp add: print_env_def typed_def)

lemma typed_install: "list_all typed (print_install shell p)"
  by (simp add: print_install_def typed_lines typed_env) (simp add: typed_def conv_ref_def long_arg_ok_def)

lemma typed_files: "list_all typed (print_files p c)"
proof -
  have "list_all typed (print_file f)" for f
    by (simp add: print_file_def typed_lines) (simp add: typed_def conv_ref_def long_arg_ok_def)
  then have "list_all typed (concat (map print_file fs))" for fs by (induction fs) simp_all
  then show ?thesis
    by (simp add: print_files_def) (simp add: typed_def conv_ref_def long_arg_ok_def)
qed

lemma typed_schedule: "list_all typed (print_schedule p)"
  by (cases "p_sched_kind p") (simp_all add: print_schedule_def Let_def typed_def conv_ref_def long_arg_ok_def)

lemma typed_bin: "list_all typed (print_bin p)"
  by (simp add: print_bin_def typed_def conv_ref_def long_arg_ok_def)

lemma typed_sandbox: "list_all typed (print_sandbox p c)"
  by (auto simp: print_sandbox_def typed_def conv_ref_def long_arg_ok_def list_all_iff)

lemma typed_plan: "list_all typed (plan_calls shell p c)"
  by (simp add: plan_calls_def typed_check typed_install typed_files typed_schedule typed_bin typed_sandbox)
    (simp add: typed_def conv_ref_def long_arg_ok_def)

lemma call_text_fits: "length (call_text c) \<le> HM_OUT_CAP"
  by (simp add: call_text_def hm_limits)

lemma plan_fold: "hm_plan_print shell p c st = Some (fold hm_out_line (map call_text (plan_calls shell p c)) st)"
  by (simp add: hm_plan_print_def out_calls_typed typed_plan)

section \<open>A printed block read again\<close>

lemma text_lines_terminated:
  "list_all (\<lambda>l. LF \<notin> set l) ls \<Longrightarrow> text_lines (concat (map (\<lambda>l. l @ [LF]) ls)) = ls"
  by (induction ls) (auto simp: text_lines_sep, simp add: text_lines_def)

lemma printed_line_text:
  "length l + length lead < HM_LINE_CAP \<Longrightarrow> set lead = {CHR '' ''} \<Longrightarrow>
   call_text (print_line lead l) = indent_line (length lead) l @ [LF]"
proof -
  assume a: "length l + length lead < HM_LINE_CAP" "set lead = {CHR '' ''}"
  have "vformat_ref (lead @ ''%S'' @ [LF]) [ASlice l] = Some (lead @ l @ [LF])"
    if "set lead \<subseteq> {CHR '' ''}" for l lead
    using that by (induction lead) (simp_all add: conv_ref_def)
  note v = this [of lead l]
  have "lead = replicate (length lead) (CHR '' '')" using a(2) by (metis replicate_eqI singletonD)
  with v a show ?thesis by (auto simp: call_text_def print_line_def indent_line_def hm_limits)
qed

text \<open>The text a block of lines is printed as, read back with the same indentation.\<close>

definition block_of :: "nat \<Rightarrow> string \<Rightarrow> hm_embedded_file" where
  "block_of n s = \<lparr>ef_path = [], ef_content = s, ef_content_indent = n, ef_line = 0\<rparr>"

lemma printed_block_reads_back:
  assumes "list_all (\<lambda>l. length l + length lead < HM_LINE_CAP \<and> LF \<notin> set l) ls" "set lead = {CHR '' ''}"
  shows "block_lines (block_of (length lead) (concat (map (call_text \<circ> print_line lead) ls))) = ls"
proof -
  let ?ind = "indent_line (length lead)"
  have eq: "map (call_text \<circ> print_line lead) ls = map (\<lambda>l. l @ [LF]) (map ?ind ls)"
    using assms by (auto simp: list_all_iff printed_line_text)
  have "list_all (\<lambda>l. LF \<notin> set l) (map ?ind ls)"
    using assms(1) set_indent_line [of "length lead"] by (fastforce simp: list_all_iff)
  then show ?thesis
    by (simp only: eq block_lines_def block_of_def hm_embedded_file.simps text_lines_terminated)
      (simp add: strip_indent_line o_def)
qed

lemma install_lines_no_LF: "l \<in> set (collect (hm_install_next_line p) k cur) \<Longrightarrow> LF \<notin> set l"
  unfolding hm_install_next_line_def by (rule file_lines.collect_lines)

lemma plan_ends_with_script:
  assumes "p_kind p = HM_KIND_URL" "p_install p \<noteq> []"
  shows "\<exists>pre. concat (map call_text (plan_calls shell p c)) = pre @ ''install: |'' @ LF #
    concat (map (call_text \<circ> print_line ''  '') (collect (hm_install_next_line p) (length (p_install p)) 0))"
proof -
  have "call_text (''install: |'' @ [LF], []) = ''install: |'' @ [LF]" by (simp add: call_text_def hm_limits)
  then show ?thesis
    using assms by (simp add: plan_calls_def print_install_def o_def)
qed

section \<open>Properties\<close>


definition sample_script :: hm_project where
  "sample_script = (project_defaults 1)\<lparr>p_url := ''https://e.org'', p_install := ''  if x'' @ LF # ''    y'', p_install_indent := 2\<rparr>"


text \<open>
  The plan does not show longer lines. An install block with a line of 4094 characters, which the
  parser accepts, is printed with that line's newline cut off, so that the next line of the script
  appears as part of it.
\<close>
theorem plan_merges_long_line:
  "\<exists>pre. let p = (project_defaults 1)\<lparr>p_install := replicate 4094 (CHR ''x'') @ LF # ''y''\<rparr>
   in collect (hm_install_next_line p) (length (p_install p)) 0 = [replicate 4094 (CHR ''x''), ''y''] \<and>
      concat (map call_text (plan_calls shell p c)) =
        pre @ ''install: |'' @ LF # ''  '' @ replicate 4094 (CHR ''x'') @ ''  y'' @ [LF]"
proof -
  let ?x = "replicate 4094 (CHR ''x'')"
  let ?p = "(project_defaults 1)\<lparr>p_install := ?x @ LF # ''y''\<rparr>"
  have "collect (hm_install_next_line ?p) (length (p_install ?p)) 0 = block_lines (install_block ?p)"
    using collect_block_lines [of "install_block ?p"] unfolding hm_install_next_line_def
    by (simp add: install_block_def)
  also have "\<dots> = [?x, ''y'']"
    by (simp add: block_lines_def install_block_def text_lines_sep text_lines_no_sep project_defaults_def)
  finally have l: "collect (hm_install_next_line ?p) (length (p_install ?p)) 0 = [?x, ''y'']" .
  have x: "call_text (print_line ''  '' ?x) = ''  '' @ ?x"
    by (simp add: call_text_def print_line_def conv_ref_def hm_limits)
  have y: "call_text (print_line ''  '' ''y'') = ''  y'' @ [LF]"
    by (simp add: call_text_def print_line_def conv_ref_def hm_limits)
  from plan_ends_with_script [of ?p shell c] show ?thesis
    unfolding Let_def l list.map o_apply x y by (auto simp: project_defaults_def)
qed

end
