(* ===== verification/HM_Signals.thy ===== *)
theory HM_Signals
  imports HM_Env
begin

text \<open>
  The signal half of \<^verbatim>\<open>src/install.c\<close> and the environment calls of a setup child. While setup runs,
  the four termination signals are recorded and passed on to the child (\<open>forward_signal\<close>,
  \<open>forward_signals_begin\<close>, \<open>forward_signals_to\<close>, \<open>forward_signals_end\<close>); the static variables
  \<open>saved_actions\<close>, \<open>forwarding\<close>, \<open>setup_child\<close>, \<open>setup_signal\<close> and the process's dispositions are the
  record \<open>sig_state\<close>, with the \<open>kill(2)\<close> calls made so far. \<open>setenv\<close> and \<open>unsetenv\<close> work on the list
  of entries of \<open>environ\<close>; the locale \<open>environment\<close> is what a caller may expect of them.
\<close>

section \<open>Signals\<close>

datatype disposition = SigDefault | SigIgnore | SigForward

record sig_state =
  sg_action :: "nat \<Rightarrow> disposition"
  sg_saved :: "nat \<Rightarrow> disposition"
  sg_forwarding :: "nat \<Rightarrow> bool"
  sg_child :: nat
  sg_signal :: nat
  sg_sent :: "(nat \<times> nat) list"

text \<open>\<^verbatim>\<open>SIGHUP\<close>, \<^verbatim>\<open>SIGINT\<close>, \<^verbatim>\<open>SIGQUIT\<close>, \<^verbatim>\<open>SIGTERM\<close>.\<close>

definition forwarded_signals :: "nat list" where
  "forwarded_signals = [1, 2, 3, 15]"

definition kill :: "nat \<Rightarrow> nat \<Rightarrow> sig_state \<Rightarrow> sig_state" where
  "kill pid sig s = s\<lparr>sg_sent := sg_sent s @ [(pid, sig)]\<rparr>"

text \<open>The handler; \<open>alone\<close>: \<open>si_code\<close> says that the signal was sent to this process by another one.\<close>

definition forward_signal :: "nat \<Rightarrow> bool \<Rightarrow> sig_state \<Rightarrow> sig_state" where
  "forward_signal sig alone s =
     (let s1 = s\<lparr>sg_signal := sig\<rparr>
      in if sg_child s1 > 0 \<and> alone then kill (sg_child s1) sig s1 else s1)"

text \<open>A signal arrives: the handler runs if it is installed. (Otherwise it is ignored or kills hacman.)\<close>

definition arrive :: "nat \<times> bool \<Rightarrow> sig_state \<Rightarrow> sig_state" where
  "arrive a s = (if sg_action s (fst a) = SigForward then forward_signal (fst a) (snd a) s else s)"

text \<open>\<open>ok\<close>: which calls of \<^verbatim>\<open>sigaction\<close> succeed.\<close>

fun begin_each :: "(nat \<Rightarrow> bool) \<Rightarrow> nat list \<Rightarrow> sig_state \<Rightarrow> sig_state" where
  "begin_each ok [] s = s"
| "begin_each ok (i # is) s =
     (let s1 = s\<lparr>sg_forwarding := (sg_forwarding s)(i := False)\<rparr>
      in if \<not> ok i then begin_each ok is s1
         else
           (let s2 = s1\<lparr>sg_saved := (sg_saved s1)(i := sg_action s1 i)\<rparr>
            in if sg_saved s2 i = SigIgnore then begin_each ok is s2
               else begin_each ok is (s2\<lparr>sg_action := (sg_action s2)(i := SigForward),
                                        sg_forwarding := (sg_forwarding s2)(i := True)\<rparr>)))"

definition forward_signals_begin :: "(nat \<Rightarrow> bool) \<Rightarrow> sig_state \<Rightarrow> sig_state" where
  "forward_signals_begin ok s = begin_each ok forwarded_signals (s\<lparr>sg_child := 0, sg_signal := 0\<rparr>)"

fun end_each :: "nat list \<Rightarrow> sig_state \<Rightarrow> sig_state" where
  "end_each [] s = s"
| "end_each (i # is) s =
     end_each is
       ((if sg_forwarding s i then s\<lparr>sg_action := (sg_action s)(i := sg_saved s i)\<rparr> else s)
         \<lparr>sg_forwarding := (sg_forwarding s)(i := False)\<rparr>)"

definition forward_signals_end :: "sig_state \<Rightarrow> sig_state" where
  "forward_signals_end s = end_each forwarded_signals (s\<lparr>sg_child := 0\<rparr>)"

definition forward_signals_to :: "nat \<Rightarrow> sig_state \<Rightarrow> sig_state" where
  "forward_signals_to child s =
     (let s1 = s\<lparr>sg_child := child\<rparr>
      in if sg_signal s1 \<noteq> 0 then kill child (sg_signal s1) s1 else s1)"

text \<open>\<^verbatim>\<open>forward_signals_reraise\<close>: the signal hacman dies from, if one arrived.\<close>

definition forward_signals_reraise :: "sig_state \<Rightarrow> nat option" where
  "forward_signals_reraise s = (if sg_signal s = 0 then None else Some (sg_signal s))"

text \<open>
  The child's first step: its own dispositions, and what stops it there (\<open>Inl sig\<close>: a signal it
  raises itself that is not ignored, \<open>Inr\<close>: the return value).
\<close>

definition child_signals_init :: "bool \<Rightarrow> bool \<Rightarrow> sig_state \<Rightarrow> (nat + int) \<times> sig_state" where
  "child_signals_init prctl_ok parent_alive s =
     (let s1 = forward_signals_end s
      in if sg_signal s1 \<noteq> 0 \<and> sg_action s1 (sg_signal s1) \<noteq> SigIgnore then (Inl (sg_signal s1), s1)
         else if \<not> prctl_ok then (Inr 0, s1)
         else if \<not> parent_alive then (Inr (-1), s1)
         else (Inr 0, s1))"

section \<open>The environment\<close>

definition entry_of :: "string \<Rightarrow> string \<Rightarrow> bool" where
  "entry_of key e \<longleftrightarrow> starts_with (key @ ''='') e"

text \<open>\<open>setenv(key, value, 1)\<close>: the first entry is replaced, a missing one appended.\<close>

fun setenv :: "string \<Rightarrow> string \<Rightarrow> string list \<Rightarrow> string list" where
  "setenv key val [] = [key @ ''='' @ val]"
| "setenv key val (e # es) = (if entry_of key e then (key @ ''='' @ val) # es else e # setenv key val es)"

definition unsetenv :: "string \<Rightarrow> string list \<Rightarrow> string list" where
  "unsetenv key es = filter (\<lambda>e. \<not> entry_of key e) es"

definition env_key :: "string \<Rightarrow> bool" where
  "env_key key \<longleftrightarrow> key \<noteq> [] \<and> CHR ''='' \<notin> set key"

locale environment =
  fixes get :: "'e \<Rightarrow> string \<Rightarrow> string option"
    and set_var :: "string \<Rightarrow> string \<Rightarrow> 'e \<Rightarrow> 'e"
    and unset_var :: "string \<Rightarrow> 'e \<Rightarrow> 'e"
    and key :: "string \<Rightarrow> bool"
  assumes get_set: "key k \<Longrightarrow> key l \<Longrightarrow> get (set_var k v e) l = (if l = k then Some v else get e l)"
    and get_unset: "key k \<Longrightarrow> key l \<Longrightarrow> get (unset_var k e) l = (if l = k then None else get e l)"
begin

text \<open>A list of settings, \<open>None\<close> removing a variable, performed in order.\<close>

definition apply_vars :: "(string \<times> string option) list \<Rightarrow> 'e \<Rightarrow> 'e" where
  "apply_vars xs e = fold (\<lambda>(k, v) e. case v of None \<Rightarrow> unset_var k e | Some v \<Rightarrow> set_var k v e) xs e"

lemma get_apply_vars:
  "list_all (key \<circ> fst) xs \<Longrightarrow> key l \<Longrightarrow>
   get (apply_vars xs e) l = (case map_of (rev xs) l of None \<Rightarrow> get e l | Some v \<Rightarrow> v)"
proof (induction xs arbitrary: e)
  case Nil
  then show ?case by (simp add: apply_vars_def)
next
  case (Cons x xs)
  obtain k v where x: "x = (k, v)" by fastforce
  then have "get (case v of None \<Rightarrow> unset_var k e | Some v \<Rightarrow> set_var k v e) l = (if l = k then v else get e l)"
    using Cons.prems by (cases v) (simp_all add: get_set get_unset)
  with Cons x show ?case
    by (auto simp: apply_vars_def map_add_def split: option.split)
qed

end

lemma entry_other: "env_key k \<Longrightarrow> env_key l \<Longrightarrow> k \<noteq> l \<Longrightarrow> entry_of k e \<Longrightarrow> \<not> entry_of l e"
proof
  assume k: "env_key k" and l: "env_key l" and "k \<noteq> l" "entry_of k e" "entry_of l e"
  then have "\<exists>s. e = (k @ ''='') @ s" "\<exists>t. e = (l @ ''='') @ t"
    unfolding entry_of_def by (blast dest: starts_withD)+
  then obtain s t where "(k @ ''='') @ s = (l @ ''='') @ t" by auto
  then have "k @ CHR ''='' # s = l @ CHR ''='' # t" by simp
  moreover have "takeWhile (\<lambda>c. c \<noteq> CHR ''='') (m @ CHR ''='' # u) = m" if "env_key m" for m u
    using that by (subst takeWhile_append2) (auto simp: env_key_def)
  ultimately have "k = l" using k l by metis
  with \<open>k \<noteq> l\<close> show False ..
qed

lemma entry_of_own: "entry_of k (k @ CHR ''='' # v)"
  by (simp add: entry_of_def starts_with_def)

lemma getenv_first: "env_key k \<Longrightarrow> getenv es k = first_entry k es"
  by (auto simp: getenv_def env_key_def)

lemma first_entry_set:
  assumes "env_key k" "env_key l"
  shows "first_entry l (setenv k v es) = (if l = k then Some v else first_entry l es)"
proof -
  have own: "starts_with (k @ ''='') (k @ CHR ''='' # v)" by (simp add: starts_with_def)
  have other: "l \<noteq> k \<Longrightarrow> \<not> starts_with (l @ ''='') (k @ CHR ''='' # v)"
    using entry_other [OF assms _ entry_of_own] by (auto simp: entry_of_def)
  show ?thesis
  proof (induction es)
    case (Cons e es)
    have "entry_of k e \<Longrightarrow> l \<noteq> k \<Longrightarrow> \<not> starts_with (l @ ''='') e"
      using entry_other [OF assms] by (auto simp: entry_of_def)
    with Cons own other show ?case by (auto simp: entry_of_def)
  qed (use own other in auto)
qed

lemma first_entry_unset:
  assumes "env_key k" "env_key l"
  shows "first_entry l (unsetenv k es) = (if l = k then None else first_entry l es)"
proof (induction es)
  case (Cons e es)
  have "entry_of k e \<Longrightarrow> l \<noteq> k \<Longrightarrow> \<not> starts_with (l @ ''='') e"
    using entry_other [OF assms] by (auto simp: entry_of_def)
  with Cons show ?case by (auto simp: entry_of_def unsetenv_def)
qed (simp add: unsetenv_def)

interpretation environ: environment getenv setenv unsetenv env_key
  by unfold_locales (simp_all add: getenv_first first_entry_set first_entry_unset)

section \<open>What the handlers do\<close>

text \<open>Signals that are forwarded: asked for, installed, and not ignored from the start.\<close>

definition live :: "(nat \<Rightarrow> bool) \<Rightarrow> sig_state \<Rightarrow> nat \<Rightarrow> bool" where
  "live ok s i \<longleftrightarrow> i \<in> set forwarded_signals \<and> ok i \<and> sg_action s i \<noteq> SigIgnore"

text \<open>One round of the installing loop.\<close>

definition begin_one :: "(nat \<Rightarrow> bool) \<Rightarrow> nat \<Rightarrow> sig_state \<Rightarrow> sig_state" where
  "begin_one ok i s =
     (let lv = (ok i \<and> sg_action s i \<noteq> SigIgnore)
      in s\<lparr>sg_action := (if lv then (sg_action s)(i := SigForward) else sg_action s),
           sg_saved := (if ok i then (sg_saved s)(i := sg_action s i) else sg_saved s),
           sg_forwarding := (sg_forwarding s)(i := lv)\<rparr>)"

lemma begin_each_Cons: "begin_each ok (i # is) s = begin_each ok is (begin_one ok i s)"
  by (cases s; cases "ok i"; cases "sg_action s i = SigIgnore") (simp_all add: begin_one_def Let_def)

lemma begin_each_eq:
  "distinct is \<Longrightarrow>
   sg_action (begin_each ok is s) i = (if i \<in> set is \<and> ok i \<and> sg_action s i \<noteq> SigIgnore then SigForward else sg_action s i) \<and>
   sg_forwarding (begin_each ok is s) i = (if i \<in> set is then ok i \<and> sg_action s i \<noteq> SigIgnore else sg_forwarding s i) \<and>
   sg_saved (begin_each ok is s) i = (if i \<in> set is \<and> ok i then sg_action s i else sg_saved s i) \<and>
   sg_child (begin_each ok is s) = sg_child s \<and> sg_signal (begin_each ok is s) = sg_signal s \<and>
   sg_sent (begin_each ok is s) = sg_sent s"
proof (induction "is" arbitrary: s)
  case (Cons j js)
  have f: "sg_child (begin_one ok j s) = sg_child s" "sg_signal (begin_one ok j s) = sg_signal s"
    "sg_sent (begin_one ok j s) = sg_sent s"
    "sg_action (begin_one ok j s) i = (if i = j \<and> ok i \<and> sg_action s i \<noteq> SigIgnore then SigForward else sg_action s i)"
    "sg_forwarding (begin_one ok j s) i = (if i = j then ok i \<and> sg_action s i \<noteq> SigIgnore else sg_forwarding s i)"
    "sg_saved (begin_one ok j s) i = (if i = j \<and> ok i then sg_action s i else sg_saved s i)"
    by (auto simp: begin_one_def Let_def)
  from Cons show ?case
    using Cons.IH [of "begin_one ok j s"] unfolding begin_each_Cons f by auto
qed simp

lemma begin_eq:
  "sg_action (forward_signals_begin ok s) i = (if live ok s i then SigForward else sg_action s i)"
  "i \<in> set forwarded_signals \<Longrightarrow> sg_forwarding (forward_signals_begin ok s) i = live ok s i"
  "live ok s i \<Longrightarrow> sg_saved (forward_signals_begin ok s) i = sg_action s i"
  "sg_child (forward_signals_begin ok s) = 0" "sg_signal (forward_signals_begin ok s) = 0"
  "sg_sent (forward_signals_begin ok s) = sg_sent s"
  using begin_each_eq [of forwarded_signals ok "s\<lparr>sg_child := 0, sg_signal := 0\<rparr>" i]
  by (auto simp: forward_signals_begin_def live_def forwarded_signals_def)

lemma end_each_eq:
  "distinct is \<Longrightarrow>
   sg_action (end_each is s) i = (if i \<in> set is \<and> sg_forwarding s i then sg_saved s i else sg_action s i) \<and>
   sg_forwarding (end_each is s) i = (i \<notin> set is \<and> sg_forwarding s i) \<and>
   sg_signal (end_each is s) = sg_signal s \<and> sg_sent (end_each is s) = sg_sent s \<and> sg_saved (end_each is s) = sg_saved s"
proof (induction "is" arbitrary: s)
  case (Cons j js)
  then show ?case by auto
qed simp

lemma end_eq:
  "sg_action (forward_signals_end s) i =
     (if i \<in> set forwarded_signals \<and> sg_forwarding s i then sg_saved s i else sg_action s i)"
  "sg_forwarding (forward_signals_end s) i = (i \<notin> set forwarded_signals \<and> sg_forwarding s i)"
  "sg_signal (forward_signals_end s) = sg_signal s" "sg_sent (forward_signals_end s) = sg_sent s"
  using end_each_eq [of forwarded_signals "s\<lparr>sg_child := 0\<rparr>" i]
  by (auto simp: forward_signals_end_def forwarded_signals_def)

text \<open>The states between the two: the dispositions are the ones \<open>begin\<close> installed.\<close>

definition forwarding_from :: "(nat \<Rightarrow> bool) \<Rightarrow> sig_state \<Rightarrow> sig_state \<Rightarrow> bool" where
  "forwarding_from ok s t \<longleftrightarrow>
     sg_action t = sg_action (forward_signals_begin ok s) \<and>
     sg_forwarding t = sg_forwarding (forward_signals_begin ok s) \<and>
     sg_saved t = sg_saved (forward_signals_begin ok s)"

lemma forwarding_begin: "forwarding_from ok s (forward_signals_begin ok s)"
  by (simp add: forwarding_from_def)

lemma forwarding_arrive: "forwarding_from ok s t \<Longrightarrow> forwarding_from ok s (arrive a t)"
  by (simp add: forwarding_from_def arrive_def forward_signal_def Let_def kill_def)

lemma forwarding_arrivals: "forwarding_from ok s t \<Longrightarrow> forwarding_from ok s (fold arrive as t)"
  by (induction "as" arbitrary: t) (simp_all add: forwarding_arrive)

lemma forwarding_to: "forwarding_from ok s t \<Longrightarrow> forwarding_from ok s (forward_signals_to child t)"
  by (simp add: forwarding_from_def forward_signals_to_def Let_def kill_def)

lemma end_restores: "forwarding_from ok s t \<Longrightarrow> sg_action (forward_signals_end t) = sg_action s"
  by (rule ext) (auto simp: forwarding_from_def end_eq begin_eq live_def)

lemma end_again: "sg_action (forward_signals_end (forward_signals_end t)) = sg_action (forward_signals_end t)"
  by (rule ext) (simp add: end_eq)

text \<open>Arrivals are recorded, the last one wins, and with a child the single ones are passed on.\<close>

lemma arrivals_sent:
  assumes "forwarding_from ok s t" "\<forall>i. sg_action s i \<noteq> SigForward"
  shows "sg_child (fold arrive as t) = sg_child t \<and>
    sg_signal (fold arrive as t) = last (sg_signal t # map fst (filter (live ok s \<circ> fst) as)) \<and>
    sg_sent (fold arrive as t) = sg_sent t @
      (if sg_child t > 0 then map (\<lambda>a. (sg_child t, fst a)) (filter (\<lambda>a. live ok s (fst a) \<and> snd a) as) else [])"
  using assms(1)
proof (induction "as" arbitrary: t)
  case (Cons a as)
  have l: "sg_action t (fst a) = SigForward \<longleftrightarrow> live ok s (fst a)"
    using Cons.prems assms(2) by (simp add: forwarding_from_def begin_eq)
  from Cons.IH [OF forwarding_arrive [OF Cons.prems, of a]] show ?case
    by (simp add: arrive_def l forward_signal_def Let_def kill_def)
qed simp

lemma forwarded_all:
  assumes "\<forall>i. sg_action s i \<noteq> SigForward" "0 < child"
    and early: "early = fold arrive before (forward_signals_begin ok s)"
    and late: "late = fold arrive running (forward_signals_to child early)"
  shows "sg_sent late = sg_sent s @
      (case rev (filter (live ok s \<circ> fst) before) of [] \<Rightarrow> [] | a # _ \<Rightarrow> [(child, fst a)]) @
      map (\<lambda>a. (child, fst a)) (filter (\<lambda>a. live ok s (fst a) \<and> snd a) running) \<and>
    forward_signals_reraise (forward_signals_end late) =
      (case rev (filter (live ok s \<circ> fst) (before @ running)) of [] \<Rightarrow> None | a # _ \<Rightarrow> Some (fst a)) \<and>
    sg_action (forward_signals_end late) = sg_action s \<and>
    sg_action (forward_signals_end (forward_signals_end late)) = sg_action s"
proof -
  have pos: "live ok s i \<Longrightarrow> i \<noteq> 0" for i by (auto simp: live_def forwarded_signals_def)
  have f1: "forwarding_from ok s early" unfolding early by (rule forwarding_arrivals [OF forwarding_begin])
  have f2: "forwarding_from ok s (forward_signals_to child early)" by (rule forwarding_to [OF f1])
  have f3: "forwarding_from ok s late" unfolding late by (rule forwarding_arrivals [OF f2])
  note a1 = arrivals_sent [OF forwarding_begin [of ok s] assms(1), of before, folded early]
  note a2 = arrivals_sent [OF f2 assms(1), of running, folded late]
  have lst: "(if xs = [] then 0 else last (map fst xs)) = (case rev xs of [] \<Rightarrow> 0 | a # _ \<Rightarrow> fst a)" for xs :: "(nat \<times> bool) list"
    by (cases xs rule: rev_cases) auto
  have e: "sg_signal early = (case rev (filter (live ok s \<circ> fst) before) of [] \<Rightarrow> 0 | a # _ \<Rightarrow> fst a)"
    using a1 lst [of "filter (live ok s \<circ> fst) before"] by (simp add: begin_eq)
  have sent1: "sg_sent early = sg_sent s" using a1 by (simp add: begin_eq)
  have nz: "fst a \<noteq> 0" if "rev (filter (live ok s \<circ> fst) as) = a # xs" for a "as" xs
  proof -
    have "a \<in> set (rev (filter (live ok s \<circ> fst) as))" unfolding that by simp
    with pos show ?thesis by auto
  qed
  have to: "sg_child (forward_signals_to child early) = child" "sg_signal (forward_signals_to child early) = sg_signal early"
    "sg_sent (forward_signals_to child early) = sg_sent s @
       (case rev (filter (live ok s \<circ> fst) before) of [] \<Rightarrow> [] | a # _ \<Rightarrow> [(child, fst a)])"
    using e sent1 nz [of before]
    by (cases "rev (filter (live ok s \<circ> fst) before)";
        simp add: forward_signals_to_def Let_def kill_def)+
  have sig: "sg_signal late = (case rev (filter (live ok s \<circ> fst) (before @ running)) of [] \<Rightarrow> 0 | a # _ \<Rightarrow> fst a)"
    using a2 to(2) e by (cases "rev (filter (live ok s \<circ> fst) running)") (auto simp: last_map rev_eq_Cons_iff)
  have "forward_signals_reraise (forward_signals_end late) =
      (case rev (filter (live ok s \<circ> fst) (before @ running)) of [] \<Rightarrow> None | a # _ \<Rightarrow> Some (fst a))"
    using sig nz [of "before @ running"]
    by (cases "rev (filter (live ok s \<circ> fst) (before @ running))") (simp_all add: forward_signals_reraise_def end_eq)
  then show ?thesis
    using a2 to assms(2) end_restores [OF f3] end_again by auto
qed

section \<open>Properties\<close>

text \<open>
  C17: No termination request is lost while setup runs, and none is made up. Of the signals that are not
  ignored from the start, those that arrive before hacman knows its child (whether before or after the
  fork) are remembered, and the last of them is sent to the child as soon as it is known; every later
  one that was sent to hacman alone is passed on once, in order, and one that reached the whole process
  group is not repeated; the last one of all is what hacman dies from. Once setup is over the process's
  dispositions are exactly what they were, also when the clean-up runs twice.
\<close>
theorem termination_requests_are_forwarded:
  assumes "\<forall>i. sg_action s i \<noteq> SigForward" "0 < child"
  shows "let early = fold arrive before (forward_signals_begin ok s);
      late = fold arrive running (forward_signals_to child early)
    in sg_sent late = sg_sent s @
      (case rev (filter (live ok s \<circ> fst) before) of [] \<Rightarrow> [] | a # _ \<Rightarrow> [(child, fst a)]) @
      map (\<lambda>a. (child, fst a)) (filter (\<lambda>a. live ok s (fst a) \<and> snd a) running) \<and>
    forward_signals_reraise (forward_signals_end late) =
      (case rev (filter (live ok s \<circ> fst) (before @ running)) of [] \<Rightarrow> None | a # _ \<Rightarrow> Some (fst a)) \<and>
    sg_action (forward_signals_end late) = sg_action s \<and>
    sg_action (forward_signals_end (forward_signals_end late)) = sg_action s"
  unfolding Let_def by (rule forwarded_all [OF assms refl refl])

theorem termination_requests_are_forwarded_witness:
  "let s = \<lparr>sg_action = (\<lambda>i. if i = 1 then SigIgnore else SigDefault), sg_saved = (\<lambda>_. SigDefault),
        sg_forwarding = (\<lambda>_. False), sg_child = 0, sg_signal = 0, sg_sent = []\<rparr>;
       late = fold arrive [(1, True), (15, True), (2, False)]
         (forward_signals_to 7 (fold arrive [(1, True), (15, True)] (forward_signals_begin (\<lambda>_. True) s)))
   in sg_sent late = [(7, 15), (7, 15)] \<and> forward_signals_reraise (forward_signals_end late) = Some 2 \<and>
      sg_action (forward_signals_end late) = sg_action s"
  using termination_requests_are_forwarded
    [of "\<lparr>sg_action = (\<lambda>i. if i = 1 then SigIgnore else SigDefault), sg_saved = (\<lambda>_. SigDefault),
        sg_forwarding = (\<lambda>_. False), sg_child = 0, sg_signal = 0, sg_sent = []\<rparr>" 7
      "[(1, True), (15, True)]" "\<lambda>_. True" "[(1, True), (15, True), (2, False)]"]
  by (simp add: Let_def live_def forwarded_signals_def)

end
