(* ===== verification/HM_Setup.thy ===== *)
theory HM_Setup
  imports HM_Signals HM_Sandbox HM_Workdir HM_Output
begin

text \<open>
  Running setup, the rest of \<^verbatim>\<open>src/install.c\<close>: temporary files (\<open>make_temp\<close>, \<open>temp_file\<close>,
  \<open>capture_file\<close>), the generated script and the saved response (\<open>write_script\<close>, \<open>write_response\<close>), the
  forked child up to its \<open>exec\<close>, and the parent that supervises it (\<open>hm_install\<close>, \<open>hm_command_run\<close>).
  The child's side is a function of what the fork copies (\<open>install_child\<close>, \<open>command_child\<close>) and ends in a
  death, an exit status or the shell with its arguments, environment, directory and Landlock domain.
  \<open>ss_temps\<close> are the generated files that exist, with their contents; \<open>ss_said\<close> the lines written to
  stderr through stdio; \<open>su_run\<close> is what a shell ends with. \<^verbatim>\<open>HM_SHELL\<close> is the parameter \<open>shell\<close>.
\<close>

section \<open>The state\<close>

record shell_run =
  sr_argv :: "string list"
  sr_environ :: "string list"
  sr_cwd :: string
  sr_proc :: process

datatype child_end = ChildKilled nat | ChildExit nat | ChildShell shell_run

datatype wait_status = Exited nat | Signaled nat

datatype pipe_read = PipeData string | PipeIntr | PipeErr

record setup_os =
  su_fs :: os_env
  su_environ :: "string list"
  su_mkstemp :: "string \<Rightarrow> string list \<Rightarrow> string option"
  su_fdopen :: "string \<Rightarrow> bool"
  su_room :: "string \<Rightarrow> nat"
  su_fwrite :: "string \<Rightarrow> bool"
  su_fclose :: "string \<Rightarrow> bool"
  su_unlink :: "string \<Rightarrow> bool"
  su_pipe :: bool
  su_sigaction :: "nat \<Rightarrow> bool"
  su_fork :: "nat option"
  su_prctl :: bool
  su_parent_alive :: bool
  su_dup2 :: bool
  su_chdir :: bool
  su_sandbox :: sandbox_os
  su_exec :: bool
  su_before :: "(nat \<times> bool) list"
  su_between :: "(nat \<times> bool) list"
  su_running :: "(nat \<times> bool) list"
  su_wait :: bool
  su_killed :: "nat option"
  su_run :: "shell_run \<Rightarrow> wait_status"
  su_lseek :: bool
  su_reads :: "pipe_read list"
  su_error :: string

record setup_state =
  ss_files :: files
  ss_temps :: "(string \<times> string) list"
  ss_out :: out_state
  ss_said :: "string list"
  ss_sig :: sig_state
  ss_proc :: process
  ss_child :: "child_end option"

definition say :: "string \<Rightarrow> setup_state \<Rightarrow> setup_state" where
  "say line st = st\<lparr>ss_said := ss_said st @ [''hacman: '' @ line]\<rparr>"

section \<open>Temporary files\<close>

definition HM_TEMP_PATH_MAX :: nat where [hm_limits]: "HM_TEMP_PATH_MAX = 2110"

definition tmpdir :: "setup_os \<Rightarrow> string" where
  "tmpdir os =
     (case getenv (su_environ os) ''TMPDIR'' of
        Some dir \<Rightarrow> if dir \<noteq> [] then dir else ''/tmp''
      | None \<Rightarrow> ''/tmp'')"

definition temp_in :: "setup_os \<Rightarrow> string \<Rightarrow> string \<Rightarrow> setup_state \<Rightarrow> string option" where
  "temp_in os what dir st =
     (let template = dir @ ''/hacman-'' @ what @ ''-XXXXXX''
      in if length template \<ge> HM_TEMP_PATH_MAX then None
         else su_mkstemp os template (map fst (ss_temps st)))"

definition make_temp :: "setup_os \<Rightarrow> string \<Rightarrow> setup_state \<Rightarrow> string option \<times> setup_state" where
  "make_temp os what st =
     (let dir = tmpdir os;
          made = (case temp_in os what dir st of
                    Some path \<Rightarrow> Some path
                  | None \<Rightarrow> if dir = ''/tmp'' then None else temp_in os what ''/tmp'' st)
      in case made of
           Some path \<Rightarrow> (Some path, st\<lparr>ss_temps := (path, []) # ss_temps st\<rparr>)
         | None \<Rightarrow>
             (None, say (''cannot create temporary '' @ what @ '' file in '' @ dir @ '': '' @ su_error os) st))"

definition drop_temp :: "setup_os \<Rightarrow> string \<Rightarrow> setup_state \<Rightarrow> setup_state" where
  "drop_temp os path st =
     (if su_unlink os path then st\<lparr>ss_temps := filter (\<lambda>(q, _). q \<noteq> path) (ss_temps st)\<rparr> else st)"

text \<open>What is written reaches the disk as far as there is room.\<close>

definition put_temp :: "setup_os \<Rightarrow> string \<Rightarrow> string \<Rightarrow> setup_state \<Rightarrow> setup_state" where
  "put_temp os path text st =
     st\<lparr>ss_temps := map (\<lambda>(q, s). if q = path then (q, take (su_room os path) text) else (q, s)) (ss_temps st)\<rparr>"

definition temp_file :: "setup_os \<Rightarrow> string \<Rightarrow> setup_state \<Rightarrow> string option \<times> setup_state" where
  "temp_file os what st =
     (case make_temp os what st of
        (None, st1) \<Rightarrow> (None, st1)
      | (Some path, st1) \<Rightarrow>
          if su_fdopen os path then (Some path, st1)
          else (None, drop_temp os path (say (path @ '': fdopen failed'') st1)))"

text \<open>Whether there is a capture file (already unlinked) to send the child's output to.\<close>

definition capture_file :: "setup_os \<Rightarrow> bool \<Rightarrow> setup_state \<Rightarrow> bool \<times> setup_state" where
  "capture_file os trace st =
     (if trace then (False, st)
      else
        (case make_temp os ''capture'' st of
           (None, st1) \<Rightarrow> (False, st1)
         | (Some path, st1) \<Rightarrow>
             let st2 = drop_temp os path st1
             in if su_fdopen os path then (True, st2)
                else (False, say (''cannot create setup-output capture: '' @ su_error os) st2)))"

definition script_text :: "string \<Rightarrow> hm_project \<Rightarrow> string" where
  "script_text shell p =
     ''#!'' @ shell @ [LF] @ file_text (collect (hm_install_next_line p) (length (p_install p)) 0)"

definition write_script :: "setup_os \<Rightarrow> string \<Rightarrow> hm_project \<Rightarrow> string \<Rightarrow> setup_state \<Rightarrow> bool \<times> setup_state" where
  "write_script os shell p path st =
     (let st1 = put_temp os path (script_text shell p) st
      in if su_fclose os path then (True, st1) else (False, say (path @ '': cannot write script'') st1))"

definition write_response :: "setup_os \<Rightarrow> string \<Rightarrow> setup_state \<Rightarrow> string option \<times> setup_state" where
  "write_response os body st =
     (if length body = 0 then (None, st)
      else
        (case temp_file os ''response'' st of
           (None, st1) \<Rightarrow> (None, st1)
         | (Some path, st1) \<Rightarrow>
             let st2 = put_temp os path body st1
             in if su_fwrite os path then (Some path, st2) else (None, st2)))"

section \<open>The output of setup\<close>

fun relay_loop :: "pipe_read list \<Rightarrow> out_state \<Rightarrow> out_state" where
  "relay_loop [] ost = ost"
| "relay_loop (PipeData s # r) ost = (if s = [] then ost else relay_loop r (hm_err_bytes s ost))"
| "relay_loop (PipeIntr # r) ost = relay_loop r ost"
| "relay_loop (PipeErr # r) ost = ost"

definition relay_setup_stderr :: "pipe_read list \<Rightarrow> out_state \<Rightarrow> out_state" where
  "relay_setup_stderr reads ost = hm_err_stream_end (relay_loop reads ost)"

fun replay_loop :: "pipe_read list \<Rightarrow> out_state \<Rightarrow> out_state" where
  "replay_loop (PipeData s # r) ost = (if s = [] then ost else replay_loop r (hm_err_bytes s ost))"
| "replay_loop _ ost = ost"

definition replay_capture :: "setup_os \<Rightarrow> bool \<Rightarrow> setup_state \<Rightarrow> setup_state" where
  "replay_capture os capture st =
     (if capture \<and> su_lseek os
      then st\<lparr>ss_out := hm_err_stream_end (replay_loop (su_reads os) (ss_out st))\<rparr> else st)"

section \<open>The child\<close>

definition child_prelude :: "setup_os \<Rightarrow> bool \<Rightarrow> bool \<Rightarrow> sig_state \<Rightarrow> child_end option" where
  "child_prelude os trace capture sig =
     (case fst (child_signals_init (su_prctl os) (su_parent_alive os) sig) of
        Inl s \<Rightarrow> Some (ChildKilled s)
      | Inr r \<Rightarrow>
          if r \<noteq> 0 then Some (ChildExit 126)
          else if (trace \<or> capture) \<and> \<not> su_dup2 os then Some (ChildExit 126)
          else None)"

definition set_vars :: "(string \<times> string option) list \<Rightarrow> string list \<Rightarrow> string list" where
  "set_vars xs es = fold (\<lambda>(k, v) e. case v of None \<Rightarrow> unsetenv k e | Some v \<Rightarrow> setenv k v e) xs es"

text \<open>The sandbox, if any, and the shell.\<close>

definition run_shell ::
  "setup_os \<Rightarrow> hm_project \<Rightarrow> string list \<Rightarrow> string list \<Rightarrow> string \<Rightarrow> string \<Rightarrow> process \<Rightarrow> child_end" where
  "run_shell os p argv environ workdir cache_dir proc =
     (if p_sandboxed p then
        (case hm_sandbox_enter (su_sandbox os) p workdir cache_dir proc of
           (Some e, proc') \<Rightarrow> ChildExit 126
         | (None, proc') \<Rightarrow>
             if su_exec os then
               ChildShell \<lparr>sr_argv = argv,
                 sr_environ = set_vars [(''TMPDIR'', Some workdir), (''HACMAN_CACHE'', Some cache_dir)] environ,
                 sr_cwd = workdir, sr_proc = proc'\<rparr>
             else ChildExit 127)
      else if su_exec os then ChildShell \<lparr>sr_argv = argv, sr_environ = environ, sr_cwd = workdir, sr_proc = proc\<rparr>
      else ChildExit 127)"

definition install_vars ::
  "hm_project \<Rightarrow> string \<Rightarrow> string \<Rightarrow> string option \<Rightarrow> (string \<times> string option) list" where
  "install_vars p old_mark new_mark response =
     [(''HACMAN_NAME'', Some (copied (HM_NAME_MAX + 1) (p_name p))),
      (''HACMAN_URL'', Some (copied (HM_URL_MAX + 1) (p_url p))),
      (''HACMAN_CHECK'', Some (hm_check_name (p_check p))),
      (''HACMAN_VERSION'', Some new_mark),
      (''HACMAN_PREVIOUS'', Some old_mark),
      (''HACMAN_RESPONSE'', response),
      (''HACMAN_WORKDIR'', None)]"

definition install_argv :: "string \<Rightarrow> bool \<Rightarrow> string \<Rightarrow> string list" where
  "install_argv shell trace script = (if trace then [shell, ''-e'', ''-x'', script] else [shell, ''-e'', script])"

definition install_child ::
  "setup_os \<Rightarrow> string \<Rightarrow> hm_project \<Rightarrow> string \<Rightarrow> string \<Rightarrow> string \<Rightarrow> string option \<Rightarrow> string \<Rightarrow> string \<Rightarrow>
   bool \<Rightarrow> bool \<Rightarrow> sig_state \<Rightarrow> process \<Rightarrow> child_end" where
  "install_child os shell p old_mark new_mark script response workdir cache_dir trace capture sig proc =
     (case child_prelude os trace capture sig of
        Some e \<Rightarrow> e
      | None \<Rightarrow>
          (let environ = set_vars (install_vars p old_mark new_mark response) (su_environ os)
           in if \<not> su_chdir os then ChildExit 126
              else run_shell os p (install_argv shell trace script) environ workdir cache_dir proc))"

definition command_vars :: "hm_project \<Rightarrow> string \<Rightarrow> (string \<times> string option) list" where
  "command_vars p workdir =
     [(''HACMAN_NAME'', Some (copied (HM_NAME_MAX + 1) (p_name p))),
      (''HACMAN_WORKDIR'', Some workdir),
      (''HACMAN_URL'', None),
      (''HACMAN_CHECK'', None),
      (''HACMAN_VERSION'', None),
      (''HACMAN_PREVIOUS'', None),
      (''HACMAN_RESPONSE'', None)]"

definition command_argv :: "string \<Rightarrow> bool \<Rightarrow> hm_project \<Rightarrow> string list" where
  "command_argv shell trace p =
     (let command = copied (HM_COMMAND_MAX + 1) (p_command p)
      in if trace then [shell, ''-x'', ''-c'', command] else [shell, ''-c'', command])"

definition command_child ::
  "setup_os \<Rightarrow> string \<Rightarrow> hm_project \<Rightarrow> string \<Rightarrow> string \<Rightarrow> bool \<Rightarrow> bool \<Rightarrow> sig_state \<Rightarrow> process \<Rightarrow> child_end" where
  "command_child os shell p workdir cache_dir trace capture sig proc =
     (case child_prelude os trace capture sig of
        Some e \<Rightarrow> e
      | None \<Rightarrow>
          if \<not> su_chdir os then ChildExit 127
          else run_shell os p (command_argv shell trace p) (set_vars (command_vars p workdir) (su_environ os))
                 workdir cache_dir proc)"

section \<open>The parent\<close>

datatype setup_result = Returned int | Raised nat

text \<open>How the child ends: killed from outside, or the way it ends by itself.\<close>

definition end_status :: "setup_os \<Rightarrow> child_end \<Rightarrow> wait_status" where
  "end_status os child =
     (case su_killed os of
        Some s \<Rightarrow> Signaled s
      | None \<Rightarrow>
          (case child of
             ChildKilled s \<Rightarrow> Signaled s
           | ChildExit n \<Rightarrow> Exited n
           | ChildShell r \<Rightarrow> su_run os r))"

definition signals_begin :: "setup_os \<Rightarrow> setup_state \<Rightarrow> setup_state" where
  "signals_begin os st =
     st\<lparr>ss_sig := fold arrive (su_before os) (forward_signals_begin (su_sigaction os) (ss_sig st))\<rparr>"

definition signals_end :: "setup_state \<Rightarrow> setup_state" where
  "signals_end st = st\<lparr>ss_sig := forward_signals_end (ss_sig st)\<rparr>"

text \<open>From the fork to the end of \<open>waitpid\<close>: signals are passed on, traced output is relayed.\<close>

definition supervise :: "setup_os \<Rightarrow> nat \<Rightarrow> bool \<Rightarrow> child_end \<Rightarrow> setup_state \<Rightarrow> setup_state" where
  "supervise os pid trace child st =
     st\<lparr>ss_child := Some child,
        ss_sig := fold arrive (su_running os) (forward_signals_to pid (fold arrive (su_between os) (ss_sig st))),
        ss_out := (if trace then relay_setup_stderr (su_reads os) (ss_out st) else ss_out st)\<rparr>"

definition reraise :: "int \<Rightarrow> setup_state \<Rightarrow> setup_result \<times> setup_state" where
  "reraise rc st =
     (case forward_signals_reraise (ss_sig st) of None \<Rightarrow> (Returned rc, st) | Some s \<Rightarrow> (Raised s, st))"

definition report_end :: "string \<Rightarrow> string \<Rightarrow> wait_status \<Rightarrow> setup_state \<Rightarrow> setup_state" where
  "report_end name what w st =
     (case w of
        Signaled s \<Rightarrow> say (name @ '': '' @ what @ '' killed by signal '' @ dec s) st
      | Exited n \<Rightarrow> say (name @ '': '' @ what @ '' failed with exit code '' @ dec n) st)"

section \<open>URL projects\<close>

definition drop_response :: "setup_os \<Rightarrow> string option \<Rightarrow> setup_state \<Rightarrow> setup_state" where
  "drop_response os response st = (case response of None \<Rightarrow> st | Some path \<Rightarrow> drop_temp os path st)"

text \<open>The code behind \<^verbatim>\<open>cleanup:\<close>.\<close>

definition install_cleanup ::
  "setup_os \<Rightarrow> string \<Rightarrow> string \<Rightarrow> string option \<Rightarrow> int \<Rightarrow> setup_state \<Rightarrow> setup_result \<times> setup_state" where
  "install_cleanup os name script response rc st =
     (let st1 = signals_end st;
          st2 = (if getenv (su_environ os) ''HACMAN_KEEP_TEMP'' = None
                 then drop_response os response (drop_temp os script st1)
                 else say (name @ '': kept '' @ script) st1)
      in reraise rc st2)"

text \<open>Up to the fork: the work directory, the script, the response and the capture file.\<close>

datatype prepared = NotReady "setup_result \<times> setup_state" | Ready string "string option" bool setup_state

definition install_prepare :: "setup_os \<Rightarrow> string \<Rightarrow> hm_project \<Rightarrow> string \<Rightarrow> string \<Rightarrow> bool \<Rightarrow> setup_state \<Rightarrow> prepared" where
  "install_prepare os shell p body workdir trace st =
     (let name = copied (HM_NAME_MAX + 1) (p_name p)
      in if length (p_install p) = 0
         then NotReady (Returned 0, say (name @ '': changed, but no 'install' script is configured'') st)
         else
           (case hm_workdir_ensure (su_fs os) workdir (ss_files st) of
              (False, fs) \<Rightarrow> NotReady (Returned (-1), st\<lparr>ss_files := fs\<rparr>)
            | (True, fs) \<Rightarrow>
                (case temp_file os ''install'' (st\<lparr>ss_files := fs\<rparr>) of
                   (None, st1) \<Rightarrow> NotReady (Returned (-1), st1)
                 | (Some script, st1) \<Rightarrow>
                     (case write_script os shell p script st1 of
                        (False, st2) \<Rightarrow> NotReady (Returned (-1), drop_temp os script st2)
                      | (True, st2) \<Rightarrow>
                          (case write_response os body st2 of
                             (response, st3) \<Rightarrow>
                               (case capture_file os trace st3 of
                                  (capture, st4) \<Rightarrow>
                                    if \<not> trace \<and> \<not> capture
                                    then NotReady (install_cleanup os name script response (-1) st4)
                                    else if trace \<and> \<not> su_pipe os
                                    then NotReady (install_cleanup os name script response (-1)
                                           (say (''cannot create setup stderr pipe: '' @ su_error os) st4))
                                    else Ready script response capture st4))))))"

definition hm_install ::
  "setup_os \<Rightarrow> string \<Rightarrow> hm_project \<Rightarrow> string \<Rightarrow> string \<Rightarrow> string \<Rightarrow> string \<Rightarrow> string \<Rightarrow> bool \<Rightarrow>
   setup_state \<Rightarrow> setup_result \<times> setup_state" where
  "hm_install os shell p old_mark new_mark body workdir cache_dir trace st =
     (let name = copied (HM_NAME_MAX + 1) (p_name p)
      in case install_prepare os shell p body workdir trace st of
           NotReady r \<Rightarrow> r
         | Ready script response capture st4 \<Rightarrow>
             (let st5 = signals_begin os st4
              in case su_fork os of
                   None \<Rightarrow> install_cleanup os name script response (-1)
                             (signals_end (say (''fork() failed: '' @ su_error os) st5))
                 | Some pid \<Rightarrow>
                     (let child = install_child os shell p old_mark new_mark script response workdir cache_dir
                                    trace capture (ss_sig st5) (ss_proc st5);
                          st6 = supervise os pid trace child st5
                      in if \<not> su_wait os
                         then install_cleanup os name script response (-1)
                                (say (''waitpid() failed: '' @ su_error os) st6)
                         else
                           (let st7 = signals_end st6
                            in if sg_signal (ss_sig st7) \<noteq> 0 then
                                 install_cleanup os name script response (-1)
                                   (say (name @ '': install interrupted by signal '' @ dec (sg_signal (ss_sig st7)))
                                     (replay_capture os capture st7))
                               else if end_status os child \<noteq> Exited 0 then
                                 (Returned (-1),
                                  drop_response os response
                                    (say (name @ '': script kept at '' @ script)
                                      (report_end name ''install script'' (end_status os child)
                                        (replay_capture os capture st7))))
                               else install_cleanup os name script response 0 st7))))"

section \<open>Command projects\<close>

definition hm_command_run ::
  "setup_os \<Rightarrow> string \<Rightarrow> hm_project \<Rightarrow> string \<Rightarrow> string \<Rightarrow> bool \<Rightarrow> setup_state \<Rightarrow> setup_result \<times> setup_state" where
  "hm_command_run os shell p workdir cache_dir trace st =
     (let name = copied (HM_NAME_MAX + 1) (p_name p)
      in case hm_workdir_ensure (su_fs os) workdir (ss_files st) of
           (False, fs) \<Rightarrow> (Returned (-1), st\<lparr>ss_files := fs\<rparr>)
         | (True, fs) \<Rightarrow>
             (case capture_file os trace (st\<lparr>ss_files := fs\<rparr>) of
                (capture, st4) \<Rightarrow>
                  if \<not> trace \<and> \<not> capture then (Returned (-1), st4)
                  else if trace \<and> \<not> su_pipe os
                  then (Returned (-1), say (''cannot create setup stderr pipe: '' @ su_error os) st4)
                  else
                    (let st5 = signals_begin os st4
                     in case su_fork os of
                          None \<Rightarrow> (Returned (-1), signals_end (say (''fork() failed: '' @ su_error os) st5))
                        | Some pid \<Rightarrow>
                            (let child = command_child os shell p workdir cache_dir trace capture (ss_sig st5) (ss_proc st5);
                                 st6 = supervise os pid trace child st5
                             in if \<not> su_wait os
                                then (Returned (-1), signals_end (say (''waitpid() failed: '' @ su_error os) st6))
                                else
                                  (let st7 = signals_end st6
                                   in if sg_signal (ss_sig st7) \<noteq> 0 then
                                        reraise (-1)
                                          (say (name @ '': command interrupted by signal '' @ dec (sg_signal (ss_sig st7)))
                                            (replay_capture os capture st7))
                                      else if end_status os child \<noteq> Exited 0 then
                                        (Returned (-1),
                                         report_end name ''command'' (end_status os child) (replay_capture os capture st7))
                                      else (Returned 0, st7))))))"

section \<open>What the parts leave alone\<close>

definition same_run :: "setup_state \<Rightarrow> setup_state \<Rightarrow> bool" where
  "same_run st st' \<longleftrightarrow> ss_sig st' = ss_sig st \<and> ss_proc st' = ss_proc st \<and> ss_child st' = ss_child st"

lemma same_run_refl [simp]: "same_run st st"
  by (simp add: same_run_def)

lemma same_run_trans: "same_run st st' \<Longrightarrow> same_run st' st'' \<Longrightarrow> same_run st st''"
  by (simp add: same_run_def)

lemma say_fields [simp]:
  "ss_temps (say l st) = ss_temps st" "ss_sig (say l st) = ss_sig st" "ss_proc (say l st) = ss_proc st"
  "ss_child (say l st) = ss_child st" "ss_files (say l st) = ss_files st"
  by (simp_all add: say_def)

lemma drop_temp_fields [simp]:
  "ss_sig (drop_temp os p st) = ss_sig st" "ss_proc (drop_temp os p st) = ss_proc st"
  "ss_child (drop_temp os p st) = ss_child st"
  by (simp_all add: drop_temp_def)

lemma put_temp_fields [simp]:
  "ss_sig (put_temp os p t st) = ss_sig st" "ss_proc (put_temp os p t st) = ss_proc st"
  "ss_child (put_temp os p t st) = ss_child st"
  by (simp_all add: put_temp_def)

lemma drop_response_fields [simp]:
  "ss_sig (drop_response os r st) = ss_sig st" "ss_proc (drop_response os r st) = ss_proc st"
  "ss_child (drop_response os r st) = ss_child st"
  by (simp_all add: drop_response_def split: option.split)

lemma replay_fields [simp]:
  "ss_temps (replay_capture os c st) = ss_temps st" "ss_sig (replay_capture os c st) = ss_sig st"
  "ss_child (replay_capture os c st) = ss_child st" "ss_proc (replay_capture os c st) = ss_proc st"
  by (simp_all add: replay_capture_def)

lemma report_end_fields [simp]:
  "ss_temps (report_end n w e st) = ss_temps st" "ss_sig (report_end n w e st) = ss_sig st"
  "ss_child (report_end n w e st) = ss_child st"
  by (simp_all add: report_end_def split: wait_status.split)

lemma signal_ops_fields [simp]:
  "ss_temps (signals_begin os st) = ss_temps st" "ss_proc (signals_begin os st) = ss_proc st"
  "ss_child (signals_begin os st) = ss_child st"
  "ss_temps (signals_end st) = ss_temps st" "ss_proc (signals_end st) = ss_proc st"
  "ss_child (signals_end st) = ss_child st" "ss_sig (signals_end st) = forward_signals_end (ss_sig st)"
  "ss_temps (supervise os pid trace child st) = ss_temps st"
  "ss_child (supervise os pid trace child st) = Some child"
  by (simp_all add: signals_begin_def signals_end_def supervise_def)

lemma reraise_eq:
  "reraise rc st = (if sg_signal (ss_sig st) = 0 then Returned rc else Raised (sg_signal (ss_sig st)), st)"
  by (simp add: reraise_def forward_signals_reraise_def)

lemma make_temp_run: "make_temp os what st = (r, st') \<Longrightarrow> same_run st st'"
  by (auto simp: make_temp_def Let_def same_run_def split: option.split_asm if_split_asm)

lemma temp_file_run: "temp_file os what st = (r, st') \<Longrightarrow> same_run st st'"
  by (auto simp: temp_file_def same_run_def dest!: make_temp_run split: prod.split_asm option.split_asm if_split_asm)

lemma capture_file_run: "capture_file os trace st = (c, st') \<Longrightarrow> same_run st st'"
  by (auto simp: capture_file_def Let_def same_run_def dest!: make_temp_run
      split: prod.split_asm option.split_asm if_split_asm)

lemma write_script_run: "write_script os shell p path st = (ok, st') \<Longrightarrow> same_run st st'"
  by (auto simp: write_script_def Let_def same_run_def split: if_split_asm)

lemma write_response_run: "write_response os body st = (r, st') \<Longrightarrow> same_run st st'"
  by (auto simp: write_response_def Let_def same_run_def dest!: temp_file_run
      split: prod.split_asm option.split_asm if_split_asm)

lemma cleanup_run:
  "install_cleanup os name script response rc st = (r, st') \<Longrightarrow>
   ss_child st' = ss_child st \<and> ss_sig st' = forward_signals_end (ss_sig st) \<and>
   r = (if sg_signal (ss_sig st) = 0 then Returned rc else Raised (sg_signal (ss_sig st)))"
  by (auto simp: install_cleanup_def Let_def reraise_eq end_eq split: if_split_asm)

text \<open>The state of the signal handling when no setup is running.\<close>

definition idle_signals :: "sig_state \<Rightarrow> bool" where
  "idle_signals s \<longleftrightarrow> (\<forall>i. sg_action s i \<noteq> SigForward \<and> \<not> sg_forwarding s i) \<and> sg_signal s = 0"

lemma idle_end: "idle_signals s \<Longrightarrow> sg_action (forward_signals_end s) = sg_action s \<and> sg_signal (forward_signals_end s) = 0"
  by (auto simp: idle_signals_def end_eq)

lemma prepare_ready:
  assumes "install_prepare os shell p body workdir trace st = Ready script response capture st4"
  shows "same_run st st4 \<and> (trace \<or> capture) \<and> p_install p \<noteq> []"
proof -
  obtain ok fs where en: "hm_workdir_ensure (su_fs os) workdir (ss_files st) = (ok, fs)" by fastforce
  obtain s1 st1 where tf: "temp_file os ''install'' (st\<lparr>ss_files := fs\<rparr>) = (s1, st1)" by fastforce
  obtain ok2 st2 where ws: "write_script os shell p (the s1) st1 = (ok2, st2)" by fastforce
  obtain rs st3 where wr: "write_response os body st2 = (rs, st3)" by fastforce
  obtain cp st5 where cf: "capture_file os trace st3 = (cp, st5)" by fastforce
  have ne: "p_install p \<noteq> []" and ok: "ok" and s1: "s1 \<noteq> None" and ok2: "ok2" and ready: "trace \<or> cp" and eq: "st5 = st4" "cp = capture"
    using assms en tf ws wr cf
    by (auto simp: install_prepare_def Let_def split: if_split_asm option.split_asm bool.split_asm)
  have "same_run (st\<lparr>ss_files := fs\<rparr>) st5"
    using temp_file_run [OF tf] write_script_run [OF ws] write_response_run [OF wr] capture_file_run [OF cf]
    by (simp add: same_run_def)
  with ne ready eq show ?thesis by (simp add: same_run_def)
qed

lemma prepare_not_ready:
  assumes "install_prepare os shell p body workdir trace st = NotReady (r, st')" "idle_signals (ss_sig st)"
  shows "ss_child st' = ss_child st \<and> sg_action (ss_sig st') = sg_action (ss_sig st) \<and> sg_signal (ss_sig st') = 0 \<and>
    r = Returned (if p_install p = [] then 0 else - 1)"
proof (cases "p_install p = []")
  case True
  then show ?thesis using assms by (auto simp: install_prepare_def Let_def idle_signals_def)
next
  case ne: False
  obtain ok fs where en: "hm_workdir_ensure (su_fs os) workdir (ss_files st) = (ok, fs)" by fastforce
  obtain s1 st1 where tf: "temp_file os ''install'' (st\<lparr>ss_files := fs\<rparr>) = (s1, st1)" by fastforce
  obtain ok2 st2 where ws: "write_script os shell p (the s1) st1 = (ok2, st2)" by fastforce
  obtain rs st3 where wr: "write_response os body st2 = (rs, st3)" by fastforce
  obtain cp st4 where cf: "capture_file os trace st3 = (cp, st4)" by fastforce
  have run: "same_run st st1" "same_run st st2" "same_run st st4"
    using temp_file_run [OF tf] write_script_run [OF ws] write_response_run [OF wr] capture_file_run [OF cf]
    by (simp_all add: same_run_def)
  consider (early) "\<not> ok \<or> s1 = None \<or> \<not> ok2" | (late) "ok" "s1 \<noteq> None" "ok2" by blast
  then show ?thesis
  proof cases
    case early
    then have "r = Returned (-1) \<and> same_run st st'"
      using assms(1) ne en tf ws run
      by (auto simp: install_prepare_def Let_def same_run_def split: option.split_asm bool.split_asm)
    with ne assms(2) show ?thesis by (simp add: same_run_def idle_signals_def)
  next
    case late
    then obtain script st5 where "install_cleanup os (copied (HM_NAME_MAX + 1) (p_name p)) script rs (-1) st5 = (r, st')"
      "same_run st st5"
      using assms(1) ne en tf ws wr cf run
      by (auto simp: install_prepare_def Let_def same_run_def split: option.split_asm bool.split_asm if_split_asm)
    from cleanup_run [OF this(1)] this(2) ne assms(2) idle_end [OF assms(2)] show ?thesis
      by (simp add: same_run_def idle_signals_def)
  qed
qed

section \<open>From the fork to the end\<close>

lemma begin_from: "forwarding_from (su_sigaction os) (ss_sig st) (ss_sig (signals_begin os st))"
  by (simp add: signals_begin_def forwarding_arrivals forwarding_begin)

lemma supervise_from:
  "forwarding_from ok s (ss_sig st) \<Longrightarrow> forwarding_from ok s (ss_sig (supervise os pid trace child st))"
  by (simp add: supervise_def forwarding_arrivals forwarding_to)

lemma run_shell_exit: "run_shell os p argv environ workdir cache_dir proc = ChildExit n \<Longrightarrow> n \<noteq> 0"
  by (auto simp: run_shell_def split: if_split_asm prod.split_asm option.split_asm)

lemma prelude_exit: "child_prelude os trace capture sig = Some (ChildExit n) \<Longrightarrow> n \<noteq> 0"
  by (auto simp: child_prelude_def split: sum.split_asm if_split_asm)

lemma prelude_no_shell: "child_prelude os trace capture sig \<noteq> Some (ChildShell run)"
  by (auto simp: child_prelude_def split: sum.split_asm if_split_asm)

lemma install_child_exit:
  "install_child os shell p old new script response workdir cache_dir trace capture sig proc = ChildExit n \<Longrightarrow> n \<noteq> 0"
  by (auto simp: install_child_def Let_def dest: run_shell_exit prelude_exit split: option.split_asm if_split_asm)

lemma command_child_exit:
  "command_child os shell p workdir cache_dir trace capture sig proc = ChildExit n \<Longrightarrow> n \<noteq> 0"
  by (auto simp: command_child_def dest: run_shell_exit prelude_exit split: option.split_asm if_split_asm)

lemma end_status_ok:
  assumes "\<And>n. child = ChildExit n \<Longrightarrow> n \<noteq> 0"
  shows "end_status os child = Exited 0 \<longleftrightarrow> (\<exists>run. child = ChildShell run \<and> end_status os (ChildShell run) = Exited 0)"
  using assms by (cases child) (auto simp: end_status_def split: option.split)

text \<open>How \<open>hm_install\<close> goes on once everything is prepared.\<close>

lemma install_forked:
  assumes "install_prepare os shell p body workdir trace st = Ready script response capture st4" "su_fork os = Some pid"
    and child: "child = install_child os shell p old new script response workdir cache_dir trace capture
      (ss_sig (signals_begin os st4)) (ss_proc st4)"
    and st6: "st6 = supervise os pid trace child (signals_begin os st4)"
    and run: "hm_install os shell p old new body workdir cache_dir trace st = (r, st')"
  shows "ss_child st' = Some child \<and>
    sg_signal (ss_sig st') = sg_signal (ss_sig st6) \<and>
    (sg_action (ss_sig st') = sg_action (forward_signals_end (ss_sig st6)) \<or>
     sg_action (ss_sig st') = sg_action (forward_signals_end (forward_signals_end (ss_sig st6)))) \<and>
    (r = (if sg_signal (ss_sig st6) \<noteq> 0 then Raised (sg_signal (ss_sig st6))
          else if su_wait os \<and> end_status os child = Exited 0 then Returned 0 else Returned (-1)))"
proof -
  let ?name = "copied (HM_NAME_MAX + 1) (p_name p)"
  have c6: "ss_child st6 = Some child" by (simp add: st6)
  note def = run [unfolded hm_install_def Let_def assms(1,2) prepared.case option.case signal_ops_fields(2),
      folded child, folded st6]
  consider (nowait) "\<not> su_wait os" | (signal) "su_wait os" "sg_signal (ss_sig st6) \<noteq> 0"
    | (bad) "su_wait os" "sg_signal (ss_sig st6) = 0" "end_status os child \<noteq> Exited 0"
    | (good) "su_wait os" "sg_signal (ss_sig st6) = 0" "end_status os child = Exited 0" by blast
  then show ?thesis
  proof cases
    case nowait
    then have "install_cleanup os ?name script response (-1) (say (''waitpid() failed: '' @ su_error os) st6) = (r, st')"
      using def by simp
    from cleanup_run [OF this] show ?thesis using nowait c6 by (simp add: end_eq)
  next
    case signal
    then have "install_cleanup os ?name script response (-1)
        (say (?name @ '': install interrupted by signal '' @ dec (sg_signal (ss_sig st6)))
           (replay_capture os capture (signals_end st6))) = (r, st')"
      using def by (simp add: end_eq)
    from cleanup_run [OF this] show ?thesis using signal c6 by (simp add: end_eq)
  next
    case bad
    then show ?thesis using def c6 by (auto simp: end_eq)
  next
    case good
    then have "install_cleanup os ?name script response 0 (signals_end st6) = (r, st')" using def by (simp add: end_eq)
    from cleanup_run [OF this] show ?thesis using good c6 by (simp add: end_eq)
  qed
qed

lemma install_not_forked:
  assumes "install_prepare os shell p body workdir trace st = Ready script response capture st4" "su_fork os = None"
    and run: "hm_install os shell p old new body workdir cache_dir trace st = (r, st')"
  shows "ss_child st' = ss_child st4 \<and> sg_signal (ss_sig st') = sg_signal (ss_sig (signals_begin os st4)) \<and>
    sg_action (ss_sig st') = sg_action (forward_signals_end (forward_signals_end (ss_sig (signals_begin os st4)))) \<and>
    r = (if sg_signal (ss_sig st') \<noteq> 0 then Raised (sg_signal (ss_sig st')) else Returned (-1))"
  using cleanup_run [OF run [unfolded hm_install_def Let_def assms(1,2) prepared.case option.case]]
  by (simp add: end_eq)

lemma install_outcome:
  assumes "hm_install os shell p old new body workdir cache_dir trace st = (r, st')"
    and "idle_signals (ss_sig st)" "ss_child st = None"
  shows "(r = Returned 0 \<longleftrightarrow> p_install p = [] \<or> (su_wait os \<and> sg_signal (ss_sig st') = 0 \<and>
      (\<exists>run. ss_child st' = Some (ChildShell run) \<and> end_status os (ChildShell run) = Exited 0))) \<and>
    (\<forall>s. r = Raised s \<longleftrightarrow> s \<noteq> 0 \<and> sg_signal (ss_sig st') = s) \<and>
    sg_action (ss_sig st') = sg_action (ss_sig st)"
proof (cases "install_prepare os shell p body workdir trace st")
  case (NotReady x)
  then have x: "x = (r, st')" using assms(1) by (simp add: hm_install_def)
  from prepare_not_ready [OF NotReady [unfolded x] assms(2)] assms(3) show ?thesis by auto
next
  case (Ready script response capture st4)
  from prepare_ready [OF this] have p: "same_run st st4" "p_install p \<noteq> []" by blast+
  have idle: "idle_signals (ss_sig st4)" "ss_child st4 = None" using p assms(2,3) by (simp_all add: same_run_def)
  have from4: "forwarding_from (su_sigaction os) (ss_sig st) (ss_sig (signals_begin os st4))"
    using begin_from [of os st4] p by (simp add: same_run_def)
  show ?thesis
  proof (cases "su_fork os")
    case None
    from install_not_forked [OF Ready None assms(1)] end_restores [OF from4] end_again idle p(2)
    show ?thesis by auto
  next
    case (Some pid)
    define child where "child = install_child os shell p old new script response workdir cache_dir trace capture
      (ss_sig (signals_begin os st4)) (ss_proc st4)"
    define st6 where "st6 = supervise os pid trace child (signals_begin os st4)"
    note f = install_forked [OF Ready Some child_def st6_def assms(1)]
    have "sg_action (forward_signals_end (ss_sig st6)) = sg_action (ss_sig st)"
      unfolding st6_def by (rule end_restores [OF supervise_from [OF from4]])
    then have act: "sg_action (ss_sig st') = sg_action (ss_sig st)" using f end_again by auto
    have "end_status os child = Exited 0 \<longleftrightarrow> (\<exists>run. child = ChildShell run \<and> end_status os (ChildShell run) = Exited 0)"
      by (rule end_status_ok) (simp add: child_def install_child_exit)
    then show ?thesis using f act p(2) by auto
  qed
qed

lemma command_outcome:
  assumes "hm_command_run os shell p workdir cache_dir trace st = (r, st')"
    and "idle_signals (ss_sig st)" "ss_child st = None"
  shows "(r = Returned 0 \<longleftrightarrow> su_wait os \<and> sg_signal (ss_sig st') = 0 \<and>
      (\<exists>run. ss_child st' = Some (ChildShell run) \<and> end_status os (ChildShell run) = Exited 0)) \<and>
    (\<forall>s. r = Raised s \<longrightarrow> s \<noteq> 0 \<and> sg_signal (ss_sig st') = s) \<and>
    sg_action (ss_sig st') = sg_action (ss_sig st)"
proof -
  obtain ok fs where en: "hm_workdir_ensure (su_fs os) workdir (ss_files st) = (ok, fs)" by fastforce
  obtain capture st4 where cf: "capture_file os trace (st\<lparr>ss_files := fs\<rparr>) = (capture, st4)" by fastforce
  have s4: "ss_sig st4 = ss_sig st" "ss_child st4 = None"
    using capture_file_run [OF cf] assms(3) by (simp_all add: same_run_def)
  show ?thesis
  proof (cases "ok \<and> (trace \<or> capture) \<and> (trace \<longrightarrow> su_pipe os)")
    case False
    then have "r = Returned (-1) \<and> ss_child st' = None \<and> ss_sig st' = ss_sig st"
      using assms(1,3) s4 by (cases ok) (auto simp: hm_command_run_def en cf Let_def split: if_split_asm)
    then show ?thesis by simp
  next
    case True
    define st5 where "st5 = signals_begin os st4"
    have from5: "forwarding_from (su_sigaction os) (ss_sig st) (ss_sig st5)"
      using begin_from [of os st4] s4(1) by (simp add: st5_def)
    have nf: "\<not> (\<not> trace \<and> \<not> capture)" "\<not> (trace \<and> \<not> su_pipe os)" using True by blast+
    have okT: "ok = True" using True by simp
    note def = assms(1) [unfolded hm_command_run_def Let_def en okT prod.case bool.case cf
        if_not_P [OF nf(1)] if_not_P [OF nf(2)], folded st5_def]
    show ?thesis
    proof (cases "su_fork os")
      case None
      have "r = Returned (-1) \<and> ss_child st' = None \<and> ss_sig st' = forward_signals_end (ss_sig st5)"
        using def [unfolded None option.case] s4(2) by (auto simp: st5_def)
      then show ?thesis using end_restores [OF from5] by simp
    next
      case (Some pid)
      define child where "child = command_child os shell p workdir cache_dir trace capture (ss_sig st5) (ss_proc st5)"
      define st6 where "st6 = supervise os pid trace child st5"
      have c6: "ss_child st6 = Some child" by (simp add: st6_def)
      note def6 = def [unfolded Some option.case, folded child_def, folded st6_def]
      have st': "ss_child st' = Some child \<and> ss_sig st' = forward_signals_end (ss_sig st6) \<and>
        r = (if su_wait os \<and> sg_signal (ss_sig st6) \<noteq> 0 then Raised (sg_signal (ss_sig st6))
             else if su_wait os \<and> end_status os child = Exited 0 then Returned 0 else Returned (-1))"
        using def6 c6 by (simp add: reraise_eq end_eq split: if_split_asm) (auto simp: end_eq)
      have "end_status os child = Exited 0 \<longleftrightarrow> (\<exists>run. child = ChildShell run \<and> end_status os (ChildShell run) = Exited 0)"
        by (rule end_status_ok) (simp add: child_def command_child_exit)
      moreover have "sg_action (ss_sig st') = sg_action (ss_sig st)"
        using st' end_restores [OF supervise_from [OF from5], of os pid trace child] by (simp add: st6_def)
      ultimately show ?thesis using st' by (auto simp: end_eq)
    qed
  qed
qed

section \<open>The shell that runs\<close>

text \<open>What a list of settings leaves in the environment, through the laws of \<open>setenv\<close> and \<open>unsetenv\<close>.\<close>

lemma getenv_set_vars:
  assumes "list_all (env_key \<circ> fst) xs" "env_key k"
  shows "getenv (set_vars xs es) k = (case map_of (rev xs) k of None \<Rightarrow> getenv es k | Some v \<Rightarrow> v)"
  using environ.get_apply_vars [OF assms, of es] by (simp add: set_vars_def environ.apply_vars_def)

definition sandbox_vars :: "hm_project \<Rightarrow> string \<Rightarrow> string \<Rightarrow> (string \<times> string option) list" where
  "sandbox_vars p workdir cache_dir =
     (if p_sandboxed p then [(''TMPDIR'', Some workdir), (''HACMAN_CACHE'', Some cache_dir)] else [])"

lemma set_vars_append: "set_vars ys (set_vars xs es) = set_vars (xs @ ys) es"
  by (simp add: set_vars_def)

definition confined :: "setup_os \<Rightarrow> hm_project \<Rightarrow> string \<Rightarrow> string \<Rightarrow> process \<Rightarrow> process \<Rightarrow> bool" where
  "confined os p workdir cache_dir proc proc' \<longleftrightarrow>
     (if p_sandboxed p then hm_sandbox_enter (su_sandbox os) p workdir cache_dir proc = (None, proc') else proc' = proc)"

lemma run_shell_shell:
  "run_shell os p argv environ workdir cache_dir proc = ChildShell run \<Longrightarrow>
   sr_argv run = argv \<and> sr_environ run = set_vars (sandbox_vars p workdir cache_dir) environ \<and> sr_cwd run = workdir \<and>
   confined os p workdir cache_dir proc (sr_proc run)"
  by (auto simp: run_shell_def sandbox_vars_def confined_def set_vars_def split: if_split_asm prod.split_asm option.split_asm)

lemma install_child_shell:
  "install_child os shell p old new script response workdir cache_dir trace capture sig proc = ChildShell run \<Longrightarrow>
   sr_argv run = install_argv shell trace script \<and> sr_cwd run = workdir \<and>
   sr_environ run = set_vars (install_vars p old new response @ sandbox_vars p workdir cache_dir) (su_environ os) \<and>
   confined os p workdir cache_dir proc (sr_proc run)"
  using prelude_no_shell [of os trace capture sig run]
  by (auto simp: install_child_def Let_def set_vars_append dest!: run_shell_shell split: option.split_asm if_split_asm)

lemma command_child_shell:
  "command_child os shell p workdir cache_dir trace capture sig proc = ChildShell run \<Longrightarrow>
   sr_argv run = command_argv shell trace p \<and> sr_cwd run = workdir \<and>
   sr_environ run = set_vars (command_vars p workdir @ sandbox_vars p workdir cache_dir) (su_environ os) \<and>
   confined os p workdir cache_dir proc (sr_proc run)"
  using prelude_no_shell [of os trace capture sig run]
  by (auto simp: command_child_def Let_def set_vars_append dest!: run_shell_shell split: option.split_asm if_split_asm)

section \<open>The generated files\<close>

text \<open>
  Fresh names, deletions that work, room for the response, and no request to keep the files: what the
  clean-up can rely on.
\<close>

definition tidy :: "setup_os \<Rightarrow> bool" where
  "tidy os \<longleftrightarrow>
     (\<forall>t names x. su_mkstemp os t names = Some x \<longrightarrow> x \<notin> set names) \<and> (\<forall>x. su_unlink os x) \<and>
     (\<forall>x. su_fwrite os x) \<and> getenv (su_environ os) ''HACMAN_KEEP_TEMP'' = None"

lemma drop_temp_list: "tidy os \<Longrightarrow> ss_temps (drop_temp os p st) = filter (\<lambda>(q, _). q \<noteq> p) (ss_temps st)"
  by (simp add: drop_temp_def tidy_def)

lemma filter_absent: "p \<notin> fst ` set xs \<Longrightarrow> filter (\<lambda>(q, _). q \<noteq> p) xs = xs"
  by (induction xs) auto

lemma map_absent: "p \<notin> fst ` set xs \<Longrightarrow> map (\<lambda>(q, s). if q = p then (q, t) else (q, s)) xs = xs"
  by (induction xs) auto

lemma make_temp_temps:
  assumes "tidy os" "make_temp os what st = (r, st')"
  shows "case r of None \<Rightarrow> ss_temps st' = ss_temps st
    | Some p \<Rightarrow> ss_temps st' = (p, []) # ss_temps st \<and> p \<notin> fst ` set (ss_temps st)"
proof -
  have "p \<notin> fst ` set (ss_temps st)" if "temp_in os what dir st = Some p" for dir p
    using that assms(1) unfolding set_map [symmetric] temp_in_def Let_def tidy_def by (meson option.distinct(1))
  then show ?thesis using assms(2)
    by (auto simp: make_temp_def Let_def split: option.split_asm if_split_asm)
qed

lemma temp_file_temps:
  assumes "tidy os" "temp_file os what st = (r, st')"
  shows "case r of None \<Rightarrow> ss_temps st' = ss_temps st
    | Some p \<Rightarrow> ss_temps st' = (p, []) # ss_temps st \<and> p \<notin> fst ` set (ss_temps st)"
proof -
  obtain r1 st1 where m: "make_temp os what st = (r1, st1)" by fastforce
  from make_temp_temps [OF assms(1) m] assms(2) m show ?thesis
    by (auto simp: temp_file_def drop_temp_list [OF assms(1)] filter_absent split: option.split_asm if_split_asm)
qed

lemma capture_file_temps:
  assumes "tidy os" "capture_file os trace st = (c, st')"
  shows "ss_temps st' = ss_temps st"
proof -
  obtain r1 st1 where m: "make_temp os ''capture'' st = (r1, st1)" by fastforce
  from make_temp_temps [OF assms(1) m] assms(2) m show ?thesis
    by (auto simp: capture_file_def Let_def drop_temp_list [OF assms(1)] filter_absent split: option.split_asm if_split_asm)
qed

lemma put_temp_head:
  "p \<notin> fst ` set xs \<Longrightarrow> ss_temps st = (p, s) # xs \<Longrightarrow> ss_temps (put_temp os p t st) = (p, take (su_room os p) t) # xs"
  by (simp add: put_temp_def map_absent)

definition response_entry :: "setup_os \<Rightarrow> string \<Rightarrow> string option \<Rightarrow> (string \<times> string) list" where
  "response_entry os body response = (case response of None \<Rightarrow> [] | Some q \<Rightarrow> [(q, take (su_room os q) body)])"

lemma write_response_temps:
  assumes "tidy os" "write_response os body st = (r, st')"
  shows "ss_temps st' = response_entry os body r @ ss_temps st \<and> (\<forall>q. r = Some q \<longrightarrow> q \<notin> fst ` set (ss_temps st))"
proof (cases "body = []")
  case True
  with assms(2) show ?thesis by (auto simp: write_response_def response_entry_def)
next
  case False
  obtain r1 st1 where t: "temp_file os ''response'' st = (r1, st1)" by fastforce
  have "su_fwrite os p" for p using assms(1) by (simp add: tidy_def)
  with temp_file_temps [OF assms(1) t] assms(2) t False show ?thesis
    by (cases r1) (auto simp: write_response_def Let_def response_entry_def put_temp_head)
qed

lemma prepare_temps:
  assumes "tidy os" "install_prepare os shell p body workdir trace st = Ready script response capture st4"
  shows "ss_temps st4 = response_entry os body response @ (script, take (su_room os script) (script_text shell p)) # ss_temps st \<and>
    script \<notin> fst ` set (ss_temps st) \<and> (\<forall>q. response = Some q \<longrightarrow> q \<noteq> script \<and> q \<notin> fst ` set (ss_temps st))"
proof -
  obtain ok fs where en: "hm_workdir_ensure (su_fs os) workdir (ss_files st) = (ok, fs)" by fastforce
  obtain s1 st1 where tf: "temp_file os ''install'' (st\<lparr>ss_files := fs\<rparr>) = (s1, st1)" by fastforce
  obtain ok2 st2 where ws: "write_script os shell p (the s1) st1 = (ok2, st2)" by fastforce
  obtain rs st3 where wr: "write_response os body st2 = (rs, st3)" by fastforce
  obtain cp st5 where cf: "capture_file os trace st3 = (cp, st5)" by fastforce
  have ok2: "ok2" and eq: "s1 = Some script" "rs = response" "st5 = st4"
    using assms(2) en tf ws wr cf
    by (auto simp: install_prepare_def Let_def split: if_split_asm option.split_asm bool.split_asm)
  have t1: "ss_temps st1 = (script, []) # ss_temps st" "script \<notin> fst ` set (ss_temps st)"
    using temp_file_temps [OF assms(1) tf] eq(1) by simp_all
  have "st2 = put_temp os script (script_text shell p) st1"
    using ws eq(1) ok2 by (auto simp: write_script_def Let_def split: if_split_asm)
  then have t2: "ss_temps st2 = (script, take (su_room os script) (script_text shell p)) # ss_temps st"
    using put_temp_head [OF t1(2,1)] by simp
  show ?thesis
    using write_response_temps [OF assms(1) wr] capture_file_temps [OF assms(1) cf] t1(2) t2 eq by auto
qed

lemma drop_response_temps:
  assumes "tidy os" "\<forall>q. response = Some q \<longrightarrow> q \<notin> fst ` set xs" "ss_temps st = response_entry os body response @ xs"
  shows "ss_temps (drop_response os response st) = xs"
  using assms by (auto simp: drop_response_def response_entry_def drop_temp_list filter_absent split: option.split)

lemma cleanup_temps:
  assumes "tidy os" "install_cleanup os name script response rc st = (r, st')"
    and "ss_temps st = response_entry os body response @ (script, t) # xs" "script \<notin> fst ` set xs"
    and "\<forall>q. response = Some q \<longrightarrow> q \<noteq> script \<and> q \<notin> fst ` set xs"
  shows "ss_temps st' = xs"
proof -
  have "getenv (su_environ os) ''HACMAN_KEEP_TEMP'' = None" using assms(1) by (simp add: tidy_def)
  then have st': "ss_temps st' = ss_temps (drop_response os response (drop_temp os script (signals_end st)))"
    using assms(2) by (simp add: install_cleanup_def Let_def reraise_eq)
  have "ss_temps (drop_temp os script (signals_end st)) = response_entry os body response @ xs"
    using assms(3,4,5) by (auto simp: drop_temp_list [OF assms(1)] filter_absent response_entry_def split: option.split)
  from drop_response_temps [OF assms(1) _ this] assms(5) show ?thesis by (simp add: st')
qed

lemma prepare_not_ready_temps:
  assumes "tidy os" "install_prepare os shell p body workdir trace st = NotReady (r, st')"
  shows "ss_temps st' = ss_temps st"
proof (cases "p_install p = []")
  case True
  then show ?thesis using assms(2) by (auto simp: install_prepare_def Let_def)
next
  case ne: False
  obtain ok fs where en: "hm_workdir_ensure (su_fs os) workdir (ss_files st) = (ok, fs)" by fastforce
  obtain s1 st1 where tf: "temp_file os ''install'' (st\<lparr>ss_files := fs\<rparr>) = (s1, st1)" by fastforce
  obtain ok2 st2 where ws: "write_script os shell p (the s1) st1 = (ok2, st2)" by fastforce
  obtain rs st3 where wr: "write_response os body st2 = (rs, st3)" by fastforce
  obtain cp st4 where cf: "capture_file os trace st3 = (cp, st4)" by fastforce
  note t1 = temp_file_temps [OF assms(1) tf]
  consider (early) "\<not> ok \<or> s1 = None" | (script) "ok" "s1 \<noteq> None" "\<not> ok2" | (late) "ok" "s1 \<noteq> None" "ok2" by blast
  then show ?thesis
  proof cases
    case early
    then have "st' = st\<lparr>ss_files := fs\<rparr> \<or> st' = st1 \<and> s1 = None"
      using assms(2) ne en tf by (auto simp: install_prepare_def Let_def split: bool.split_asm)
    with t1 show ?thesis by auto
  next
    case script
    then obtain path where s1: "s1 = Some path" by blast
    have st2: "ss_temps st2 = (path, take (su_room os path) (script_text shell p)) # ss_temps st"
      using ws s1 t1 put_temp_head [of path "ss_temps st" st1 "[]" os] script(3)
      by (auto simp: write_script_def Let_def split: if_split_asm)
    have "st' = drop_temp os path st2"
      using assms(2) ne en tf ws s1 script by (auto simp: install_prepare_def Let_def)
    then show ?thesis using st2 t1 s1 by (simp add: drop_temp_list [OF assms(1)] filter_absent)
  next
    case late
    then obtain path where s1: "s1 = Some path" by blast
    have st2: "ss_temps st2 = (path, take (su_room os path) (script_text shell p)) # ss_temps st"
      using ws s1 t1 put_temp_head [of path "ss_temps st" st1 "[]" os] late(3)
      by (auto simp: write_script_def Let_def split: if_split_asm)
    obtain st5 where cl: "install_cleanup os (copied (HM_NAME_MAX + 1) (p_name p)) path rs (-1) st5 = (r, st')"
      "ss_temps st5 = ss_temps st4"
      using assms(2) ne en tf ws wr cf s1 late
      by (auto simp: install_prepare_def Let_def split: if_split_asm)
    have "ss_temps st5 = response_entry os body rs @ (path, take (su_room os path) (script_text shell p)) # ss_temps st"
      using cl(2) capture_file_temps [OF assms(1) cf] write_response_temps [OF assms(1) wr] st2 by simp
    from cleanup_temps [OF assms(1) cl(1) this] show ?thesis
      using t1 s1 write_response_temps [OF assms(1) wr] st2 by auto
  qed
qed

lemma install_temps:
  assumes "tidy os" "hm_install os shell p old new body workdir cache_dir trace st = (r, st')"
  shows "ss_temps st' = ss_temps st \<or>
    (\<exists>script. r = Returned (-1) \<and> ss_temps st' = (script, take (su_room os script) (script_text shell p)) # ss_temps st \<and>
       (\<exists>child. ss_child st' = Some child \<and> end_status os child \<noteq> Exited 0))"
proof (cases "install_prepare os shell p body workdir trace st")
  case (NotReady x)
  then have x: "x = (r, st')" using assms(2) by (simp add: hm_install_def)
  from prepare_not_ready_temps [OF assms(1) NotReady [unfolded x]] show ?thesis by simp
next
  case (Ready script response capture st4)
  let ?name = "copied (HM_NAME_MAX + 1) (p_name p)" and ?entry = "(script, take (su_room os script) (script_text shell p))"
  note t4 = prepare_temps [OF assms(1) Ready]
  have clean: "ss_temps st' = ss_temps st"
    if "install_cleanup os ?name script response rc st5 = (r, st')" "ss_temps st5 = ss_temps st4" for rc st5
    using cleanup_temps [OF assms(1) that(1)] that(2) t4 by auto
  show ?thesis
  proof (cases "su_fork os")
    case None
    from clean [OF assms(2) [unfolded hm_install_def Let_def Ready None prepared.case option.case]] show ?thesis by simp
  next
    case (Some pid)
    define child where "child = install_child os shell p old new script response workdir cache_dir trace capture
      (ss_sig (signals_begin os st4)) (ss_proc st4)"
    define st6 where "st6 = supervise os pid trace child (signals_begin os st4)"
    have c6: "ss_temps st6 = ss_temps st4" "ss_child st6 = Some child" by (simp_all add: st6_def)
    note def = assms(2) [unfolded hm_install_def Let_def Ready Some prepared.case option.case signal_ops_fields(2),
        folded child_def, folded st6_def]
    show ?thesis
    proof (cases "su_wait os \<and> sg_signal (ss_sig (signals_end st6)) = 0 \<and> end_status os child \<noteq> Exited 0")
      case True
      define st7 where "st7 = say (?name @ '': script kept at '' @ script) (report_end ?name ''install script''
        (end_status os child) (replay_capture os capture (signals_end st6)))"
      have r: "r = Returned (-1)" "st' = drop_response os response st7" using def True by (auto simp: st7_def)
      have "ss_temps st7 = response_entry os body response @ ?entry # ss_temps st" using t4 c6 by (simp add: st7_def)
      from drop_response_temps [OF assms(1) _ this] t4 have "ss_temps st' = ?entry # ss_temps st"
        by (auto simp: r(2))
      moreover have "ss_child st' = Some child" using c6 by (simp add: r(2) st7_def)
      ultimately show ?thesis using r(1) True by blast
    next
      case False
      then obtain rc st5 where "install_cleanup os ?name script response rc st5 = (r, st')" "ss_temps st5 = ss_temps st4"
        using def c6(1) by (auto split: if_split_asm)
      from clean [OF this] show ?thesis by simp
    qed
  qed
qed

section \<open>Which shell the two operations start\<close>

lemma install_starts:
  assumes "hm_install os shell p old new body workdir cache_dir trace st = (r, st')" "idle_signals (ss_sig st)"
    and "ss_child st = None" "ss_child st' = Some (ChildShell run)"
  obtains script response capture st4 where "install_prepare os shell p body workdir trace st = Ready script response capture st4"
    and "install_child os shell p old new script response workdir cache_dir trace capture
      (ss_sig (signals_begin os st4)) (ss_proc st) = ChildShell run"
proof (cases "install_prepare os shell p body workdir trace st")
  case (NotReady x)
  then have "x = (r, st')" using assms(1) by (simp add: hm_install_def)
  from prepare_not_ready [OF NotReady [unfolded this] assms(2)] assms(3,4) show ?thesis by simp
next
  case (Ready script response capture st4)
  from prepare_ready [OF this] have p: "same_run st st4" by blast
  show ?thesis
  proof (cases "su_fork os")
    case None
    from install_not_forked [OF Ready None assms(1)] p assms(3,4) show ?thesis by (simp add: same_run_def)
  next
    case (Some pid)
    from install_forked [OF Ready Some refl refl assms(1)] assms(4) p that [OF Ready] show ?thesis
      by (simp add: same_run_def)
  qed
qed

lemma command_starts:
  assumes "hm_command_run os shell p workdir cache_dir trace st = (r, st')"
    and "ss_child st = None" "ss_child st' = Some (ChildShell run)"
  obtains capture sig where
    "command_child os shell p workdir cache_dir trace capture sig (ss_proc st) = ChildShell run"
proof -
  obtain ok fs where en: "hm_workdir_ensure (su_fs os) workdir (ss_files st) = (ok, fs)" by fastforce
  obtain capture st4 where cf: "capture_file os trace (st\<lparr>ss_files := fs\<rparr>) = (capture, st4)" by fastforce
  have s4: "ss_proc st4 = ss_proc st" "ss_child st4 = None"
    using capture_file_run [OF cf] assms(2) by (simp_all add: same_run_def)
  define st5 where "st5 = signals_begin os st4"
  have s5: "ss_child st5 = None" using s4 by (simp add: st5_def)
  have gate: "ok \<and> (trace \<or> capture) \<and> (trace \<longrightarrow> su_pipe os)"
    using assms s4 by (cases ok) (auto simp: hm_command_run_def en cf Let_def split: if_split_asm)
  then have nf: "\<not> (\<not> trace \<and> \<not> capture)" "\<not> (trace \<and> \<not> su_pipe os)" "ok = True" by blast+
  note def = assms(1) [unfolded hm_command_run_def Let_def en nf(3) prod.case bool.case cf
      if_not_P [OF nf(1)] if_not_P [OF nf(2)], folded st5_def]
  show ?thesis
  proof (cases "su_fork os")
    case None
    with def [unfolded None option.case] s5 assms(3) show ?thesis by auto
  next
    case (Some pid)
    define child where "child = command_child os shell p workdir cache_dir trace capture (ss_sig st5) (ss_proc st5)"
    define st6 where "st6 = supervise os pid trace child st5"
    have c6: "ss_child st6 = Some child" by (simp add: st6_def)
    have "ss_child st' = Some child"
      using def [unfolded Some option.case, folded child_def, folded st6_def] c6
      by (auto simp: reraise_eq split: if_split_asm)
    with assms(3) have "child = ChildShell run" by simp
    then show ?thesis using that s4 by (simp add: child_def st5_def)
  qed
qed

section \<open>Properties\<close>



text \<open>
  A command runs as documented: \<^verbatim>\<open>sh -c\<close> gets exactly the configured command, in the work directory,
  inside the sandbox's policy if the project is sandboxed and with the parent's rights otherwise, with
  its name and work directory in the environment and no URL-project variable of an outer hacman.
\<close>
theorem command_environment:
  assumes "hm_command_run os shell p workdir cache_dir trace st = (r, st')"
    and "ss_child st = None" "ss_child st' = Some (ChildShell run)"
  shows "sr_argv run = (if trace then [shell, ''-x''] else [shell]) @ [''-c'', copied (HM_COMMAND_MAX + 1) (p_command p)] \<and>
    sr_cwd run = workdir \<and> confined os p workdir cache_dir (ss_proc st) (sr_proc run) \<and>
    getenv (sr_environ run) ''HACMAN_NAME'' = Some (copied (HM_NAME_MAX + 1) (p_name p)) \<and>
    getenv (sr_environ run) ''HACMAN_WORKDIR'' = Some workdir \<and>
    list_all (\<lambda>k. getenv (sr_environ run) k = None)
      [''HACMAN_URL'', ''HACMAN_CHECK'', ''HACMAN_VERSION'', ''HACMAN_PREVIOUS'', ''HACMAN_RESPONSE''] \<and>
    (p_sandboxed p \<longrightarrow> getenv (sr_environ run) ''TMPDIR'' = Some workdir \<and>
       getenv (sr_environ run) ''HACMAN_CACHE'' = Some cache_dir) \<and>
    (\<forall>k. env_key k \<longrightarrow> k \<notin> fst ` set (command_vars p workdir @ sandbox_vars p workdir cache_dir) \<longrightarrow>
       getenv (sr_environ run) k = getenv (su_environ os) k)"
proof -
  from command_starts [OF assms] obtain capture sig where
    "command_child os shell p workdir cache_dir trace capture sig (ss_proc st) = ChildShell run" by metis
  note c = command_child_shell [OF this]
  let ?xs = "command_vars p workdir @ sandbox_vars p workdir cache_dir"
  have keys: "list_all (env_key \<circ> fst) ?xs" by (simp add: command_vars_def sandbox_vars_def env_key_def)
  have g: "env_key k \<Longrightarrow> getenv (sr_environ run) k =
      (case map_of (rev ?xs) k of None \<Rightarrow> getenv (su_environ os) k | Some v \<Rightarrow> v)" for k
    using getenv_set_vars [OF keys] c by simp
  have vals: "getenv (sr_environ run) ''HACMAN_NAME'' = Some (copied (HM_NAME_MAX + 1) (p_name p))"
    "getenv (sr_environ run) ''HACMAN_WORKDIR'' = Some workdir"
    "list_all (\<lambda>k. getenv (sr_environ run) k = None)
      [''HACMAN_URL'', ''HACMAN_CHECK'', ''HACMAN_VERSION'', ''HACMAN_PREVIOUS'', ''HACMAN_RESPONSE'']"
    "p_sandboxed p \<Longrightarrow> getenv (sr_environ run) ''TMPDIR'' = Some workdir"
    "p_sandboxed p \<Longrightarrow> getenv (sr_environ run) ''HACMAN_CACHE'' = Some cache_dir"
    by (simp_all add: g env_key_def command_vars_def sandbox_vars_def)
  have other: "getenv (sr_environ run) k = getenv (su_environ os) k" if "env_key k" "k \<notin> fst ` set ?xs" for k
  proof -
    have "map_of (rev ?xs) k = None" using that(2) by (simp only: map_of_eq_None_iff set_rev not_False_eq_True)
    then show ?thesis by (simp only: g [OF that(1)] option.case)
  qed
  have "sr_argv run = (if trace then [shell, ''-x''] else [shell]) @ [''-c'', copied (HM_COMMAND_MAX + 1) (p_command p)]"
    "sr_cwd run = workdir" "confined os p workdir cache_dir (ss_proc st) (sr_proc run)"
    using c by (simp_all add: command_argv_def Let_def)
  then show ?thesis using vals other by blast
qed


text \<open>A system on which nothing fails and no signal arrives: setup gets as far as its shell.\<close>

definition works :: "setup_os \<Rightarrow> bool" where
  "works os \<longleftrightarrow>
     (\<forall>what st. length what < 20 \<longrightarrow> temp_in os what (tmpdir os) st \<noteq> None) \<and> (\<forall>x. su_fdopen os x) \<and>
     (\<forall>x. su_fclose os x) \<and> su_pipe os \<and> su_fork os \<noteq> None \<and> su_dup2 os \<and> su_prctl os \<and> su_parent_alive os \<and>
     su_chdir os \<and> su_exec os \<and> su_wait os \<and> su_killed os = None \<and>
     su_before os = [] \<and> su_between os = [] \<and> su_running os = []"

lemma temp_file_works: "works os \<Longrightarrow> length what < 20 \<Longrightarrow> \<exists>p st1. temp_file os what st = (Some p, st1)"
proof -
  assume w: "works os" "length what < 20"
  then have "temp_in os what (tmpdir os) st \<noteq> None" "\<forall>x. su_fdopen os x" by (simp_all add: works_def)
  then obtain p where "temp_in os what (tmpdir os) st = Some p" "su_fdopen os p" by auto
  then show ?thesis by (simp add: temp_file_def make_temp_def Let_def)
qed

lemma capture_file_works: "works os \<Longrightarrow> \<exists>st1. capture_file os trace st = (\<not> trace, st1)"
proof -
  assume w: "works os"
  then obtain p where "temp_in os ''capture'' (tmpdir os) st = Some p" by (fastforce simp: works_def)
  with w show ?thesis by (auto simp: works_def capture_file_def make_temp_def Let_def)
qed

lemma prepare_works:
  assumes "works os" "p_install p \<noteq> []" "hm_workdir_ensure (su_fs os) workdir (ss_files st) = (True, fs)"
  shows "\<exists>script response st4. install_prepare os shell p body workdir trace st = Ready script response (\<not> trace) st4"
proof -
  obtain script st1 where tf: "temp_file os ''install'' (st\<lparr>ss_files := fs\<rparr>) = (Some script, st1)"
    using temp_file_works [OF assms(1), of "''install''" "st\<lparr>ss_files := fs\<rparr>"] by auto
  obtain st2 where ws: "write_script os shell p script st1 = (True, st2)"
    using assms(1) by (simp add: works_def write_script_def Let_def)
  obtain response st3 where wr: "write_response os body st2 = (response, st3)" by fastforce
  obtain st4 where cf: "capture_file os trace st3 = (\<not> trace, st4)" using capture_file_works [OF assms(1)] by blast
  have "su_pipe os" using assms(1) by (simp add: works_def)
  then show ?thesis
    using assms(2) cf by (cases trace) (simp_all add: install_prepare_def Let_def assms(3) tf ws wr)
qed

lemma no_signal_begin: "sg_signal (ss_sig (signals_begin os st)) = 0" if "su_before os = []"
  using that by (simp add: signals_begin_def begin_eq)

lemma child_prelude_works:
  assumes "works os" "sg_signal sig = 0"
  shows "child_prelude os trace capture sig = None"
  using assms by (simp add: works_def child_prelude_def child_signals_init_def Let_def end_eq)

lemma run_shell_works:
  "works os \<Longrightarrow> \<not> p_sandboxed p \<Longrightarrow> \<exists>run. run_shell os p argv environ workdir cache_dir proc = ChildShell run"
  by (simp add: works_def run_shell_def)

lemma install_works:
  assumes "works os" "p_install p \<noteq> []" "\<not> p_sandboxed p" "hm_workdir_ensure (su_fs os) workdir (ss_files st) = (True, fs)"
  shows "\<exists>run. ss_child (snd (hm_install os shell p old new body workdir cache_dir trace st)) = Some (ChildShell run) \<and>
    sg_signal (ss_sig (snd (hm_install os shell p old new body workdir cache_dir trace st))) = 0"
proof -
  obtain script response st4 where rd: "install_prepare os shell p body workdir trace st = Ready script response (\<not> trace) st4"
    using prepare_works [OF assms(1,2,4)] by blast
  obtain pid where f: "su_fork os = Some pid" using assms(1) by (auto simp: works_def)
  have b: "su_before os = []" and ch: "su_chdir os" using assms(1) by (simp_all add: works_def)
  obtain run where "install_child os shell p old new script response workdir cache_dir trace (\<not> trace)
      (ss_sig (signals_begin os st4)) (ss_proc st4) = ChildShell run"
    using child_prelude_works [OF assms(1) no_signal_begin [OF b]] run_shell_works [OF assms(1,3)] ch
    by (fastforce simp: install_child_def Let_def)
  moreover have "sg_signal (ss_sig (supervise os pid trace child (signals_begin os st4))) = 0" for child
    using assms(1) no_signal_begin [OF b, of st4] by (simp add: works_def supervise_def forward_signals_to_def Let_def)
  ultimately show ?thesis using install_forked [OF rd f refl refl prod.collapse [symmetric]] by simp
qed

lemma command_works:
  assumes "works os" "\<not> p_sandboxed p" "hm_workdir_ensure (su_fs os) workdir (ss_files st) = (True, fs)"
  shows "\<exists>run. ss_child (snd (hm_command_run os shell p workdir cache_dir trace st)) = Some (ChildShell run)"
proof -
  obtain st4 where cf: "capture_file os trace (st\<lparr>ss_files := fs\<rparr>) = (\<not> trace, st4)"
    using capture_file_works [OF assms(1)] by blast
  obtain pid where f: "su_fork os = Some pid" using assms(1) by (auto simp: works_def)
  have b: "su_before os = []" and w: "su_chdir os" "su_pipe os" "su_wait os" using assms(1) by (simp_all add: works_def)
  obtain run where c: "command_child os shell p workdir cache_dir trace (\<not> trace)
      (ss_sig (signals_begin os st4)) (ss_proc st4) = ChildShell run"
    using child_prelude_works [OF assms(1) no_signal_begin [OF b]] run_shell_works [OF assms(1,2)] w
    by (fastforce simp: command_child_def)
  then show ?thesis
    using w by (auto simp: hm_command_run_def Let_def assms(3) cf f reraise_eq)
qed

definition sample_setup :: setup_os where
  "sample_setup =
     \<lparr>su_fs = quiet_os, su_environ = [''HACMAN_WORKDIR=/other'', ''PATH=/bin'', ''TMPDIR=/t''],
      su_mkstemp = (\<lambda>t names. Some (t @ concat names @ ''x'')), su_fdopen = (\<lambda>_. True), su_room = (\<lambda>_. 4096),
      su_fwrite = (\<lambda>_. True), su_fclose = (\<lambda>_. True), su_unlink = (\<lambda>_. True), su_pipe = True,
      su_sigaction = (\<lambda>_. True), su_fork = Some 7, su_prctl = True, su_parent_alive = True, su_dup2 = True,
      su_chdir = True, su_sandbox = sample_sandbox, su_exec = True, su_before = [], su_between = [], su_running = [],
      su_wait = True, su_killed = None, su_run = (\<lambda>_. Exited 0), su_lseek = True, su_reads = [], su_error = ''error''\<rparr>"

definition idle_setup :: setup_state where
  "idle_setup =
     \<lparr>ss_files = sample_tree, ss_temps = [(''/t/old'', ''x'')], ss_out = out_init, ss_said = [],
      ss_sig = \<lparr>sg_action = (\<lambda>_. SigDefault), sg_saved = (\<lambda>_. SigDefault), sg_forwarding = (\<lambda>_. False), sg_child = 0,
        sg_signal = 0, sg_sent = []\<rparr>,
      ss_proc = \<lparr>ps_no_new_privs = False, ps_domain = []\<rparr>, ss_child = None\<rparr>"

definition sample_install :: hm_project where
  "sample_install = (project_defaults 1)\<lparr>p_name := ''t'', p_url := ''u'', p_install := ''make'', p_sandboxed := False\<rparr>"

lemma idle_sample: "idle_signals (ss_sig idle_setup)" "ss_child idle_setup = None"
  by (simp_all add: idle_signals_def idle_setup_def)

lemma sample_workdir: "\<exists>fs. hm_workdir_ensure (su_fs sample_setup) ''/c/w'' (ss_files idle_setup) = (True, fs)"
proof -
  have "fst (hm_workdir_ensure quiet_os ''/c/w'' sample_tree)" by code_simp
  then show ?thesis
    by (cases "hm_workdir_ensure quiet_os ''/c/w'' sample_tree") (simp add: sample_setup_def idle_setup_def)
qed

lemma sample_tmpdir: "tmpdir sample_setup = ''/t''"
  by code_simp

lemma sample_works: "works sample_setup"
proof -
  have "temp_in sample_setup what (tmpdir sample_setup) st \<noteq> None" if "length what < 20" for what st
    using that by (simp add: sample_tmpdir temp_in_def Let_def HM_TEMP_PATH_MAX_def) (simp add: sample_setup_def)
  then show ?thesis by (simp add: works_def) (simp add: sample_setup_def)
qed

lemma sample_child:
  "\<exists>run. ss_child (snd (hm_install sample_setup ''/bin/sh'' sample_install ''1'' ''2'' ''body'' ''/c/w'' ''/c'' False idle_setup)) =
      Some (ChildShell run) \<and>
     sg_signal (ss_sig (snd (hm_install sample_setup ''/bin/sh'' sample_install ''1'' ''2'' ''body'' ''/c/w'' ''/c'' False idle_setup))) = 0"
proof -
  obtain fs where "hm_workdir_ensure (su_fs sample_setup) ''/c/w'' (ss_files idle_setup) = (True, fs)"
    using sample_workdir by blast
  from install_works [OF sample_works _ _ this] show ?thesis by (simp add: sample_install_def)
qed

lemma sample_end: "end_status sample_setup (ChildShell run) = Exited 0" "su_wait sample_setup"
  by (simp_all add: end_status_def sample_setup_def)

lemma sample_tidy: "tidy sample_setup"
proof -
  have len: "x \<in> set names \<Longrightarrow> length x \<le> length (concat names)" for x :: string and names by (induction names) auto
  have "t @ concat names @ ''x'' \<notin> set names" for t names
  proof
    assume "t @ concat names @ ''x'' \<in> set names"
    from len [OF this] show False by simp
  qed
  moreover have "getenv (su_environ sample_setup) ''HACMAN_KEEP_TEMP'' = None" by code_simp
  ultimately show ?thesis by (simp add: tidy_def) (simp add: sample_setup_def)
qed



theorem command_environment_witness:
  "\<exists>run. ss_child (snd (hm_command_run sample_setup ''/bin/sh'' (sample_install\<lparr>p_command := ''make''\<rparr>) ''/c/w'' ''/c'' False idle_setup)) =
      Some (ChildShell run) \<and> sr_argv run = [''/bin/sh'', ''-c'', ''make''] \<and>
      getenv (sr_environ run) ''HACMAN_WORKDIR'' = Some ''/c/w''"
proof -
  let ?p = "sample_install\<lparr>p_command := ''make''\<rparr>"
  obtain fs where en: "hm_workdir_ensure (su_fs sample_setup) ''/c/w'' (ss_files idle_setup) = (True, fs)"
    using sample_workdir by blast
  have "\<not> p_sandboxed ?p" by (simp add: sample_install_def)
  from command_works [OF sample_works this en] obtain run where
    run: "ss_child (snd (hm_command_run sample_setup ''/bin/sh'' ?p ''/c/w'' ''/c'' False idle_setup)) = Some (ChildShell run)" by blast
  have "copied (HM_COMMAND_MAX + 1) ''make'' = ''make''" by (simp add: copied_def hm_str_copy_eq HM_COMMAND_MAX_def)
  with command_environment [OF prod.collapse [symmetric] idle_sample(2) run] run show ?thesis by auto
qed


end
