(* ===== verification/HM_Protocol.thy ===== *)
theory HM_Protocol
  imports HM_Session
begin

text \<open>
  Many hacman processes on one project (\<^verbatim>\<open>main\<close> of \<^verbatim>\<open>src/main.c\<close>, from the first load on): a step relation
  over the shared cache files, the update lock and the clock. Each rule is a piece of a run between two
  points where another process can interfere, and computes with the definitions of the driver
  (\<open>hm_cache_load\<close>, \<open>is_due\<close>, \<open>work\<close>). The lock is the kernel's record lock, which goes with its holder; the
  save inside \<open>work\<close> is one \<open>rename\<close>, so readers without the lock see the record before or after it.
\<close>

datatype phase =
    Away
  | Started
  | Waiting
  | Holding
  | Busy hm_cache int

record world =
  w_files :: cache_fs
  w_clock :: int
  w_lock :: "nat option"
  w_phase :: "nat \<Rightarrow> phase"
  w_done :: "(nat \<times> int) list"

definition move :: "nat \<Rightarrow> phase \<Rightarrow> world \<Rightarrow> world" where
  "move i ph w = w\<lparr>w_phase := (w_phase w)(i := ph)\<rparr>"

definition release :: "nat \<Rightarrow> world \<Rightarrow> world" where
  "release i w = move i Away (if w_lock w = Some i then w\<lparr>w_lock := None\<rparr> else w)"

definition load_now :: "hm_cache \<Rightarrow> bool \<Rightarrow> read_choice list \<Rightarrow> world \<Rightarrow> hm_cache option" where
  "load_now c unreadable reads w = hm_cache_load (record_open unreadable (w_files w) c) reads c"

text \<open>
  A load either fails or is not disturbed by a read error (in whatever chunks it reads). \<open>w_done\<close> lists the
  work that ended well, the latest first, with the time it is recorded under. A process may give up or be
  killed anywhere (\<open>die\<close>: a refused lock, a crash); whatever it leaves, the record file is the one before, a
  death after the \<open>rename\<close> being the end of its work.
\<close>

inductive step :: "hm_project \<Rightarrow> hm_opts \<Rightarrow> hm_cache \<Rightarrow> world \<Rightarrow> world \<Rightarrow> bool"
  for p :: hm_project and opts :: hm_opts and c :: hm_cache where
  tick: "0 \<le> d \<Longrightarrow> w_clock w + d < 2 ^ 63 \<Longrightarrow> step p opts c w (w\<lparr>w_clock := w_clock w + d\<rparr>)"
| start: "w_phase w i = Away \<Longrightarrow> step p opts c w (move i Started w)"
| fast_error: "w_phase w i = Started \<Longrightarrow> load_now c u rs w = None \<Longrightarrow> step p opts c w (move i Away w)"
| fast_skip: "w_phase w i = Started \<Longrightarrow> RdErr \<notin> set rs \<Longrightarrow> load_now c False rs w = Some c1 \<Longrightarrow>
    \<not> fst (is_due p c1 (w_clock w) opts 0 (\<not> exec_check p opts) x) \<Longrightarrow> step p opts c w (move i Away w)"
| fast_due: "w_phase w i = Started \<Longrightarrow> RdErr \<notin> set rs \<Longrightarrow> load_now c False rs w = Some c1 \<Longrightarrow>
    fst (is_due p c1 (w_clock w) opts 0 (\<not> exec_check p opts) x) \<or> exec_check p opts \<Longrightarrow>
    step p opts c w (move i Waiting w)"
| acquire: "w_phase w i = Waiting \<Longrightarrow> w_lock w = None \<Longrightarrow>
    step p opts c w (move i Holding (w\<lparr>w_lock := Some i\<rparr>))"
| recheck_error: "w_phase w i = Holding \<Longrightarrow> load_now c u rs w = None \<Longrightarrow> step p opts c w (release i w)"
| recheck_skip: "w_phase w i = Holding \<Longrightarrow> RdErr \<notin> set rs \<Longrightarrow> load_now c False rs w = Some c2 \<Longrightarrow>
    \<not> fst (is_due p c2 (w_clock w) opts 0 True x) \<Longrightarrow> step p opts c w (release i w)"
| recheck_due: "w_phase w i = Holding \<Longrightarrow> RdErr \<notin> set rs \<Longrightarrow> load_now c False rs w = Some c2 \<Longrightarrow>
    fst (is_due p c2 (w_clock w) opts 0 True x) \<Longrightarrow> step p opts c w (move i (Busy c2 (w_clock w)) w)"
| finish_work: "w_phase w i = Busy c2 now \<Longrightarrow> work h p opts now c2 True r = (oc, r') \<Longrightarrow> r_fs r = w_files w \<Longrightarrow>
    step p opts c w (release i (w\<lparr>w_files := r_fs r',
      w_done := (if oc = Exit 2 then w_done w else (i, now) # w_done w)\<rparr>))"
| die: "w_phase w i \<noteq> Away \<Longrightarrow> cf_files fs (k_path c) = cf_files (w_files w) (k_path c) \<Longrightarrow>
    step p opts c w (release i (w\<lparr>w_files := fs\<rparr>))"

text \<open>To begin with, nobody runs, and the record file is absent, foreign or has times a \<^verbatim>\<open>long\<close> holds.\<close>

inductive reachable :: "hm_project \<Rightarrow> hm_opts \<Rightarrow> hm_cache \<Rightarrow> world \<Rightarrow> bool"
  for p :: hm_project and opts :: hm_opts and c :: hm_cache where
  init: "\<forall>i. w_phase w i = Away \<Longrightarrow> w_lock w = None \<Longrightarrow> w_done w = [] \<Longrightarrow> 0 < w_clock w \<Longrightarrow> w_clock w < 2 ^ 63 \<Longrightarrow>
    cache_wf (set_record c (stored (k_path c) (k_identity c) (w_files w))) \<Longrightarrow> reachable p opts c w"
| more: "reachable p opts c w \<Longrightarrow> step p opts c w w' \<Longrightarrow> reachable p opts c w'"

inductive_cases stepE: "step p opts c w w'"

lemma move_fields [simp]:
  "w_files (move i ph w) = w_files w" "w_clock (move i ph w) = w_clock w" "w_lock (move i ph w) = w_lock w"
  "w_done (move i ph w) = w_done w" "w_phase (move i ph w) = (w_phase w)(i := ph)"
  by (simp_all add: move_def)

lemma release_fields [simp]:
  "w_files (release i w) = w_files w" "w_clock (release i w) = w_clock w" "w_done (release i w) = w_done w"
  "w_lock (release i w) = (if w_lock w = Some i then None else w_lock w)"
  "w_phase (release i w) = (w_phase w)(i := Away)"
  by (simp_all add: release_def)

section \<open>The lock\<close>

text \<open>Nobody takes a lock from its holder.\<close>

lemma lock_not_stolen: "step p opts c w w' \<Longrightarrow> w_lock w = Some i \<Longrightarrow> w_lock w' \<in> {Some i, None}"
  by (elim stepE) (simp_all split: if_split_asm)

fun inside_lock :: "phase \<Rightarrow> bool" where
  "inside_lock Holding = True"
| "inside_lock (Busy c now) = True"
| "inside_lock _ = False"

definition lock_inv :: "world \<Rightarrow> bool" where
  "lock_inv w \<longleftrightarrow> (\<forall>i. inside_lock (w_phase w i) \<longleftrightarrow> w_lock w = Some i) \<and> 0 < w_clock w \<and> w_clock w < 2 ^ 63"

lemma lock_inv_step: "step p opts c w w' \<Longrightarrow> lock_inv w \<Longrightarrow> lock_inv w'"
proof (induction rule: step.induct)
  case (acquire w i)
  then show ?case by (auto simp: lock_inv_def)
next
  case (recheck_due w i rs c2 x)
  then have "w_lock w = Some i" by (metis lock_inv_def inside_lock.simps(1))
  with recheck_due show ?case by (auto simp: lock_inv_def)
qed (auto simp: lock_inv_def, (metis inside_lock.simps)+)

lemma lock_inv_reachable: "reachable p opts c w \<Longrightarrow> lock_inv w"
proof (induction rule: reachable.induct)
  case (init w)
  then show ?case by (simp add: lock_inv_def)
qed (rule lock_inv_step)

section \<open>The record\<close>

text \<open>What such a load sees.\<close>

lemma load_now_stored:
  assumes "RdErr \<notin> set rs" "load_now c False rs w = Some c1"
  shows "c1 = set_record c (stored (k_path c) (k_identity c) (w_files w))"
  using assms cache_load_stored [of rs "w_files w" c] by (simp add: load_now_def record_open_def)

lemma set_record_fields [simp]:
  "k_path (set_record c r) = k_path c" "k_identity (set_record c r) = k_identity c"
  by (simp_all add: set_record_def clear_record_def split: option.split)

lemma set_record_Some [simp]:
  "k_last_check (set_record c (Some (a, b, m))) = a" "k_known (set_record c (Some (a, b, m)))"
  by (simp_all add: set_record_def)

lemma do_save_failed: "do_save h c' r1 = (2, r') \<Longrightarrow> hm_cache_save (h_save h) c' (r_fs r1) = (False, r_fs r')"
  by (auto simp: do_save_def split: prod.split_asm if_split_asm)

text \<open>Work that ends with status 2 leaves the stored record alone.\<close>

lemma command_failed:
  assumes "run_command_project h p opts now c r = (2, r')" "\<not> o_check_only opts" "\<not> o_dry_run opts"
  shows "r_fs r' = r_fs r \<or>
    hm_cache_save (h_save h) (c\<lparr>k_last_check := now, k_last_change := now\<rparr>) (r_fs r) = (False, r_fs r')"
  using assms by (auto simp: run_command_project_def Let_def dest!: do_save_failed split: if_split_asm)

lemma url_failed:
  assumes "run_url_project h p opts now c r = (2, r')" "\<not> o_check_only opts" "\<not> o_dry_run opts"
  shows "r_fs r' = r_fs r \<or>
    hm_cache_save (h_save h) (c\<lparr>k_last_check := now\<rparr>) (r_fs r) = (False, r_fs r') \<or>
    (\<exists>m. hm_cache_save (h_save h) (c\<lparr>k_mark := copied (Suc HM_MARK_MAX) m, k_last_check := now, k_last_change := now\<rparr>) (r_fs r) =
      (False, r_fs r'))"
proof -
  obtain res log where chk: "hm_check (h_xxh3 h) (h_curl h) p (r_log r) = (res, log)" by fastforce
  show ?thesis
  proof (cases res)
    case (Inl e)
    with assms(1) chk show ?thesis by (auto simp: run_url_project_def)
  next
    case (Inr x)
    obtain mark body where x: "x = (mark, body)" by fastforce
    show ?thesis
      using assms chk unfolding Inr x
      by (auto simp: run_url_project_def Let_def dest!: do_save_failed split: if_split_asm)
  qed
qed

lemma failed_save_keeps:
  "hm_cache_save e c' fs = (False, fs') \<Longrightarrow> cache_wf c' \<Longrightarrow> k_path c' = path \<Longrightarrow>
   stored path identity fs' = stored path identity fs"
  using stored_save_fail by blast

lemma work_failed:
  assumes "work h p opts now c locked r = (Exit 2, r')" "\<not> o_check_only opts" "\<not> o_dry_run opts" "cache_wf c"
    and "0 \<le> now" "now < 2 ^ 63"
  shows "stored (k_path c) identity (r_fs r') = stored (k_path c) identity (r_fs r)"
proof -
  obtain rc r1 where b: "(if p_kind p = HM_KIND_COMMAND then run_command_project h p opts now c r
      else run_url_project h p opts now c r) = (rc, r1)" by fastforce
  with assms(1) have fin: "finish_locked h p opts locked rc r1 = (Exit 2, r')" by (simp add: work_def)
  then have rc: "rc = 2" and fs: "r_fs r' = r_fs r1"
    by (auto simp: finish_locked_def finish_def Let_def split: if_split_asm)
  note wf = cache_wf_checked [OF assms(4-6)]
  show ?thesis
  proof (cases "p_kind p = HM_KIND_COMMAND")
    case True
    with b rc have "run_command_project h p opts now c r = (2, r1)" by simp
    from command_failed [OF this assms(2,3)] show ?thesis
      unfolding fs using failed_save_keeps [OF _ wf(2), where path = "k_path c" and identity = identity] by auto
  next
    case False
    with b rc have "run_url_project h p opts now c r = (2, r1)" by simp
    from url_failed [OF this assms(2,3)] show ?thesis
      unfolding fs using failed_save_keeps [OF _ wf(1), where path = "k_path c" and identity = identity]
        failed_save_keeps [OF _ wf(3), where path = "k_path c" and identity = identity] by auto
  qed
qed

lemma NUL_clean [simp]: "NUL \<in> set (clean m) \<longleftrightarrow> NUL \<in> set m"
  by (induction m) (simp_all add: clean_def)

lemma saved_record_wf:
  assumes "cache_wf (set_record c r)" "cache_wf c'"
  shows "cache_wf (set_record c (Some (k_last_check c', k_last_change c', clean (k_mark c'))))"
proof -
  have "k_path (set_record c r) = k_path c" "k_identity (set_record c r) = k_identity c" by simp_all
  with assms show ?thesis by (simp add: cache_wf_def) (simp add: set_record_def clear_record_def)
qed

text \<open>Work that ended well: the stored record is the new one.\<close>

lemma work_stored:
  assumes "work h p opts now c2 True r = (oc, r')" "oc \<noteq> Exit 2" "\<not> o_check_only opts" "\<not> o_dry_run opts"
    and "0 \<le> now" "now < 2 ^ 63" "cache_wf c2" "k_path c2 = k_path c" "k_identity c2 = k_identity c"
    and "cache_wf (set_record c r0)"
  shows "\<exists>b m. stored (k_path c) (k_identity c) (r_fs r') = Some (now, b, m) \<and>
    cache_wf (set_record c (Some (now, b, m)))"
proof -
  from work_saved [OF assms(1-6)] obtain c' fs where
    c': "hm_cache_save (h_save h) c' fs = (True, r_fs r')" "k_path c' = k_path c" "k_identity c' = k_identity c"
      "k_last_check c' = now" "cache_wf c'"
    using assms(7-9) by (auto simp: saved_now_def)
  from stored_save [OF c'(1,5), of "k_identity c"] c'(2-4)
  have "stored (k_path c) (k_identity c) (r_fs r') = Some (now, k_last_change c', clean (k_mark c'))" by simp
  with saved_record_wf [OF assms(10) c'(5)] c'(4) show ?thesis by auto
qed

definition record_inv :: "hm_project \<Rightarrow> hm_cache \<Rightarrow> world \<Rightarrow> bool" where
  "record_inv p c w \<longleftrightarrow>
     cache_wf (set_record c (stored (k_path c) (k_identity c) (w_files w))) \<and>
     sorted_wrt (\<lambda>a b. snd b + p_sched_interval p \<le> snd a) (w_done w) \<and>
     (\<forall>j t ds. w_done w = (j, t) # ds \<longrightarrow> 0 < t \<and> t \<le> w_clock w \<and>
        (\<exists>b m. stored (k_path c) (k_identity c) (w_files w) = Some (t, b, m))) \<and>
     (\<forall>i c2 now. w_phase w i = Busy c2 now \<longrightarrow> 0 < now \<and> now \<le> w_clock w \<and> cache_wf c2 \<and>
        k_path c2 = k_path c \<and> k_identity c2 = k_identity c \<and>
        (\<forall>j t ds. w_done w = (j, t) # ds \<longrightarrow> t + p_sched_interval p \<le> now))"

lemma record_invD:
  assumes "record_inv p c w"
  shows "cache_wf (set_record c (stored (k_path c) (k_identity c) (w_files w)))"
    and "sorted_wrt (\<lambda>a b. snd b + p_sched_interval p \<le> snd a) (w_done w)"
    and "w_done w = (j, t) # ds \<Longrightarrow> 0 < t \<and> t \<le> w_clock w \<and>
      (\<exists>b m. stored (k_path c) (k_identity c) (w_files w) = Some (t, b, m))"
    and "w_phase w i = Busy c2 now \<Longrightarrow> 0 < now \<and> now \<le> w_clock w \<and> cache_wf c2 \<and> k_path c2 = k_path c \<and>
      k_identity c2 = k_identity c \<and> (\<forall>j t ds. w_done w = (j, t) # ds \<longrightarrow> t + p_sched_interval p \<le> now)"
  using assms unfolding record_inv_def by blast+

lemma record_inv_move:
  "record_inv p c w \<Longrightarrow> (\<And>c2 now. ph \<noteq> Busy c2 now) \<Longrightarrow> record_inv p c (move i ph w)"
  unfolding record_inv_def by (simp add: fun_upd_apply)

lemma record_inv_release: "record_inv p c w \<Longrightarrow> record_inv p c (release i w)"
  unfolding record_inv_def by (simp add: fun_upd_apply)

lemma is_due_any_bin: "\<not> p_bin_cached p \<Longrightarrow> is_due p c now opts wait cb x = is_due p c now opts wait cb' True"
  by (simp add: is_due_def)

text \<open>A process finds the project due under the lock: the interval since the last work has passed.\<close>

lemma recheck_spaced:
  assumes "record_inv p c w" "lock_inv w" "periodic p opts" "\<not> p_bin_cached p"
    and "RdErr \<notin> set rs" "load_now c False rs w = Some c2" "fst (is_due p c2 (w_clock w) opts 0 True x)"
  shows "record_inv p c (move i (Busy c2 (w_clock w)) w)"
proof -
  have c2: "c2 = set_record c (stored (k_path c) (k_identity c) (w_files w))" by (rule load_now_stored [OF assms(5,6)])
  have wf: "cache_wf c2" using record_invD(1) [OF assms(1)] by (simp add: c2)
  have clock: "0 < w_clock w" "w_clock w < 2 ^ 63" using assms(2) by (simp_all add: lock_inv_def)
  have "t + p_sched_interval p \<le> w_clock w" if "w_done w = (j, t) # ds" for j t ds
  proof -
    from record_invD(3) [OF assms(1) that] have t: "0 < t" "t \<le> w_clock w" "k_last_check c2 = t" "k_known c2"
      by (auto simp: c2)
    have "clock_ok c2 (w_clock w)" using t clock by (simp add: clock_ok_def)
    have "\<not> fresh p c2 (w_clock w)"
    proof
      assume "fresh p c2 (w_clock w)"
      with is_due_periodic [OF assms(3) \<open>clock_ok c2 (w_clock w)\<close>, of False True 0]
      have "\<not> fst (is_due p c2 (w_clock w) opts 0 False True)" by simp
      with assms(7) show False
        by (simp only: is_due_any_bin [OF assms(4), where cb = True and x = x and cb' = False])
    qed
    with t show ?thesis by (auto simp: fresh_def)
  qed
  then show ?thesis
    using assms(1) wf clock unfolding record_inv_def by (auto simp: c2)
qed

text \<open>Work under the lock, whatever its end, keeps the invariant.\<close>

lemma finish_spaced:
  assumes "record_inv p c w" "lock_inv w" "\<not> o_check_only opts" "\<not> o_dry_run opts"
    and "w_phase w i = Busy c2 now" "work h p opts now c2 True r = (oc, r')" "r_fs r = w_files w"
    and "0 \<le> p_sched_interval p"
  shows "record_inv p c (release i (w\<lparr>w_files := r_fs r',
      w_done := (if oc = Exit 2 then w_done w else (i, now) # w_done w)\<rparr>))"
proof -
  note busy = record_invD(4) [OF assms(1,5)]
  have now: "0 \<le> now" "now < 2 ^ 63" using busy assms(2) by (auto simp: lock_inv_def)
  have lock: "w_lock w = Some i" using assms(2,5) by (metis lock_inv_def inside_lock.simps(2))
  have alone: "w_phase w j \<noteq> Busy c3 t" if "j \<noteq> i" for j c3 t
    using assms(2) lock that by (metis lock_inv_def inside_lock.simps(2) option.inject)
  let ?stored = "stored (k_path c) (k_identity c)"
  show ?thesis
  proof (cases "oc = Exit 2")
    case True
    have "?stored (r_fs r') = ?stored (w_files w)"
      using work_failed [of h p opts now c2 True r r' "k_identity c"] assms(3,4,6,7) True busy now by simp
    with assms(1) True show ?thesis unfolding record_inv_def by (simp add: fun_upd_apply)
  next
    case False
    obtain b m where st: "?stored (r_fs r') = Some (now, b, m)" "cache_wf (set_record c (Some (now, b, m)))"
      using work_stored [OF assms(6) False assms(3,4) now, of c] busy record_invD(1) [OF assms(1)] by blast
    have "snd a + p_sched_interval p \<le> now" if "a \<in> set (w_done w)" for a
    proof (cases "w_done w")
      case Nil
      with that show ?thesis by simp
    next
      case (Cons d ds)
      obtain j t where d: "d = (j, t)" by fastforce
      have head: "t + p_sched_interval p \<le> now" using busy Cons d by blast
      show ?thesis
      proof (cases "a = d")
        case True
        with head d show ?thesis by simp
      next
        case False
        with that Cons record_invD(2) [OF assms(1)] d have "snd a + p_sched_interval p \<le> t" by auto
        with head assms(8) show ?thesis by linarith
      qed
    qed
    then have "sorted_wrt (\<lambda>a b. snd b + p_sched_interval p \<le> snd a) ((i, now) # w_done w)"
      using record_invD(2) [OF assms(1)] by simp
    with False st busy alone show ?thesis
      unfolding record_inv_def by (simp add: fun_upd_apply)
  qed
qed

lemma record_inv_step:
  assumes "step p opts c w w'" "record_inv p c w" "lock_inv w"
    and "periodic p opts" "\<not> p_bin_cached p" "0 \<le> p_sched_interval p" "\<not> o_check_only opts" "\<not> o_dry_run opts"
  shows "record_inv p c w'"
  using assms(1-3)
proof (induction rule: step.induct)
  case (tick d w)
  then show ?case unfolding record_inv_def by (simp add: add_increasing2)
next
  case (acquire w i)
  have "record_inv p c (w\<lparr>w_lock := Some i\<rparr>)" using acquire.prems(1) unfolding record_inv_def by simp
  then show ?case by (rule record_inv_move) simp
next
  case (recheck_due w i rs c2 x)
  then show ?case by (auto intro: recheck_spaced [OF _ _ assms(4,5)])
next
  case (finish_work w i c2 now h r oc r')
  show ?case by (rule finish_spaced [OF finish_work.prems assms(7,8) finish_work.hyps assms(6)])
next
  case (die w i fs)
  have "stored (k_path c) (k_identity c) fs = stored (k_path c) (k_identity c) (w_files w)"
    using die.hyps(2) by (simp add: stored_def)
  then have "record_inv p c (w\<lparr>w_files := fs\<rparr>)" using die.prems(1) unfolding record_inv_def by simp
  then show ?case by (rule record_inv_release)
qed (simp_all add: record_inv_move record_inv_release)

lemma record_inv_reachable:
  assumes "reachable p opts c w" "periodic p opts" "\<not> p_bin_cached p" "0 \<le> p_sched_interval p"
    and "\<not> o_check_only opts" "\<not> o_dry_run opts"
  shows "record_inv p c w"
  using assms(1)
proof (induction rule: reachable.induct)
  case (init w)
  then show ?case by (simp add: record_inv_def)
next
  case (more w w')
  then show ?case by (intro record_inv_step [OF more(2,3) lock_inv_reachable [OF more(1)] assms(2-6)])
qed

section \<open>A run of two processes\<close>

definition quiet_project :: hm_project where
  "quiet_project = (project_defaults 1)\<lparr>p_kind := HM_KIND_COMMAND\<rparr>"

definition dawn :: world where
  "dawn = \<lparr>w_files = empty_fs, w_clock = 86000, w_lock = None, w_phase = (\<lambda>_. Away), w_done = []\<rparr>"

lemma quiet_project_simps [simp]:
  "p_kind quiet_project = HM_KIND_COMMAND" "\<not> p_bin_cached quiet_project" "p_bin_path quiet_project = []"
  "p_sched_interval quiet_project = 86400" "p_files quiet_project = []" "periodic quiet_project opts_init"
  "\<not> exec_check quiet_project opts_init" "\<not> o_check_only opts_init" "\<not> o_dry_run opts_init"
  by (simp_all add: quiet_project_def project_defaults_def periodic_def opts_init_def exec_check_def)

lemma quiet_work: "\<exists>r'. work sample_host quiet_project opts_init now c True r = (Exit 0, r')"
proof -
  obtain r0 where r0: "run_command_project sample_host quiet_project opts_init now c r =
      do_save sample_host (c\<lparr>k_last_check := now, k_last_change := now\<rparr>) r0"
    by (simp add: run_command_project_def Let_def opts_init_def sample_host_def)
  obtain fs' where "hm_cache_save sample_save_env (c\<lparr>k_last_check := now, k_last_change := now\<rparr>) (r_fs r0) = (True, fs')"
    using sample_save_eq by blast
  with r0 show ?thesis
    by (simp add: do_save_def sample_host_def work_def finish_locked_def finish_def Let_def)
qed

definition overdue :: "hm_project \<Rightarrow> hm_cache \<Rightarrow> world \<Rightarrow> bool" where
  "overdue p c w \<longleftrightarrow> \<not> fresh p (set_record c (stored (k_path c) (k_identity c) (w_files w))) (w_clock w)"

lemma dawn_reachable: "reachable p opts sample_cache dawn"
  using sample_cache_wf
  by (intro reachable.init) (simp_all add: dawn_def stored_def empty_fs_def set_record_def clear_record_def cache_wf_def)

text \<open>A process that starts when the project is overdue and the lock free gets as far as the lock.\<close>

lemma overdue_is_due:
  assumes "reachable p opts c w" "periodic p opts" "\<not> p_bin_cached p" "0 \<le> p_sched_interval p"
    and "\<not> o_check_only opts" "\<not> o_dry_run opts" "overdue p c w"
  shows "fst (is_due p (set_record c (stored (k_path c) (k_identity c) (w_files w))) (w_clock w) opts 0 cb True)"
proof -
  let ?c = "set_record c (stored (k_path c) (k_identity c) (w_files w))"
  have "cache_wf ?c" by (rule record_invD(1) [OF record_inv_reachable [OF assms(1-6)]])
  with lock_inv_reachable [OF assms(1)] have "clock_ok ?c (w_clock w)"
    by (simp add: lock_inv_def clock_ok_def cache_wf_def)
  from is_due_periodic [OF assms(2) this, of False True 0] assms(7)
  have "fst (is_due p ?c (w_clock w) opts 0 False True)" by (simp add: overdue_def)
  then show ?thesis by (simp only: is_due_any_bin [OF assms(3), where cb = cb and x = True and cb' = False])
qed

lemma load_now_quiet: "load_now c False [] w = Some (set_record c (stored (k_path c) (k_identity c) (w_files w)))"
  using cache_load_stored [of "[]" "w_files w" c] by (simp add: load_now_def record_open_def)

lemma move_move [simp]:
  "move i b (move i a w) = move i b w"
  "move i b ((move i a w)\<lparr>w_lock := l\<rparr>) = move i b (w\<lparr>w_lock := l\<rparr>)"
  by (simp_all add: move_def)

lemma reach_lock:
  assumes "reachable p opts c w" "periodic p opts" "\<not> p_bin_cached p" "0 \<le> p_sched_interval p"
    and "\<not> o_check_only opts" "\<not> o_dry_run opts" "overdue p c w" "w_phase w i = Away" "w_lock w = None"
  shows "reachable p opts c (move i Holding (w\<lparr>w_lock := Some i\<rparr>))"
proof -
  note due = overdue_is_due [OF assms(1-7)]
  have "step p opts c w (move i Started w)" by (rule step.start) (rule assms(8))
  with assms(1) have "reachable p opts c (move i Started w)" by (rule reachable.more)
  moreover have "step p opts c (move i Started w) (move i Waiting (move i Started w))"
    by (rule step.fast_due [where rs = "[]" and x = True]) (simp, simp, rule load_now_quiet, simp add: due)
  ultimately have "reachable p opts c (move i Waiting w)" by (metis reachable.more move_move(1))
  moreover have "step p opts c (move i Waiting w) (move i Holding ((move i Waiting w)\<lparr>w_lock := Some i\<rparr>))"
    by (rule step.acquire) (simp_all add: assms(9))
  ultimately show ?thesis by (metis reachable.more move_move(2))
qed

lemma reach_work:
  assumes "reachable p opts c w" "periodic p opts" "\<not> p_bin_cached p" "0 \<le> p_sched_interval p"
    and "\<not> o_check_only opts" "\<not> o_dry_run opts" "overdue p c w" "w_phase w i = Away" "w_lock w = None"
    and "c2 = set_record c (stored (k_path c) (k_identity c) (w_files w))"
    and "work h p opts (w_clock w) c2 True r = (oc, r')" "oc \<noteq> Exit 2" "r_fs r = w_files w"
  shows "reachable p opts c (w\<lparr>w_files := r_fs r', w_done := (i, w_clock w) # w_done w\<rparr>)"
proof -
  let ?h = "move i Holding (w\<lparr>w_lock := Some i\<rparr>)"
  let ?b = "move i (Busy c2 (w_clock w)) ?h"
  let ?e = "release i (?b\<lparr>w_files := r_fs r', w_done := (if oc = Exit 2 then w_done ?b else (i, w_clock w) # w_done ?b)\<rparr>)"
  note due = overdue_is_due [OF assms(1-7)]
  have "load_now c False [] ?h = Some c2" using load_now_quiet [of c ?h] assms(10) by simp
  moreover have "fst (is_due p c2 (w_clock ?h) opts 0 True True)" using due assms(10) by simp
  ultimately have "step p opts c ?h (move i (Busy c2 (w_clock ?h)) ?h)"
    by (intro step.recheck_due [where rs = "[]" and x = True]) simp_all
  then have "reachable p opts c ?b" by (intro reachable.more [OF reach_lock [OF assms(1-9)]]) simp
  moreover have "step p opts c ?b ?e"
    by (rule step.finish_work [OF _ assms(11)]) (simp_all add: assms(13))
  ultimately have "reachable p opts c ?e" by (rule reachable.more)
  moreover have "?e = w\<lparr>w_files := r_fs r', w_done := (i, w_clock w) # w_done w\<rparr>"
    using assms(8,9,12) by (intro world.equality) (simp_all add: fun_upd_idem)
  ultimately show ?thesis by simp
qed

lemma dawn_simps [simp]:
  "w_clock dawn = 86000" "w_lock dawn = None" "w_phase dawn = (\<lambda>_. Away)" "w_done dawn = []" "w_files dawn = empty_fs"
  by (simp_all add: dawn_def)

lemma dawn_overdue: "overdue p sample_cache dawn"
  by (simp add: overdue_def stored_def empty_fs_def set_record_def clear_record_def fresh_def)

text \<open>Two updates, an interval apart, by two processes.\<close>

lemma two_updates:
  "\<exists>w. reachable quiet_project opts_init sample_cache w \<and> w_done w = [(1, 172400), (0, 86000)]"
proof -
  let ?s = "stored (k_path sample_cache) (k_identity sample_cache)" and ?p = quiet_project and ?o = opts_init
  obtain r1 where r1: "work sample_host ?p ?o 86000 (set_record sample_cache (?s empty_fs)) True (start_run empty_fs) =
      (Exit 0, r1)" using quiet_work by blast
  let ?w1 = "dawn\<lparr>w_files := r_fs r1, w_done := [(0, 86000)]\<rparr>"
  have "reachable ?p ?o sample_cache ?w1"
    using reach_work [OF dawn_reachable _ _ _ _ _ dawn_overdue, of ?p ?o 0 _ sample_host "start_run empty_fs" "Exit 0" r1] r1
    by (simp add: start_run_def)
  then have w2: "reachable ?p ?o sample_cache (?w1\<lparr>w_clock := w_clock ?w1 + 86400\<rparr>)" (is "reachable _ _ _ ?w2")
    by (rule reachable.more) (rule step.tick, simp_all)
  from record_inv_reachable [OF w2] obtain b m where "?s (r_fs r1) = Some (86000, b, m)"
    by (auto simp: record_inv_def)
  then have due: "overdue ?p sample_cache ?w2" by (simp add: overdue_def fresh_def)
  obtain r2 where r2: "work sample_host ?p ?o 172400 (set_record sample_cache (?s (r_fs r1))) True (start_run (r_fs r1)) =
      (Exit 0, r2)" using quiet_work by blast
  have "reachable ?p ?o sample_cache (?w2\<lparr>w_files := r_fs r2, w_done := (1, w_clock ?w2) # w_done ?w2\<rparr>)"
    using reach_work [OF w2 _ _ _ _ _ due, of 1 _ sample_host "start_run (r_fs r1)" "Exit 0" r2] r2
    by (simp add: start_run_def)
  then show ?thesis by (rule exI [where x = "?w2\<lparr>w_files := r_fs r2, w_done := (1, w_clock ?w2) # w_done ?w2\<rparr>", OF conjI]) simp
qed

section \<open>Properties\<close>

text \<open>
  At most one process is ever between taking the update lock and releasing it, however many start,
  wait, fail or are killed at any point.
\<close>
theorem one_updater_at_a_time:
  assumes "reachable p opts c w" "inside_lock (w_phase w i)" "j \<noteq> i"
  shows "\<not> inside_lock (w_phase w j)"
  using lock_inv_reachable [OF assms(1)] assms(2,3) by (metis lock_inv_def option.inject)

theorem one_updater_at_a_time_witness:
  "\<not> inside_lock (w_phase (move 0 Holding (dawn\<lparr>w_lock := Some 0\<rparr>)) 1)"
proof -
  have "reachable quiet_project opts_init sample_cache (move 0 Holding (dawn\<lparr>w_lock := Some 0\<rparr>))"
    using reach_lock [OF dawn_reachable _ _ _ _ _ dawn_overdue, of quiet_project opts_init 0] by simp
  from one_updater_at_a_time [OF this, of 0 1] show ?thesis by simp
qed



end
