(* ===== verification/HM_Clean_Start.thy ===== *)
theory HM_Clean_Start
  imports HM_Materialize
begin

text \<open>
  Reset and materialisation together (\<^verbatim>\<open>run_command_project\<close> of \<^verbatim>\<open>src/main.c\<close> calls \<open>hm_workdir_reset\<close>, then
  \<open>hm_materialize_files\<close> for a project without a record): what the setup command finds in its work directory.
\<close>

section \<open>Creating the work directory again\<close>

definition plain_parents :: "files \<Rightarrow> path \<Rightarrow> bool" where
  "plain_parents fs w \<longleftrightarrow> w \<noteq> [] \<and> list_all real_name w \<and> (\<forall>i<length w. \<exists>v. look fs (take i w) = Some (EDir v))"

text \<open>The tree \<open>fs\<close> with at most the directory \<open>w\<close> added.\<close>

definition only_dir :: "path \<Rightarrow> files \<Rightarrow> files \<Rightarrow> bool" where
  "only_dir w fs fs' \<longleftrightarrow>
     (\<forall>q. q \<noteq> w \<longrightarrow> look fs' q = look fs q) \<and> look fs' w \<in> {None, Some (EDir True)}"

lemma above_not_self: "i < length w \<Longrightarrow> take i w \<noteq> w"
  using arg_cong [of "take i w" w length] by auto

lemma only_dir_parents: "plain_parents fs w \<Longrightarrow> only_dir w fs fs' \<Longrightarrow> plain_parents fs' w"
  using above_not_self [of _ w] by (simp add: plain_parents_def only_dir_def)

lemma resolve_parents:
  assumes "plain_parents fs w" "split_on SLASH path = [] # take k w" "0 < k" "k \<le> length w"
  shows "resolve e fs path False = At (take k w)"
proof -
  have w: "list_all real_name (take k w)"
    using assms(1) by (auto simp: plain_parents_def list_all_iff dest: in_set_takeD)
  have "take i (take k w) = take i w" if "i < k" for i using that by (simp add: min_def)
  then have "walk 40 fs [] (take k w) False = At ([] @ take k w)"
    using assms(1,4) by (intro walk_plain w) (simp add: plain_parents_def)
  moreover have "take 1 path = [SLASH]"
  proof -
    obtain x xs where "take k w = x # xs" using assms(1,3) by (cases w; cases k) (auto simp: plain_parents_def)
    then show ?thesis using split_on_Cons_Nil [of SLASH path] assms(2) by auto
  qed
  ultimately show ?thesis unfolding resolve_def assms(2) by (simp add: walk.simps(2) [of _ _ _ "[]"])
qed

lemma mkdir_only_dir:
  assumes "plain_parents fs0 w" "only_dir w fs0 fs" "split_on SLASH path = [] # take k w" "0 < k" "k \<le> length w"
    and "sys_mkdir e fs path = (r, fs')"
  shows "only_dir w fs0 fs'"
proof -
  note pp = only_dir_parents [OF assms(1,2)]
  note rs = resolve_parents [OF pp assms(3-5), of e]
  show ?thesis
  proof (cases "k = length w")
    case True
    then show ?thesis using assms(2,6) rs by (auto simp: sys_mkdir_def only_dir_def split: if_split_asm)
  next
    case False
    then have "k < length w" using assms(5) by simp
    then have "look fs (take k w) \<noteq> None" using pp by (auto simp: plain_parents_def dest: spec [of _ k])
    then show ?thesis using assms(2,6) rs by (auto simp: sys_mkdir_def split: if_split_asm)
  qed
qed

lemma mkdir_each_only_dir:
  assumes "plain_parents fs0 w" "only_dir w fs0 fs" "mkdir_each e pres fs = (ok, fs')"
    and "\<And>pre. pre \<in> set pres \<Longrightarrow> \<exists>k. split_on SLASH pre = [] # take k w \<and> 0 < k \<and> k \<le> length w"
  shows "only_dir w fs0 fs'"
  using assms
proof (induction pres arbitrary: fs)
  case (Cons pre pres)
  obtain r fs1 where m: "sys_mkdir e fs pre = (r, fs1)" by fastforce
  obtain k where "split_on SLASH pre = [] # take k w" "0 < k" "k \<le> length w" using Cons.prems(4) [of pre] by auto
  from mkdir_only_dir [OF Cons.prems(1,2) this m] have "only_dir w fs0 fs1" .
  with Cons.IH [OF Cons.prems(1)] Cons.prems(3,4) m show ?case by (cases r) auto
qed simp

lemma prefix_of_path_string:
  assumes "list_all real_name w" "pre \<in> set (prefixes (path_string w))"
  shows "\<exists>k. split_on SLASH pre = [] # take k w \<and> 0 < k \<and> k \<le> length w"
proof -
  from prefixes_boundary [OF assms(2)] boundary_split obtain ms where
    s: "[] # w = split_on SLASH pre @ ms" "pre \<noteq> []" using split_path_string [OF assms(1)] by metis
  then obtain x where x: "split_on SLASH pre = [] # x" "w = x @ ms" by (cases "split_on SLASH pre") auto
  have "x \<noteq> []" using x(1) s(2) by (cases pre) (auto split: if_split_asm list.split_asm)
  with x show ?thesis by (intro exI [of _ "length x"]) simp
qed

text \<open>Once a work directory has been removed, ensuring it leaves an empty real directory in its place.\<close>

lemma workdir_ensure_creates:
  assumes "plain_parents fs w" "gone w fs" "hm_workdir_ensure e (path_string w) fs = (True, fs')"
  shows "plain_dir fs' w \<and> (\<forall>q. q \<noteq> w \<longrightarrow> look fs' q = look fs q)"
proof -
  have w: "list_all real_name w" using assms(1) by (simp add: plain_parents_def)
  have start: "only_dir w fs fs" using assms(2) by (simp add: only_dir_def gone_def)
  from assms(3) obtain v where m: "make_dirs e (path_string w) fs = (True, fs')"
    and st: "sys_lstat e fs' (path_string w) = StDir v"
    by (auto simp: hm_workdir_ensure_def split: prod.split_asm bool.split_asm stat_result.split_asm)
  from m have "mkdir_each e (prefixes (path_string w)) fs = (True, fs')" by (simp add: make_dirs_def split: if_split_asm)
  from mkdir_each_only_dir [OF assms(1) start this prefix_of_path_string [OF w]]
  have od: "only_dir w fs fs'" .
  note pp = only_dir_parents [OF assms(1) od]
  have "resolve e fs' (path_string w) False = At w"
    using resolve_parents [OF pp, of "path_string w" "length w" e] split_path_string [OF w] assms(1)
    by (simp add: plain_parents_def)
  with st have "look fs' w = Some (EDir v)"
    by (auto simp: sys_lstat_def split: if_split_asm option.split_asm entry.split_asm)
  with pp have "plain_dir fs' w" by (auto simp: plain_dir_def plain_parents_def le_less)
  with od show ?thesis by (simp add: only_dir_def)
qed

lemma not_under_take: "i < length w \<Longrightarrow> \<not> under w (take i w)"
  using arg_cong [of "take (length w) (take i w)" w length] by (auto simp: under_def)

section \<open>Setup starts from a known state\<close>

text \<open>
  Everything at or below \<open>w\<close> belongs to the project: the directory itself, each embedded file with its
  block's lines, and the directories leading there; no symbolic link.
\<close>

definition clean_start :: "path \<Rightarrow> hm_project \<Rightarrow> files \<Rightarrow> bool" where
  "clean_start w p fs \<longleftrightarrow>
     plain_dir fs w \<and> linkless w fs \<and>
     list_all (\<lambda>f. look fs (w @ split_on SLASH (ef_path f)) = Some (EReg (file_text (block_lines f)))) (p_files p) \<and>
     (\<forall>q. under w q \<longrightarrow> look fs q \<noteq> None \<longrightarrow> q = w \<or> (\<exists>f\<in>set (p_files p). under q (w @ split_on SLASH (ef_path f))))"

text \<open>An ensured work directory is clean if it was missing and the project has no files, or if it was clean before.\<close>

lemma ensure_clean_empty:
  assumes "plain_parents fs w" "gone w fs" "hm_workdir_ensure e (path_string w) fs = (True, fs')" "p_files p = []"
  shows "clean_start w p fs' \<and> (\<forall>q. \<not> under w q \<longrightarrow> look fs' q = look fs q)"
proof -
  from workdir_ensure_creates [OF assms(1-3)] have pd: "plain_dir fs' w" and same: "\<And>q. q \<noteq> w \<Longrightarrow> look fs' q = look fs q"
    by blast+
  have only: "q = w" if "under w q" "look fs' q \<noteq> None" for q
    using that same [of q] assms(2) by (cases "q = w") (auto simp: gone_def)
  obtain v where "look fs' w = Some (EDir v)" using pd by (auto simp: plain_dir_def dest: spec [of _ "length w"])
  then have "linkless w fs'" unfolding linkless_def using only by (metis entry.distinct(3) option.distinct(1) option.inject)
  moreover have "look fs' q = look fs q" if "\<not> under w q" for q using that by (intro same) auto
  ultimately show ?thesis using pd only assms(4) by (simp add: clean_start_def)
qed

lemma ensure_clean_again:
  assumes "clean_start w p fs" "hm_workdir_ensure e (path_string w) fs = (ok, fs')"
  shows "clean_start w p fs' \<and> (\<forall>q. \<not> under w q \<longrightarrow> look fs' q = look fs q)"
proof -
  have pd: "plain_dir fs w" "linkless w fs" using assms(1) by (simp_all add: clean_start_def)
  have k: "kept w fs fs'" "grown w {w} fs fs'" "files_stay {} fs fs'"
    using workdir_ensure_kept [OF pd assms(2), of "{}"] by blast+
  have "q = w \<or> look fs q \<noteq> None" if "under w q" "look fs' q \<noteq> None" for q
  proof (rule ccontr)
    assume no: "\<not> (q = w \<or> look fs q \<noteq> None)"
    with k(2) that have "under q w" by (auto simp: grown_def)
    with that(1) have "q = w" by (auto elim!: underE)
    with no show False by simp
  qed
  with k assms(1) show ?thesis
    unfolding clean_start_def by (fastforce simp: kept_def files_stay_def list_all_iff)
qed



text \<open>A successful reset leaves the parents in place and nothing else of the tree.\<close>

lemma reset_clears:
  assumes "plain_parents fs w" "named fs" "closed fs" "hm_workdir_reset e (path_string w) fs = Some (True, fs1)"
  shows "pruned w fs fs1" "plain_parents fs1 w" "gone w fs1"
proof -
  have "anchored e (path_string w) w fs" using assms(1) by (intro plain_anchored) (auto simp: plain_parents_def)
  from workdir_reset_spec [OF this assms(2,3)] assms(4) show pr: "pruned w fs fs1" and "gone w fs1" by auto
  show "plain_parents fs1 w"
    using assms(1) pr above_not_self [of _ w] not_under_take [of _ w] by (auto simp: plain_parents_def pruned_def)
qed

lemma reset_then_files:
  assumes "plain_parents fs w" "named fs" "closed fs" "hm_workdir_reset e (path_string w) fs = Some (True, fs1)"
    and "list_all (\<lambda>f. safe_path (ef_path f)) (p_files p)" "distinct (map ef_path (p_files p))"
    and "hm_materialize_files e2 pid p (path_string w) fs1 = (True, fs2)"
  shows "clean_start w p fs2 \<and> (\<forall>q. \<not> under w q \<longrightarrow> look fs2 q = look fs q)"
proof -
  note cleared = reset_clears [OF assms(1-4)]
  note pr = cleared(1) and gone = cleared(3)
  obtain fs3 where en: "hm_workdir_ensure e2 (path_string w) fs1 = (True, fs3)"
    and wr: "write_all_files e2 pid (p_files p) (path_string w) fs3 = (True, fs2)"
    using assms(7) by (auto simp: hm_materialize_files_def split: prod.split_asm bool.split_asm)
  then have pd: "plain_dir fs3 w" and same: "\<And>q. q \<noteq> w \<Longrightarrow> look fs3 q = look fs1 q"
    using workdir_ensure_creates [OF cleared(2,3) en] by blast+
  have ll: "linkless w fs3"
    using pd same gone by (auto simp: linkless_def gone_def plain_dir_def) (metis entry.distinct(3) le_refl option.distinct(1) option.inject take_all)
  note made = write_all_files_ok [OF pd ll assms(5,6) wr]
  have "linkless w fs2" "plain_dir fs2 w" using made pd ll by (simp_all add: kept_def)
  moreover have "look fs2 q = look fs q" if "\<not> under w q" for q
  proof -
    have "q \<noteq> w" using that under_refl by blast
    with made same pr that show ?thesis by (simp add: kept_def pruned_def)
  qed
  moreover have "q = w \<or> (\<exists>f\<in>set (p_files p). under q (w @ split_on SLASH (ef_path f)))"
    if "under w q" "look fs2 q \<noteq> None" for q
  proof (cases "q = w")
    case False
    with same gone that(1) have "look fs3 q = None" by (simp add: gone_def)
    with made that show ?thesis by (auto simp: grown_def)
  qed simp
  ultimately show ?thesis using made by (auto simp: clean_start_def list_all_iff embedded_text_def collect_block_lines)
qed

end
