(* ===== verification/HM_System.thy ===== *)
theory HM_System
  imports HM_Session HM_Setup HM_Clean_Start HM_Config_Inv
begin

text \<open>
  The driver and the installer together. The driver's model (\<open>HM_Driver\<close>) takes the steps of a setup with
  their success; here these are the ones of \<^verbatim>\<open>src/install.c\<close>, called one after the other on one state as
  \<^verbatim>\<open>run_command_project\<close> and \<^verbatim>\<open>main\<close> call them (\<open>command_setup\<close>, \<open>url_setup\<close>). What is recorded as done was
  done, from a clean work directory. \<open>ss_files\<close> is the tree as the shell finds it: what the shell changes
  there is its own. The project comes out of the parser (\<open>loaded\<close>), whose checks discharge what the installer
  needs of it.
\<close>

section \<open>The files a setup starts with\<close>

lemma files_of_parts [simp]:
  "ss_files (drop_temp os path st) = ss_files st" "ss_files (put_temp os path text st) = ss_files st"
  "ss_files (drop_response os response st) = ss_files st" "ss_files (replay_capture os capture st) = ss_files st"
  "ss_files (report_end name what ws st) = ss_files st" "ss_files (signals_begin os st) = ss_files st"
  "ss_files (signals_end st) = ss_files st" "ss_files (supervise os pid trace child st) = ss_files st"
  by (simp_all add: drop_temp_def put_temp_def drop_response_def replay_capture_def report_end_def signals_begin_def
      signals_end_def supervise_def split: option.split wait_status.split)

lemma make_temp_files: "make_temp os what st = (r, st') \<Longrightarrow> ss_files st' = ss_files st"
  by (auto simp: make_temp_def Let_def split: option.split_asm if_split_asm)

lemma temp_file_files: "temp_file os what st = (r, st') \<Longrightarrow> ss_files st' = ss_files st"
  by (auto simp: temp_file_def dest!: make_temp_files split: prod.split_asm option.split_asm if_split_asm)

lemma capture_file_files: "capture_file os trace st = (r, st') \<Longrightarrow> ss_files st' = ss_files st"
  by (auto simp: capture_file_def Let_def dest!: make_temp_files split: prod.split_asm option.split_asm if_split_asm)

lemma write_response_files: "write_response os body st = (r, st') \<Longrightarrow> ss_files st' = ss_files st"
  by (auto simp: write_response_def Let_def dest!: temp_file_files split: prod.split_asm option.split_asm if_split_asm)

lemma write_script_files: "write_script os shell p path st = (r, st') \<Longrightarrow> ss_files st' = ss_files st"
  by (auto simp: write_script_def Let_def split: if_split_asm)

lemma cleanup_files: "ss_files (snd (install_cleanup os name script response rc st)) = ss_files st"
  by (simp add: install_cleanup_def Let_def reraise_eq)

lemma command_files:
  assumes "hm_workdir_ensure (su_fs os) workdir (ss_files st) = (ok, fs)"
  shows "ss_files (snd (hm_command_run os shell p workdir cache_dir trace st)) = fs"
proof -
  obtain capture st4 where cf: "capture_file os trace (st\<lparr>ss_files := fs\<rparr>) = (capture, st4)" by fastforce
  have "ss_files st4 = fs" using capture_file_files [OF cf] by simp
  then show ?thesis
    by (cases ok; cases "su_fork os") (simp_all add: hm_command_run_def Let_def assms cf reraise_eq)
qed

lemma prepare_files:
  assumes "hm_workdir_ensure (su_fs os) workdir (ss_files st) = (ok, fs)" "p_install p \<noteq> []"
  shows "case install_prepare os shell p body workdir trace st of
      NotReady r \<Rightarrow> ss_files (snd r) = fs | Ready script response capture st4 \<Rightarrow> ss_files st4 = fs"
proof -
  obtain s st1 where tf: "temp_file os ''install'' (st\<lparr>ss_files := fs\<rparr>) = (s, st1)" by fastforce
  have f1: "ss_files st1 = fs" using temp_file_files [OF tf] by simp
  show ?thesis
  proof (cases s)
    case None
    then show ?thesis using assms f1 tf by (cases ok) (simp_all add: install_prepare_def Let_def)
  next
    case (Some script)
    obtain w st2 where ws: "write_script os shell p script st1 = (w, st2)" by fastforce
    obtain response st3 where wr: "write_response os body st2 = (response, st3)" by fastforce
    obtain capture st4 where cf: "capture_file os trace st3 = (capture, st4)" by fastforce
    have "ss_files st2 = fs" "ss_files st4 = fs"
      using f1 write_script_files [OF ws] write_response_files [OF wr] capture_file_files [OF cf] by simp_all
    then show ?thesis
      using assms tf Some ws wr cf by (cases ok; cases w) (simp_all add: install_prepare_def Let_def cleanup_files)
  qed
qed

lemma install_files:
  assumes "hm_workdir_ensure (su_fs os) workdir (ss_files st) = (ok, fs)" "p_install p \<noteq> []"
  shows "ss_files (snd (hm_install os shell p old new body workdir cache_dir trace st)) = fs"
proof (cases "install_prepare os shell p body workdir trace st")
  case (NotReady r)
  then show ?thesis using prepare_files [OF assms, of shell body trace] by (simp add: hm_install_def)
next
  case (Ready script response capture st4)
  then have "ss_files st4 = fs" using prepare_files [OF assms, of shell body trace] by simp
  then show ?thesis
    by (cases "su_fork os") (simp_all add: hm_install_def Let_def Ready cleanup_files)
qed

section \<open>The setup of a command project\<close>

definition command_setup ::
  "os_env \<Rightarrow> os_env \<Rightarrow> nat \<Rightarrow> setup_os \<Rightarrow> string \<Rightarrow> hm_project \<Rightarrow> hm_cache \<Rightarrow> string \<Rightarrow> bool \<Rightarrow> setup_state \<Rightarrow>
   setup_result \<times> setup_state" where
  "command_setup e1 e2 pid os shell p c cache_dir trace st =
     (case (if k_known c then Some (True, ss_files st) else hm_workdir_reset e1 (k_workdir c) (ss_files st)) of
        None \<Rightarrow> (Returned (-1), st)
      | Some (False, fs) \<Rightarrow> (Returned (-1), st\<lparr>ss_files := fs\<rparr>)
      | Some (True, fs) \<Rightarrow>
          (case (if length (p_files p) > 0 then hm_materialize_files e2 pid p (k_workdir c) fs else (True, fs)) of
             (False, fs2) \<Rightarrow> (Returned (-1), st\<lparr>ss_files := fs2\<rparr>)
           | (True, fs2) \<Rightarrow> hm_command_run os shell p (k_workdir c) cache_dir trace (st\<lparr>ss_files := fs2\<rparr>)))"

definition url_setup ::
  "os_env \<Rightarrow> setup_os \<Rightarrow> string \<Rightarrow> hm_project \<Rightarrow> string \<Rightarrow> string \<Rightarrow> string \<Rightarrow> string \<Rightarrow> string \<Rightarrow> bool \<Rightarrow> setup_state \<Rightarrow>
   setup_result \<times> setup_state" where
  "url_setup e1 os shell p old new body workdir cache_dir trace st =
     (case hm_workdir_reset e1 workdir (ss_files st) of
        None \<Rightarrow> (Returned (-1), st)
      | Some (False, fs) \<Rightarrow> (Returned (-1), st\<lparr>ss_files := fs\<rparr>)
      | Some (True, fs) \<Rightarrow> hm_install os shell p old new body workdir cache_dir trace (st\<lparr>ss_files := fs\<rparr>))"

text \<open>A host whose answers to the driver are what these steps end with.\<close>

definition command_reports ::
  "host \<Rightarrow> os_env \<Rightarrow> os_env \<Rightarrow> nat \<Rightarrow> setup_os \<Rightarrow> string \<Rightarrow> hm_project \<Rightarrow> hm_cache \<Rightarrow> string \<Rightarrow> bool \<Rightarrow> setup_state \<Rightarrow> bool" where
  "command_reports h e1 e2 pid os shell p c cache_dir trace st \<longleftrightarrow>
     (\<forall>ok fs. hm_workdir_reset e1 (k_workdir c) (ss_files st) = Some (ok, fs) \<longrightarrow> h_reset h = ok \<and>
        (ok \<longrightarrow> h_materialize h = fst (hm_materialize_files e2 pid p (k_workdir c) fs))) \<and>
     h_command h = (fst (command_setup e1 e2 pid os shell p c cache_dir trace st) = Returned 0)"

text \<open>A successful setup passed through every step.\<close>

lemma command_setup_ok:
  assumes "command_setup e1 e2 pid os shell p c cache_dir trace st = (Returned 0, st')" "\<not> k_known c"
  obtains fs fs2 where "hm_workdir_reset e1 (k_workdir c) (ss_files st) = Some (True, fs)"
    "(if length (p_files p) > 0 then hm_materialize_files e2 pid p (k_workdir c) fs else (True, fs)) = (True, fs2)"
    "hm_command_run os shell p (k_workdir c) cache_dir trace (st\<lparr>ss_files := fs2\<rparr>) = (Returned 0, st')"
proof -
  obtain ok fs where r: "hm_workdir_reset e1 (k_workdir c) (ss_files st) = Some (ok, fs)" and ok
    using assms by (cases "hm_workdir_reset e1 (k_workdir c) (ss_files st)")
      (auto simp: command_setup_def split: prod.split_asm bool.split_asm)
  obtain ok2 fs2 where m: "(if length (p_files p) > 0 then hm_materialize_files e2 pid p (k_workdir c) fs else (True, fs)) = (ok2, fs2)"
    by fastforce
  show ?thesis
  proof (rule that)
    show "hm_workdir_reset e1 (k_workdir c) (ss_files st) = Some (True, fs)" using r \<open>ok\<close> by simp
    have ok2: "ok2" and "hm_command_run os shell p (k_workdir c) cache_dir trace (st\<lparr>ss_files := fs2\<rparr>) = (Returned 0, st')"
      using assms(1) [unfolded command_setup_def if_not_P [OF assms(2)] r option.case prod.case m] \<open>ok\<close>
      by (cases ok2; simp)+
    then show "hm_command_run os shell p (k_workdir c) cache_dir trace (st\<lparr>ss_files := fs2\<rparr>) = (Returned 0, st')" by simp
    show "(if length (p_files p) > 0 then hm_materialize_files e2 pid p (k_workdir c) fs else (True, fs)) = (True, fs2)"
      using m ok2 by simp
  qed
qed

text \<open>What the shell was started with.\<close>

definition started_clean :: "setup_os \<Rightarrow> path \<Rightarrow> hm_project \<Rightarrow> setup_state \<Rightarrow> setup_state \<Rightarrow> (shell_run \<Rightarrow> bool) \<Rightarrow> bool" where
  "started_clean os w p st st' what \<longleftrightarrow>
     (\<exists>run. ss_child st' = Some (ChildShell run) \<and> end_status os (ChildShell run) = Exited 0 \<and> what run) \<and>
     clean_start w p (ss_files st') \<and> (\<forall>q. \<not> under w q \<longrightarrow> look (ss_files st') q = look (ss_files st) q)"

lemma command_setup_clean:
  assumes "command_setup e1 e2 pid os shell p c cache_dir trace st = (Returned 0, st')"
    and "\<not> k_known c" "k_workdir c = path_string w" "plain_parents (ss_files st) w" "named (ss_files st)" "closed (ss_files st)"
    and "idle_signals (ss_sig st)" "ss_child st = None"
    and "list_all (\<lambda>f. safe_path (ef_path f)) (p_files p)" "distinct (map ef_path (p_files p))"
  shows "started_clean os w p st st' (\<lambda>run. sr_argv run = command_argv shell trace p \<and> sr_cwd run = k_workdir c \<and>
    sr_environ run = set_vars (command_vars p (k_workdir c) @ sandbox_vars p (k_workdir c) cache_dir) (su_environ os) \<and>
    confined os p (k_workdir c) cache_dir (ss_proc st) (sr_proc run))"
proof -
  from command_setup_ok [OF assms(1,2)] obtain fs fs2 where
    reset: "hm_workdir_reset e1 (path_string w) (ss_files st) = Some (True, fs)"
    and mat: "(if length (p_files p) > 0 then hm_materialize_files e2 pid p (path_string w) fs else (True, fs)) = (True, fs2)"
    and run: "hm_command_run os shell p (k_workdir c) cache_dir trace (st\<lparr>ss_files := fs2\<rparr>) = (Returned 0, st')"
    unfolding assms(3) by metis
  obtain ok fs3 where en: "hm_workdir_ensure (su_fs os) (k_workdir c) (ss_files (st\<lparr>ss_files := fs2\<rparr>)) = (ok, fs3)" by fastforce
  have idle: "idle_signals (ss_sig (st\<lparr>ss_files := fs2\<rparr>))" "ss_child (st\<lparr>ss_files := fs2\<rparr>) = None" using assms(7,8) by simp_all
  from command_outcome [OF run idle] obtain r where
    r: "ss_child st' = Some (ChildShell r)" "end_status os (ChildShell r) = Exited 0" by auto
  have ok: "ok" using run en by (cases ok) (simp_all add: hm_command_run_def Let_def)
  have files: "ss_files st' = fs3" using command_files [OF en, of shell p cache_dir trace] run by simp
  have en': "hm_workdir_ensure (su_fs os) (path_string w) fs2 = (True, fs3)" using en ok assms(3) by simp
  note cleared = reset_clears [OF assms(4-6) reset]
  have "clean_start w p fs3 \<and> (\<forall>q. \<not> under w q \<longrightarrow> look fs3 q = look (ss_files st) q)"
  proof (cases "p_files p = []")
    case True
    then have "fs2 = fs" using mat by simp
    with ensure_clean_empty [OF cleared(2,3) _ True] en' cleared(1) show ?thesis by (auto simp: pruned_def)
  next
    case False
    then have "hm_materialize_files e2 pid p (path_string w) fs = (True, fs2)" using mat by simp
    from reset_then_files [OF assms(4-6) reset assms(9,10) this] ensure_clean_again [OF _ en']
    show ?thesis by auto
  qed
  moreover from command_starts [OF run idle(2) r(1)] obtain capture sig where
    "command_child os shell p (k_workdir c) cache_dir trace capture sig (ss_proc st) = ChildShell r" by auto
  note command_child_shell [OF this]
  ultimately show ?thesis using r unfolding started_clean_def files by blast
qed

lemma url_setup_clean:
  assumes "url_setup e1 os shell p old new body workdir cache_dir trace st = (Returned 0, st')"
    and "workdir = path_string w" "plain_parents (ss_files st) w" "named (ss_files st)" "closed (ss_files st)"
    and "idle_signals (ss_sig st)" "ss_child st = None" "p_files p = []" "p_install p \<noteq> []"
  shows "started_clean os w p st st' (\<lambda>run. (\<exists>script response.
      sr_argv run = install_argv shell trace script \<and>
      sr_environ run = set_vars (install_vars p old new response @ sandbox_vars p workdir cache_dir) (su_environ os)) \<and>
    sr_cwd run = workdir \<and> confined os p workdir cache_dir (ss_proc st) (sr_proc run))"
proof -
  obtain fs where reset: "hm_workdir_reset e1 (path_string w) (ss_files st) = Some (True, fs)"
    and run: "hm_install os shell p old new body workdir cache_dir trace (st\<lparr>ss_files := fs\<rparr>) = (Returned 0, st')"
    using assms(1,2) by (auto simp: url_setup_def split: option.split_asm prod.split_asm bool.split_asm)
  obtain ok fs3 where en: "hm_workdir_ensure (su_fs os) workdir (ss_files (st\<lparr>ss_files := fs\<rparr>)) = (ok, fs3)" by fastforce
  have idle: "idle_signals (ss_sig (st\<lparr>ss_files := fs\<rparr>))" "ss_child (st\<lparr>ss_files := fs\<rparr>) = None" using assms(6,7) by simp_all
  from install_outcome [OF run idle] assms(9) obtain r where
    r: "ss_child st' = Some (ChildShell r)" "end_status os (ChildShell r) = Exited 0" by auto
  have ok: "ok" using run en assms(9) by (cases ok) (simp_all add: hm_install_def install_prepare_def Let_def)
  have files: "ss_files st' = fs3" using install_files [OF en assms(9), of shell old new body cache_dir trace] run by simp
  have en': "hm_workdir_ensure (su_fs os) (path_string w) fs = (True, fs3)" using en ok assms(2) by simp
  note cleared = reset_clears [OF assms(3-5) reset]
  from ensure_clean_empty [OF cleared(2,3) en' assms(8)] cleared(1)
  have "clean_start w p fs3 \<and> (\<forall>q. \<not> under w q \<longrightarrow> look fs3 q = look (ss_files st) q)" by (auto simp: pruned_def)
  moreover obtain script response capture st4 where
    "install_child os shell p old new script response workdir cache_dir trace capture (ss_sig (signals_begin os st4)) (ss_proc st) =
      ChildShell r" by (rule install_starts [OF run idle r(1)]) auto
  note install_child_shell [OF this]
  ultimately show ?thesis using r unfolding started_clean_def files by blast
qed

definition url_reports ::
  "host \<Rightarrow> os_env \<Rightarrow> setup_os \<Rightarrow> string \<Rightarrow> hm_project \<Rightarrow> hm_cache \<Rightarrow> string \<Rightarrow> string \<Rightarrow> string \<Rightarrow> bool \<Rightarrow>
   setup_state \<Rightarrow> bool" where
  "url_reports h e1 os shell p c new body cache_dir trace st \<longleftrightarrow>
     (\<forall>ok fs. hm_workdir_reset e1 (k_workdir c) (ss_files st) = Some (ok, fs) \<longrightarrow> h_reset h = ok) \<and>
     h_install h = (fst (url_setup e1 os shell p (k_mark c) new body (k_workdir c) cache_dir trace st) = Returned 0)"

section \<open>The project at hand\<close>

text \<open>A project the driver works on was read by the parser, which checked what the installer relies on.\<close>

definition loaded :: "host \<Rightarrow> hm_opts \<Rightarrow> hm_project \<Rightarrow> bool" where
  "loaded h opts p \<longleftrightarrow>
     (\<exists>name buf p0 canonical c. load_project h opts name = Some (buf, p0, canonical) \<and>
        prepare h opts name buf p0 canonical = Some (p, c))"

lemma loaded_checked:
  assumes "loaded h opts p"
  shows "bounds_ok p" "kind_ok p"
proof -
  from assms obtain name buf p0 canonical c where l: "load_project h opts name = Some (buf, p0, canonical)"
    and pr: "prepare h opts name buf p0 canonical = Some (p, c)" by (auto simp: loaded_def)
  have "hm_config_parse buf (h_environ h) (if name = ''-'' then None else Some name) (project_defaults 0) (\<not> o_unpack opts)
      (h_siml h buf) = Some (Inr p0)"
    using l by (auto simp: load_project_def split: sum.split_asm prod.split_asm option.split_asm)
  then have "bounds_ok p0 \<and> kind_ok p0" using parsed_project_ok by (auto simp: project_ok_def)
  moreover obtain c where "resolve_cached_bin p0 c = Some p"
    using pr by (auto simp: prepare_def Let_def split: if_split_asm option.split_asm)
  then have "p = p0 \<or> (\<exists>b. p = p0\<lparr>p_bin_path := b\<rparr>)" by (auto simp: resolve_cached_bin_def split: if_split_asm)
  ultimately show "bounds_ok p" "kind_ok p" by (auto simp: bounds_ok_def kind_ok_def)
qed

lemma loaded_files:
  assumes "loaded h opts p"
  shows "list_all (\<lambda>f. safe_path (ef_path f)) (p_files p)" "distinct (map ef_path (p_files p))"
    and "p_kind p \<noteq> HM_KIND_COMMAND \<Longrightarrow> p_files p = []"
proof -
  note ok = loaded_checked [OF assms]
  show "list_all (\<lambda>f. safe_path (ef_path f)) (p_files p)"
    using ok(1) by (auto simp: bounds_ok_def file_ok_def valid_file_path_def valid_relative_path_iff list_all_iff
        intro: safe_components_path)
  show "distinct (map ef_path (p_files p))" using ok(1) by (simp add: bounds_ok_def)
  show "p_files p = []" if "p_kind p \<noteq> HM_KIND_COMMAND"
    using ok(2) that by (cases "p_kind p") (auto simp: kind_ok_def)
qed

section \<open>What is recorded was done\<close>

lemma finish_locked_exit2: "finish_locked h p opts locked rc r = (oc, r') \<Longrightarrow> oc \<noteq> Exit 2 \<longleftrightarrow> rc \<noteq> 2"
  by (auto simp: finish_locked_def finish_def Let_def split: if_split_asm)

lemma do_save_exit: "do_save h c' r = (rc, r') \<Longrightarrow> rc \<noteq> 2 \<longleftrightarrow> fst (hm_cache_save (h_save h) c' (r_fs r))"
  by (auto simp: do_save_def split: prod.split_asm if_split_asm)

lemma reset_returns:
  assumes "plain_parents fs w" "named fs" "closed fs"
  shows "\<exists>ok fs1. hm_workdir_reset e (path_string w) fs = Some (ok, fs1)"
  using workdir_reset_spec [OF plain_anchored assms(2,3), of w e] assms(1) by (auto simp: plain_parents_def)

lemma command_recorded:
  assumes "run_command_project h p opts now c r = (rc, r')" "\<not> k_known c"
    and "\<not> o_check_only opts" "\<not> o_dry_run opts" "\<not> o_adopt opts"
    and "command_reports h e1 e2 pid os shell p c cache_dir trace st"
    and "hm_workdir_reset e1 (k_workdir c) (ss_files st) = Some (ok, fs)"
  shows "rc \<noteq> 2 \<longleftrightarrow> fst (command_setup e1 e2 pid os shell p c cache_dir trace st) = Returned 0 \<and>
    fst (hm_cache_save (h_save h) (c\<lparr>k_last_check := now, k_last_change := now\<rparr>) (r_fs r))"
proof -
  have rep: "h_reset h = ok" "ok \<Longrightarrow> h_materialize h = fst (hm_materialize_files e2 pid p (k_workdir c) fs)"
    "h_command h = (fst (command_setup e1 e2 pid os shell p c cache_dir trace st) = Returned 0)"
    using assms(6,7) by (auto simp: command_reports_def)
  have early: "fst (command_setup e1 e2 pid os shell p c cache_dir trace st) \<noteq> Returned 0"
    if "\<not> ok \<or> (p_files p \<noteq> [] \<and> \<not> fst (hm_materialize_files e2 pid p (k_workdir c) fs))"
    using that assms(2,7) by (cases ok; cases "hm_materialize_files e2 pid p (k_workdir c) fs") (auto simp: command_setup_def)
  show ?thesis
  proof (cases "ok \<and> (p_files p \<noteq> [] \<longrightarrow> h_materialize h) \<and> h_command h")
    case True
    obtain r1 where "do_save h (c\<lparr>k_last_check := now, k_last_change := now\<rparr>) r1 = (rc, r')" "r_fs r1 = r_fs r"
      using True rep(1) assms(1-5) by (auto simp: run_command_project_def Let_def split: if_split_asm)
    with do_save_exit [OF this(1)] True rep(3) show ?thesis by simp
  next
    case False
    then have "rc = 2" using rep(1) assms(1-5) by (auto simp: run_command_project_def Let_def split: if_split_asm)
    with False early rep show ?thesis by auto
  qed
qed

lemma url_recorded:
  assumes "run_url_project h p opts now c r = (rc, r')" "hm_check (h_xxh3 h) (h_curl h) p (r_log r) = (Inr (mark, body), log)"
    and "url_changed h p c mark" "\<not> o_check_only opts" "\<not> o_dry_run opts" "\<not> o_adopt opts"
    and "url_reports h e1 os shell p c mark body cache_dir trace st"
    and "hm_workdir_reset e1 (k_workdir c) (ss_files st) = Some (ok, fs)"
  shows "rc \<noteq> 2 \<longleftrightarrow> fst (url_setup e1 os shell p (k_mark c) mark body (k_workdir c) cache_dir trace st) = Returned 0 \<and>
    fst (hm_cache_save (h_save h)
      (c\<lparr>k_mark := copied (HM_MARK_MAX + 1) mark, k_last_check := now, k_last_change := now\<rparr>) (r_fs r))"
proof -
  have rep: "h_reset h = ok"
    "h_install h = (fst (url_setup e1 os shell p (k_mark c) mark body (k_workdir c) cache_dir trace st) = Returned 0)"
    using assms(7,8) by (auto simp: url_reports_def)
  have early: "fst (url_setup e1 os shell p (k_mark c) mark body (k_workdir c) cache_dir trace st) \<noteq> Returned 0" if "\<not> ok"
    using that assms(8) by (simp add: url_setup_def)
  let ?c = "c\<lparr>k_mark := copied (HM_MARK_MAX + 1) mark, k_last_check := now, k_last_change := now\<rparr>"
  show ?thesis
  proof (cases "ok \<and> h_install h")
    case True
    obtain r1 where "do_save h ?c r1 = (rc, r')" "r_fs r1 = r_fs r"
      using True rep(1) assms(1-6) by (auto simp: run_url_project_def url_changed_def Let_def split: if_split_asm)
    with do_save_exit [OF this(1)] True rep(2) show ?thesis by simp
  next
    case False
    then have "rc = 2" using rep(1) assms(1-6) by (auto simp: run_url_project_def url_changed_def Let_def split: if_split_asm)
    with False early rep show ?thesis by auto
  qed
qed

section \<open>Examples\<close>

text \<open>Where nothing fails, a setup returns 0.\<close>

lemma command_returns:
  assumes "works os" "\<not> p_sandboxed p" "hm_workdir_ensure (su_fs os) workdir (ss_files st) = (True, fs)"
    and "\<And>run. end_status os (ChildShell run) = Exited 0"
  shows "fst (hm_command_run os shell p workdir cache_dir trace st) = Returned 0"
proof -
  obtain st4 where cf: "capture_file os trace (st\<lparr>ss_files := fs\<rparr>) = (\<not> trace, st4)"
    using capture_file_works [OF assms(1)] by blast
  obtain pid where f: "su_fork os = Some pid" using assms(1) by (auto simp: works_def)
  have b: "su_before os = []" and w: "su_chdir os" "su_pipe os" "su_wait os" using assms(1) by (simp_all add: works_def)
  obtain run where c: "command_child os shell p workdir cache_dir trace (\<not> trace)
      (ss_sig (signals_begin os st4)) (ss_proc st4) = ChildShell run"
    using child_prelude_works [OF assms(1) no_signal_begin [OF b]] run_shell_works [OF assms(1,2)] w
    by (fastforce simp: command_child_def)
  have "sg_signal (ss_sig (supervise os pid trace child (signals_begin os st4))) = 0" for child
    using assms(1) no_signal_begin [OF b, of st4] by (simp add: works_def supervise_def forward_signals_to_def Let_def)
  then show ?thesis
    using w c assms(4) by (simp add: hm_command_run_def Let_def assms(3) cf f end_eq)
qed

definition project_host :: "siml_event list \<Rightarrow> host" where
  "project_host evs = sample_host\<lparr>h_input := \<lparr>os_openat2_ok = True, os_open_ok = True, os_reads = [], os_file = ''  all:''\<rparr>,
     h_siml := (\<lambda>_. evs)\<rparr>"

definition command_events :: "siml_event list" where
  "command_events =
     [siml_ev SIML_EVENT_STREAM_START [] [] 0 1, siml_ev SIML_EVENT_DOCUMENT_START [] [] 0 1,
      siml_ev SIML_EVENT_MAPPING_START [] [] 0 1,
      siml_ev SIML_EVENT_SCALAR ''command'' ''make'' 9 1, siml_ev SIML_EVENT_SCALAR ''sandboxed'' ''false'' 9 2,
      siml_ev SIML_EVENT_MAPPING_ENTRY_HEADER ''files'' [] 0 3,
      siml_ev SIML_EVENT_MAPPING_START [] [] 0 3,
      siml_ev SIML_EVENT_BLOCK_SCALAR_START ''d/f'' [] 0 4,
      siml_ev SIML_EVENT_BLOCK_SCALAR_LINE [] ''all:'' 2 5,
      siml_ev SIML_EVENT_BLOCK_SCALAR_END [] [] 0 5,
      siml_ev SIML_EVENT_MAPPING_END [] [] 0 5,
      siml_ev SIML_EVENT_MAPPING_END [] [] 0 5, siml_ev SIML_EVENT_DOCUMENT_END [] [] 0 5,
      siml_ev SIML_EVENT_STREAM_END [] [] 0 5]"

definition url_events :: "siml_event list" where
  "url_events =
     [siml_ev SIML_EVENT_STREAM_START [] [] 0 1, siml_ev SIML_EVENT_DOCUMENT_START [] [] 0 1,
      siml_ev SIML_EVENT_MAPPING_START [] [] 0 1,
      siml_ev SIML_EVENT_SCALAR ''url'' ''u'' 9 1, siml_ev SIML_EVENT_SCALAR ''check'' ''hash'' 9 2,
      siml_ev SIML_EVENT_SCALAR ''sandboxed'' ''false'' 9 3,
      siml_ev SIML_EVENT_BLOCK_SCALAR_START ''install'' [] 0 4,
      siml_ev SIML_EVENT_BLOCK_SCALAR_LINE [] ''all:'' 2 5,
      siml_ev SIML_EVENT_BLOCK_SCALAR_END [] [] 0 5,
      siml_ev SIML_EVENT_MAPPING_END [] [] 0 5, siml_ev SIML_EVENT_DOCUMENT_END [] [] 0 5,
      siml_ev SIML_EVENT_STREAM_END [] [] 0 5]"

definition setup_opts :: hm_opts where
  "setup_opts = opts_init\<lparr>o_cache_dir := Some ''/c'', o_prog_argv := [''-'']\<rparr>"


lemma project_host_simps [simp]:
  "h_environ (project_host evs) = []" "h_siml (project_host evs) = (\<lambda>_. evs)" "h_reset (project_host evs)"
  "h_materialize (project_host evs)" "h_command (project_host evs)" "h_install (project_host evs)"
  "h_save (project_host evs) = sample_save_env" "h_xxh3 (project_host evs) = h_xxh3 sample_host"
  "h_curl (project_host evs) = h_curl sample_host"
  by (simp_all add: project_host_def sample_host_def)

lemma setup_opts_simps [simp]:
  "\<not> o_check_only setup_opts" "\<not> o_dry_run setup_opts" "\<not> o_adopt setup_opts" "\<not> o_unpack setup_opts"
  by (simp_all add: setup_opts_def opts_init_def)

text \<open>What is parsed from the events is loaded, when it names no program.\<close>

lemma sample_loaded:
  assumes "hm_config_parse ''  all:'' [] None (project_defaults 0) True evs = Some (Inr p)" "p_bin_path p = []"
    and "p_bin_choice p = HM_BIN_SINGLE"
  shows "loaded (project_host evs) setup_opts p"
proof -
  have "hm_read_all (h_input (project_host evs)) ''-'' HM_CONFIG_MAX = Inr (''  all:'', False, False)"
    by (simp add: hm_read_all_def project_host_def read_loop_correct hm_limits)
  then have "load_project (project_host evs) setup_opts ''-'' = Some (''  all:'', p, False)"
    using assms(1) by (simp add: load_project_def)
  moreover have "\<exists>c. prepare (project_host evs) setup_opts ''-'' ''  all:'' p False = Some (p, c)"
    using assms(2,3)
    by (simp add: prepare_def source_path_def hm_cache_dir_def setup_opts_def opts_init_def Let_def resolve_cached_bin_def)
  ultimately show ?thesis unfolding loaded_def by blast
qed

lemma command_parsed: "case hm_config_parse ''  all:'' [] None (project_defaults 0) True command_events of
    Some (Inr p) \<Rightarrow> p_bin_path p = [] \<and> p_bin_choice p = HM_BIN_SINGLE \<and> p_kind p = HM_KIND_COMMAND \<and> \<not> p_sandboxed p \<and>
      p_files p = [\<lparr>ef_path = ''d/f'', ef_content = ''  all:'', ef_content_indent = 2, ef_line = 4\<rparr>]
  | _ \<Rightarrow> False"
  by code_simp

lemma url_parsed: "case hm_config_parse ''  all:'' [] None (project_defaults 0) True url_events of
    Some (Inr p) \<Rightarrow> p_bin_path p = [] \<and> p_bin_choice p = HM_BIN_SINGLE \<and> p_kind p = HM_KIND_URL \<and> \<not> p_sandboxed p \<and>
      p_check p = HM_CHECK_HASH \<and> p_install p \<noteq> []
  | _ \<Rightarrow> False"
  by code_simp

text \<open>A record with the files of the command project above.\<close>

definition sample_command :: hm_project where
  "sample_command = (project_defaults 1)\<lparr>p_files :=
     [\<lparr>ef_path = ''d/f'', ef_content = ''  all:'', ef_content_indent = 2, ef_line = 4\<rparr>]\<rparr>"

lemma sample_command_loaded:
  "\<exists>p. loaded (project_host command_events) setup_opts p \<and> p_kind p = HM_KIND_COMMAND \<and> \<not> p_sandboxed p \<and>
     p_files p = p_files sample_command"
  using command_parsed sample_loaded [of command_events] by (auto simp: sample_command_def split: option.split_asm sum.split_asm)

lemma sample_url_loaded:
  "\<exists>p. loaded (project_host url_events) setup_opts p \<and> p_kind p = HM_KIND_URL \<and> \<not> p_sandboxed p \<and>
     p_check p = HM_CHECK_HASH \<and> p_install p \<noteq> []"
  using url_parsed sample_loaded [of url_events] by (auto split: option.split_asm sum.split_asm)

lemma materialize_cong: "p_files p = p_files q \<Longrightarrow> hm_materialize_files e pid p w fs = hm_materialize_files e pid q w fs"
  by (auto simp: hm_materialize_files_def split: prod.split bool.split)

definition setup_cache :: hm_cache where
  "setup_cache = sample_cache\<lparr>k_workdir := ''/c/w''\<rparr>"

definition sample_tree_reset :: files where
  "sample_tree_reset = snd (the (hm_workdir_reset quiet_os ''/c/w'' sample_tree))"

lemma sample_tree_facts:
  "plain_parents sample_tree [''c'', ''w'']" "named sample_tree" "closed sample_tree"
  "path_string [''c'', ''w''] = ''/c/w''"
proof -
  show "plain_parents sample_tree [''c'', ''w'']"
    by (auto simp: plain_parents_def real_name_def less_Suc_eq sample_tree_def look_def)
  show "named sample_tree" unfolding named_def sample_tree_look by (auto simp: real_name_def)
  show "closed sample_tree" unfolding closed_def sample_tree_look by (auto simp: look_def sample_tree_def)
  show "path_string [''c'', ''w''] = ''/c/w''" by (simp add: path_string_def)
qed

lemma sample_reset: "hm_workdir_reset quiet_os ''/c/w'' sample_tree = Some (True, sample_tree_reset)"
proof -
  have "hm_workdir_reset quiet_os ''/c/w'' sample_tree \<noteq> None" "fst (the (hm_workdir_reset quiet_os ''/c/w'' sample_tree))"
    by code_simp+
  then show ?thesis unfolding sample_tree_reset_def by (cases "hm_workdir_reset quiet_os ''/c/w'' sample_tree") auto
qed

lemma sample_materialized: "\<exists>fs2. hm_materialize_files quiet_os 7 sample_command ''/c/w'' sample_tree_reset = (True, fs2) \<and>
    (\<exists>fs3. hm_workdir_ensure quiet_os ''/c/w'' fs2 = (True, fs3))"
proof -
  let ?m = "hm_materialize_files quiet_os 7 sample_command ''/c/w'' sample_tree_reset"
  have "fst ?m" "fst (hm_workdir_ensure quiet_os ''/c/w'' (snd ?m))" by code_simp+
  then show ?thesis by (metis prod.collapse)
qed

lemma setup_cache_simps [simp]: "\<not> k_known setup_cache" "k_workdir setup_cache = ''/c/w''" "k_mark setup_cache = k_mark sample_cache"
  by (simp_all add: setup_cache_def sample_cache_def)

lemma sample_command_setup:
  assumes "\<not> p_sandboxed p" "p_files p = p_files sample_command"
  shows "\<exists>st'. command_setup quiet_os quiet_os 7 sample_setup ''/bin/sh'' p setup_cache ''/c'' False idle_setup = (Returned 0, st')"
proof -
  obtain fs2 fs3 where m: "hm_materialize_files quiet_os 7 p ''/c/w'' sample_tree_reset = (True, fs2)"
    and en: "hm_workdir_ensure quiet_os ''/c/w'' fs2 = (True, fs3)"
    using sample_materialized materialize_cong [OF assms(2)] by metis
  have f: "ss_files idle_setup = sample_tree" "su_fs sample_setup = quiet_os" by (simp_all add: idle_setup_def sample_setup_def)
  have "fst (hm_command_run sample_setup ''/bin/sh'' p ''/c/w'' ''/c'' False (idle_setup\<lparr>ss_files := fs2\<rparr>)) = Returned 0"
    by (rule command_returns [OF sample_works assms(1) _ sample_end(1)]) (simp_all add: f en)
  moreover have "command_setup quiet_os quiet_os 7 sample_setup ''/bin/sh'' p setup_cache ''/c'' False idle_setup =
      hm_command_run sample_setup ''/bin/sh'' p ''/c/w'' ''/c'' False (idle_setup\<lparr>ss_files := fs2\<rparr>)"
    using assms(2) by (simp add: command_setup_def f sample_reset m) (simp add: sample_command_def)
  ultimately show ?thesis by (metis prod.collapse)
qed

lemma sample_url_check:
  assumes "p_check p = HM_CHECK_HASH" "length (p_url p) \<le> HM_URL_MAX"
  shows "\<exists>log. hm_check (h_xxh3 sample_host) (h_curl sample_host) p (r_log (start_run empty_fs)) = (Inr (hex64 3, ''abc''), log)"
proof -
  obtain log where run: "run_curl sample_curl out_init = (Inr ''abc'', log)"
    using sample_run [of out_init] by (cases "run_curl sample_curl out_init") simp
  then show ?thesis
    using assms by (simp add: hm_check_def sample_host_def start_run_def run hm_limits hm_hash_hex_def)
qed

lemma sample_reset_ensured: "\<exists>fs. hm_workdir_ensure quiet_os ''/c/w'' sample_tree_reset = (True, fs)"
proof -
  have "fst (hm_workdir_ensure quiet_os ''/c/w'' sample_tree_reset)" by code_simp
  then show ?thesis by (metis prod.collapse)
qed

lemma sample_url_setup:
  assumes "\<not> p_sandboxed p" "p_install p \<noteq> []"
  shows "\<exists>st'. url_setup quiet_os sample_setup ''/bin/sh'' p old (hex64 3) ''abc'' ''/c/w'' ''/c'' False idle_setup = (Returned 0, st')"
proof -
  let ?st = "idle_setup\<lparr>ss_files := sample_tree_reset\<rparr>"
  let ?i = "hm_install sample_setup ''/bin/sh'' p old (hex64 3) ''abc'' ''/c/w'' ''/c'' False ?st"
  obtain fs where "hm_workdir_ensure (su_fs sample_setup) ''/c/w'' (ss_files ?st) = (True, fs)"
    using sample_reset_ensured by (auto simp: sample_setup_def)
  from install_works [OF sample_works assms(2,1) this, of "''/bin/sh''" old "hex64 3" "''abc''" "''/c''" False]
  obtain run where "ss_child (snd ?i) = Some (ChildShell run)" "sg_signal (ss_sig (snd ?i)) = 0" by auto
  then have "fst ?i = Returned 0"
    using install_outcome [of sample_setup "''/bin/sh''" p old "hex64 3" "''abc''" "''/c/w''" "''/c''" False ?st "fst ?i" "snd ?i"]
      idle_sample sample_end by simp
  moreover have "url_setup quiet_os sample_setup ''/bin/sh'' p old (hex64 3) ''abc'' ''/c/w'' ''/c'' False idle_setup = ?i"
    by (simp add: url_setup_def idle_setup_def sample_reset)
  ultimately show ?thesis by (metis prod.collapse)
qed

section \<open>Properties\<close>





end
