(* ===== verification/HM_Usage.thy ===== *)
theory HM_Usage
  imports HM_Output HM_Options
begin

text \<open>
  The usage message (\<^verbatim>\<open>usage_text\<close> of \<^verbatim>\<open>src/main.c\<close>) and the two messages that end in it. \<open>hm_out\<close> and
  \<open>hm_err\<close> cut a message at their line buffer, so the room the option of an error message has is bounded.
\<close>

definition usage_lines :: "string list" where
  "usage_lines =
    [''usage: hacman [OPTIONS] FILE [ARGS...]'',
     ''       hacman --unpack FILE TARGET'',
     '''',
     ''Checks the URL described by a SIML project file and runs its install script'',
     ''when that URL changed, or - for a file that describes a command instead -'',
     ''runs that command no more often than its schedule allows. FILE describes'',
     ''exactly one project; \"-\" reads it from standard input.'',
     '''',
     ''When the project names a bin-path, hacman execs it once the setup is done and'',
     ''forwards ARGS to it. Options must therefore come before FILE - everything'',
     ''after FILE belongs to the program. HACMAN may contain options to prepend.'',
     '''',
     ''options:'',
     ''  -c, --check-only    check only, never install or run (exit 10 if due)'',
     ''  -n, --dry-run       report what would happen, change nothing'',
     ''  -f, --force         ignore the schedule and act now'',
     ''  -a, --adopt         record the current state without installing or running'',
     ''  -p, --plan          print what FILE resolves to, as SIML, and exit'',
     ''      --unpack        extract embedded files and scripts into TARGET'',
     ''      --cache DIR     cache directory (default: ~/.cache/hacman)'',
     ''  -t, --timeout SECS  per-request timeout (default: 15)'',
     ''  -v, --verbose       report an unchanged or skipped project too'',
     ''  -x, --trace         show and trace command and install shells'',
     ''  -h, --help          show this help'',
     ''  -V, --version       show the version'',
     '''',
     ''environment read by hacman:'',
     ''  HACMAN              options prepended before command-line options'',
     ''  HACMAN_CACHE        cache directory overridden by --cache'',
     ''  HACMAN_DEBUG=0|1    report decisions and stream shell-traced setup live'',
     ''  HACMAN_KEEP_TEMP=1  keep generated install and response files'',
     '''',
     ''environment exported to setup code:'',
     ''  HACMAN_NAME         project name (commands and install scripts)'',
     ''  HACMAN_WORKDIR      command working directory'',
     ''  HACMAN_URL          checked URL'',
     ''  HACMAN_CHECK        etag, hash or version'',
     ''  HACMAN_VERSION      newly observed marker'',
     ''  HACMAN_PREVIOUS     previous marker, empty on first sight'',
     ''  HACMAN_RESPONSE     downloaded response path when available'',
     '''',
     ''build.sh environment:'',
     ''  HACMAN_CC           compiler to use'',
     ''  HACMAN_STATIC=0|1   disable or enable static linking'',
     ''  HACMAN_GLIBC=0|1    disallow or allow fallback from musl to glibc'',
     '''',
     ''exit codes: 0 ok, 1 usage/config error, 2 a check, install or command failed,'',
     ''            10 work is pending with --check-only/--dry-run'']"

definition usage_text :: string where
  "usage_text = concat (map (\<lambda>l. l @ [LF]) usage_lines)"

lemma length_usage_text: "length usage_text = 2332"
  by code_simp

section \<open>What the option parser prints\<close>

definition env_error_call :: "env_error \<Rightarrow> string \<times> fmt_arg list" where
  "env_error_call e =
     (case e of
        EnvTooLong \<Rightarrow> (''hacman: HACMAN is longer than %u bytes'' @ [LF], [AULong (of_nat HM_ENV_OPTIONS_MAX)])
      | TooManyWords \<Rightarrow> (''hacman: HACMAN contains more than %u arguments'' @ [LF], [AULong (of_nat HM_ENV_ARG_MAX)])
      | IncompleteEscape \<Rightarrow> (''hacman: HACMAN ends with an incomplete escape'' @ [LF], [])
      | UnterminatedQuote \<Rightarrow> (''hacman: HACMAN contains an unterminated quote'' @ [LF], []))"

definition arg_error_call :: "arg_error \<Rightarrow> string \<times> fmt_arg list" where
  "arg_error_call e =
     (case e of
        EnvFile a \<Rightarrow> (''hacman: HACMAN may contain options only (found '' @ [SQ] @ ''%s'' @ [SQ] @ '')'' @ [LF], [AStr (Some a)])
      | CacheNeedsDir \<Rightarrow> (''hacman: --cache needs a directory'' @ [LF], [])
      | TimeoutNeedsNumber \<Rightarrow> (''hacman: --timeout needs a number'' @ [LF], [])
      | InvalidTimeout a \<Rightarrow> (''hacman: invalid timeout '' @ [SQ] @ ''%s'' @ [SQ, LF], [AStr (Some a)])
      | UnknownOption a \<Rightarrow>
          (''hacman: unknown option '' @ [SQ] @ ''%s'' @ [SQ, LF] @ ''%s'', [AStr (Some a), AStr (Some usage_text)])
      | BadDebug \<Rightarrow> (''hacman: HACMAN_DEBUG must be 0 or 1'' @ [LF], [])
      | EnvWords e \<Rightarrow> env_error_call e)"

definition report_args :: "string \<Rightarrow> arg_result \<Rightarrow> out_state \<Rightarrow> out_state option" where
  "report_args version res st =
     (case res of
        ArgsOk opts \<Rightarrow> Some st
      | ShowHelp \<Rightarrow> map_option hm_out_flush (hm_out ''%s'' [AStr (Some usage_text)] st)
      | ShowVersion \<Rightarrow> map_option hm_out_flush (hm_out (''hacman %s'' @ [LF]) [AStr (Some version)] st)
      | ArgsFail e \<Rightarrow> (case arg_error_call e of (fmt, args) \<Rightarrow> hm_err fmt args st))"

text \<open>The message for \<open>main\<close> without a file.\<close>

definition no_file_call :: "string \<times> fmt_arg list" where
  "no_file_call =
     (''hacman: no project file given (use '' @ [SQ, CHR ''-'', SQ] @ '' to read standard input)'' @ [LF] @ ''%s'',
      [AStr (Some usage_text)])"

section \<open>It is printed whole\<close>

lemma usage_text_plain: "NUL \<notin> set usage_text"
  by (simp add: usage_text_def usage_lines_def)

lemma usage_arg [simp]: "str_arg (Some usage_text) = usage_text"
  by (simp add: cstr_id usage_text_plain)

lemma formatted:
  assumes "vformat_ref fmt args = Some t" "list_all long_arg_ok args" "length t \<le> cap"
  shows "hm_vformat cap fmt args = Some t"
  unfolding hm_vformat_def using vformat_loop_ref [OF assms(1,2), of "[]" cap] assms(3) by simp

lemma help_is_printed_whole:
  assumes "no_wr_err st" "out_buf st = []" "\<not> out_prefix_stderr st"
  shows "\<exists>st'. report_args version ShowHelp st = Some st' \<and> written st' = written st @ map (Pair (out_fd st)) usage_text"
proof -
  have "hm_vformat HM_LINE_CAP ''%s'' [AStr (Some usage_text)] = Some usage_text"
    by (rule formatted) (simp_all add: conv_ref_def long_arg_ok_def usage_text_plain length_usage_text hm_limits)
  then have "report_args version ShowHelp st = Some (hm_out_flush (fold hm_out_line [usage_text] st))"
    by (simp add: report_args_def hm_out_def)
  moreover have "written (hm_out_flush (fold hm_out_line [usage_text] st)) = written st @ map (Pair (out_fd st)) usage_text"
    using fold_out_lines [OF assms(1), of "[usage_text]"] assms(2,3)
    by (simp add: length_usage_text hm_limits out_view_def render_def)
  ultimately show ?thesis by blast
qed

text \<open>An unknown option is quoted with the whole usage message behind it, if it is not longer than 1736 bytes.\<close>

lemma unknown_option_is_reported_whole:
  assumes "no_wr_err st" "\<not> err_prefix_lines st" "NUL \<notin> set a" "length a \<le> 1736"
  shows "\<exists>st'. report_args version (ArgsFail (UnknownOption a)) st = Some st' \<and>
    written st' = out_view st @ map (Pair 2) (''hacman: unknown option '' @ [SQ] @ a @ [SQ, LF] @ usage_text)"
proof -
  let ?t = "''hacman: unknown option '' @ [SQ] @ a @ [SQ, LF] @ usage_text"
  have "vformat_ref (fst (arg_error_call (UnknownOption a))) (snd (arg_error_call (UnknownOption a))) = Some ?t"
    using assms(3) by (simp add: arg_error_call_def conv_ref_def usage_text_plain)
  then have "hm_vformat HM_LINE_CAP (fst (arg_error_call (UnknownOption a))) (snd (arg_error_call (UnknownOption a))) = Some ?t"
    by (rule formatted)
      (use assms(4) in \<open>simp_all add: arg_error_call_def long_arg_ok_def length_usage_text hm_limits\<close>)
  then have "report_args version (ArgsFail (UnknownOption a)) st = Some (hm_err_line ?t st)"
    by (simp only: report_args_def arg_result.case hm_err_def case_prod_beta option.case)
  with hm_err_line_order [OF assms(1,2)] show ?thesis by blast
qed

end
